(* ===== verification/Trunk_Prelude.thy ===== *)
theory Trunk_Prelude
  imports Main "HOL-Library.Word" "HOL-Library.List_Lexorder"
begin

text \<open>
  Shared vocabulary of the development: the machine integers the sources use, byte
  buffers, the error codes that the components return, little-endian loads and stores
  (\<^verbatim>\<open>boost::endian\<close> and the packed wire structs), block moves inside a buffer, and the
  generic lemmas on lists and words that several components need.

  Conventions. A byte buffer is a list of 8-bit words. \<^verbatim>\<open>std::string_view\<close> compares
  bytes lexicographically as unsigned values, which is the order that List\_Lexorder
  puts on \<^verbatim>\<open>8 word list\<close>. A call that may fail with a \<^verbatim>\<open>std::error_code\<close> returns a
  value of \<^verbatim>\<open>errc + 'a\<close>. A call that has no defined result on some input (undefined
  behaviour, or a recursion that never ends) returns \<^verbatim>\<open>None\<close> there.
\<close>

unbundle bit_operations_syntax

section \<open>Types\<close>

type_synonym u8 = "8 word"
type_synonym u16 = "16 word"
type_synonym u32 = "32 word"
type_synonym u64 = "64 word"
type_synonym bytes = "u8 list"

text \<open>
  The error values the sources build: members of \<^verbatim>\<open>std::errc\<close>, and \<^verbatim>\<open>System e\<close> for
  \<^verbatim>\<open>{errno, std::system_category()}\<close>.
\<close>

datatype errc =
    Invalid_argument
  | Invalid_seek
  | No_message
  | No_buffer_space
  | Bad_message
  | No_message_available
  | Timed_out
  | Operation_canceled
  | Bad_address
  | System int

text \<open>Signed arithmetic that leaves the range of its type is undefined: the result of an operation on
  \<^verbatim>\<open>int\<close> and \<^verbatim>\<open>int64_t\<close> (also the count of a \<^verbatim>\<open>std::chrono::nanoseconds\<close>), if there is one.\<close>

definition int32_ok :: "int \<Rightarrow> bool" where
  "int32_ok i \<longleftrightarrow> - (2 ^ 31) \<le> i \<and> i < 2 ^ 31"

definition int64_ok :: "int \<Rightarrow> bool" where
  "int64_ok i \<longleftrightarrow> - (2 ^ 63) \<le> i \<and> i < 2 ^ 63"

definition checked_int32 :: "int \<Rightarrow> int option" where
  "checked_int32 i = (if int32_ok i then Some i else None)"

definition checked_int64 :: "int \<Rightarrow> int option" where
  "checked_int64 i = (if int64_ok i then Some i else None)"

lemma checked_int_Some [simp]:
  "checked_int32 i = Some j \<longleftrightarrow> int32_ok i \<and> j = i" "checked_int64 i = Some j \<longleftrightarrow> int64_ok i \<and> j = i"
  by (auto simp: checked_int32_def checked_int64_def)

lemma checked_int_ok [simp]: "int32_ok i \<Longrightarrow> checked_int32 i = Some i" "int64_ok i \<Longrightarrow> checked_int64 i = Some i"
  by simp_all

lemma int64_ok_between: "int64_ok i \<Longrightarrow> int64_ok k \<Longrightarrow> i \<le> j \<Longrightarrow> j \<le> k \<Longrightarrow> int64_ok j"
  by (simp add: int64_ok_def)

lemma sint_u32: "int32_ok i \<Longrightarrow> sint (word_of_int i :: u32) = i"
  by (simp add: int32_ok_def signed_take_bit_int_eq_self_iff sint_sbintrunc')

lemma sint_u64: "int64_ok i \<Longrightarrow> sint (word_of_int i :: u64) = i"
  by (simp add: int64_ok_def signed_take_bit_int_eq_self_iff sint_sbintrunc')

named_theorems word_bit_simps
  "rewriting word operations to statements about single bits"

named_theorems buffer_simps
  "splicing and reading byte buffers"

section \<open>Words as bits\<close>

lemmas [word_bit_simps] =
  bit_and_iff bit_or_iff bit_xor_iff bit_not_iff bit_push_bit_iff bit_drop_bit_eq
  bit_take_bit_iff bit_mask_iff bit_unsigned_iff bit_signed_iff bit_1_iff

lemma bit_128_int [word_bit_simps]: "bit (128 :: int) k \<longleftrightarrow> k = 7"
  using bit_exp_iff [of 7 k, where 'a = int] by simp

lemma word_eq_bitI:
  fixes a b :: "'a::len word"
  assumes "\<And>n. n < LENGTH('a) \<Longrightarrow> bit a n = bit b n"
  shows "a = b"
  using assms by (simp add: bit_word_eqI)

lemma and_mask_ucast_bits:
  "(ucast (v AND mask n) :: 'b::len word) = take_bit n (ucast v)"
  for v :: "'a::len word"
  by (rule bit_word_eqI) (auto simp: word_bit_simps dest: bit_imp_le_length)

lemma word_split_low:
  fixes v :: "'a::len word"
  shows "v = take_bit n v OR push_bit n (drop_bit n v)"
proof (rule bit_word_eqI)
  fix k assume "k < LENGTH('a)"
  then show "bit v k = bit (take_bit n v OR push_bit n (drop_bit n v)) k"
    by (cases "k < n") (auto simp: word_bit_simps)
qed

lemma drop_bit_less:
  fixes v :: "'a::len word"
  assumes "v \<noteq> 0" and "0 < n"
  shows "unat (drop_bit n v) < unat v"
proof -
  have "unat v div 2 ^ n < unat v"
    using assms one_less_power [of "2::nat" n]
    by (intro div_less_dividend) (auto simp: unat_gt_0)
  then show ?thesis
    unfolding unat_drop_bit_eq by (simp add: drop_bit_eq_div)
qed

lemma scast_or:
  "(scast (a OR b) :: 'b::len word) = scast a OR scast b" for a b :: "'a::len word"
  by (rule bit_word_eqI) (auto simp: word_bit_simps)

lemma unat_less_pow_iff:
  fixes v :: "'a::len word"
  shows "unat v < 2 ^ n \<longleftrightarrow> (\<forall>k \<ge> n. \<not> bit v k)"
proof -
  have "unat v < 2 ^ n \<longleftrightarrow> take_bit n (unat v) = unat v"
    by (simp add: take_bit_nat_eq_self_iff)
  also have "\<dots> \<longleftrightarrow> take_bit n v = v"
    by (metis unsigned_take_bit_eq unsigned_word_eqI)
  also have "\<dots> \<longleftrightarrow> (\<forall>k \<ge> n. \<not> bit v k)"
    by (auto simp: bit_eq_iff word_bit_simps not_le) (metis bit_imp_le_length not_le)
  finally show ?thesis .
qed

lemma and_field_eq_iff:
  fixes c :: "'a::len word"
  assumes "n + m \<le> LENGTH('a)"
  shows "c AND push_bit n (mask m) = push_bit n (mask m) \<longleftrightarrow> (\<forall>k. n \<le> k \<and> k < n + m \<longrightarrow> bit c k)"
proof -
  have "c AND push_bit n (mask m) = push_bit n (mask m) \<longleftrightarrow>
    (\<forall>k < LENGTH('a). n \<le> k \<and> k - n < m \<longrightarrow> bit c k)"
    using assms by (auto simp: bit_eq_iff word_bit_simps)
  also have "\<dots> \<longleftrightarrow> (\<forall>k. n \<le> k \<and> k < n + m \<longrightarrow> bit c k)"
    using assms by (metis add.commute add_diff_inverse_nat less_diff_conv2 not_le order_less_le_trans)
  finally show ?thesis .
qed

lemma unat_of_nat_small: "n < 2 ^ LENGTH('a) \<Longrightarrow> unat (of_nat n :: 'a::len word) = n"
  by (simp add: unat_of_nat)

section \<open>Little-endian loads and stores\<close>

text \<open>\<^verbatim>\<open>store_little_s32\<close>, \<^verbatim>\<open>store_little_s64\<close> and the fields of the packed structs on a
  little-endian target: the \<open>n\<close> low bytes of a word, least significant first.\<close>

definition store_little :: "nat \<Rightarrow> 'a::len word \<Rightarrow> bytes" where
  "store_little n w = map (\<lambda>i. ucast (drop_bit (8 * i) w)) [0..<n]"

primrec load_little :: "bytes \<Rightarrow> 'a::len word" where
  "load_little [] = 0"
| "load_little (b # bs) = ucast b OR push_bit 8 (load_little bs)"

lemma length_store_little [simp]: "length (store_little n w) = n"
  by (simp add: store_little_def)

lemma store_little_Suc:
  "store_little (Suc n) w = ucast w # store_little n (drop_bit 8 w)"
  by (simp add: store_little_def map_upt_Suc ac_simps del: upt_Suc)

lemma load_store_little: "load_little (store_little n w) = take_bit (8 * n) w"
  for w :: "'a::len word"
proof (induction n arbitrary: w)
  case 0
  then show ?case by (simp add: store_little_def)
next
  case (Suc n)
  have "ucast (ucast w :: u8) OR push_bit 8 (take_bit (8 * n) (drop_bit 8 w)) = take_bit (8 + 8 * n) w"
    by (rule bit_word_eqI) (auto simp: word_bit_simps)
  with Suc show ?case by (simp add: store_little_Suc)
qed

lemma load_store_little_full:
  "LENGTH('a) = 8 * n \<Longrightarrow> load_little (store_little n w) = w" for w :: "'a::len word"
  by (rule bit_word_eqI) (simp add: load_store_little word_bit_simps)

section \<open>Lists and buffers\<close>

text \<open>Overwriting \<open>length xs\<close> cells of a buffer from position \<open>i\<close> on: \<^verbatim>\<open>memcpy\<close> and
  \<^verbatim>\<open>std::copy\<close> into \<^verbatim>\<open>&buf[i]\<close>, for a range that lies inside the buffer.\<close>

definition overwrite :: "nat \<Rightarrow> 'a list \<Rightarrow> 'a list \<Rightarrow> 'a list" where
  "overwrite i xs buf = take i buf @ xs @ drop (i + length xs) buf"

text \<open>\<^verbatim>\<open>std::vector::resize\<close>: cut, or pad with the given value.\<close>

definition resize :: "nat \<Rightarrow> 'a \<Rightarrow> 'a list \<Rightarrow> 'a list" where
  "resize n a xs = take n xs @ replicate (n - length xs) a"

lemma length_overwrite [buffer_simps]:
  "i + length xs \<le> length buf \<Longrightarrow> length (overwrite i xs buf) = length buf"
  by (simp add: overwrite_def)

lemma overwrite_at_end [buffer_simps]: "overwrite (length buf) xs buf = buf @ xs"
  by (simp add: overwrite_def)

lemma length_resize [simp]: "length (resize n a xs) = n"
  by (simp add: resize_def)

lemma resize_append [buffer_simps]:
  "resize (length xs + n) a xs = xs @ replicate n a"
  by (simp add: resize_def)

lemma overwrite_replicate_end [buffer_simps]:
  "n = length ys \<Longrightarrow> overwrite (length xs) ys (xs @ replicate n a) = xs @ ys"
  by (simp add: overwrite_def)

lemma nth_overwrite:
  "i + length xs \<le> length buf \<Longrightarrow> j < length buf \<Longrightarrow>
   overwrite i xs buf ! j = (if i \<le> j \<and> j < i + length xs then xs ! (j - i) else buf ! j)"
  by (auto simp: overwrite_def nth_append min_def)

lemma sum_list_update_nat:
  fixes f :: "'a \<Rightarrow> nat"
  shows "k < length xs \<Longrightarrow> sum_list (map f (xs[k := y])) + f (xs ! k) = sum_list (map f xs) + f y"
proof (induction xs arbitrary: k)
  case (Cons x xs)
  then show ?case by (cases k) fastforce+
qed simp

lemma length_filter_sum: "length (filter P xs) = (\<Sum>x\<leftarrow>xs. of_bool (P x))"
  by (induction xs) auto

end
