(* ===== verification/Varint.thy ===== *)
theory Varint
  imports Trunk_Prelude
begin

text \<open>
  \<^verbatim>\<open>util/varint.h\<close>: the variable-length integer code, seven bits per byte, least
  significant group first, the top bit of a byte marking that another one follows.
  Both functions are templates over the integer type; here the type is a word of any
  width, with a separate definition for signed types, whose right shift is arithmetic.
\<close>

section \<open>Definitions\<close>

text \<open>\<^verbatim>\<open>append_varint<T>\<close> for an unsigned \<open>T\<close>.\<close>

function append_varint :: "'a::len word \<Rightarrow> bytes \<Rightarrow> bytes" where
  "append_varint value output =
     (let cur = ucast (value AND 0x7f);
          value' = drop_bit 7 value
      in if value' = 0 then output @ [cur]
         else append_varint value' (output @ [cur OR 0x80]))"
  by pat_completeness auto
termination
proof (relation "measure (\<lambda>(v, _). unat v)")
  fix v v' :: "'a word" and cur :: u8 and out :: bytes
  assume v': "v' = drop_bit 7 v" and nz: "v' \<noteq> 0"
  then have "v \<noteq> 0" by auto
  with v' show "((v', out @ [cur OR 0x80]), (v, out)) \<in> measure (\<lambda>(v, _). unat v)"
    by (simp add: drop_bit_less)
qed simp

declare append_varint.simps [simp del]

text \<open>\<^verbatim>\<open>append_varint<T>\<close> for a signed \<open>T\<close>: \<^verbatim>\<open>value >>= 7\<close> keeps the sign, so the loop
  has no reason to end on a negative value. \<open>None\<close> is a call that does not return.\<close>

partial_function (option) append_varint_signed :: "'a::len word \<Rightarrow> bytes \<Rightarrow> bytes option" where
  "append_varint_signed value output =
     (let cur = ucast (value AND 0x7f);
          value' = signed_drop_bit 7 value
      in if value' = 0 then Some (output @ [cur])
         else append_varint_signed value' (output @ [cur OR 0x80]))"

text \<open>The result of \<^verbatim>\<open>parse_varint\<close>: \<^verbatim>\<open>false\<close>, or \<^verbatim>\<open>true\<close> with the value and the rest of the
  input, or no defined result: \<^verbatim>\<open>(cur & 0x7f) << (size * 7)\<close> shifts a 32-bit \<^verbatim>\<open>int\<close>, which
  is undefined for a shift count of 32 or more.\<close>

datatype 'a parsed = Undefined_shift | Incomplete | Parsed 'a bytes

text \<open>One turn of the loop reads \<^verbatim>\<open>input[size]\<close>; the third argument is the input from that
  position on. The shifted \<^verbatim>\<open>int\<close> is converted to \<open>T\<close> with its sign (\<open>scast\<close>).\<close>

primrec parse_varint_loop :: "nat \<Rightarrow> 'a::len word \<Rightarrow> bytes \<Rightarrow> 'a word parsed" where
  "parse_varint_loop sz result [] = Incomplete"
| "parse_varint_loop sz result (cur # rest) =
     (if 32 \<le> sz * 7 then Undefined_shift
      else
        let shifted = push_bit (sz * 7) (ucast (cur AND 0x7f) :: 32 word);
            result' = result OR scast shifted
        in if cur AND 0x80 = 0 then Parsed result' rest
           else parse_varint_loop (Suc sz) result' rest)"

definition parse_varint :: "bytes \<Rightarrow> 'a::len word parsed" where
  "parse_varint input = parse_varint_loop 0 0 input"

section \<open>The encoder\<close>

lemma append_varint_acc: "append_varint v out = out @ append_varint v []"
proof (induction v arbitrary: out rule: measure_induct_rule [of unat])
  case (less v)
  show ?case
  proof (cases "drop_bit 7 v = 0")
    case True
    then show ?thesis by (simp add: append_varint.simps [of v])
  next
    case False
    then have "unat (drop_bit 7 v) < unat v" by (intro drop_bit_less) auto
    note IH = less [OF this]
    let ?c = "ucast (v AND 0x7f) OR 0x80 :: u8"
    have "append_varint (drop_bit 7 v) (out @ [?c]) = out @ append_varint (drop_bit 7 v) [?c]"
      using IH [of "out @ [?c]"] IH [of "[?c]"] by simp
    with False show ?thesis by (simp add: append_varint.simps [of v])
  qed
qed

lemma mask7: "(0x7f :: 'a::len word) = mask 7"
  by (simp add: mask_eq_exp_minus_1)

lemma append_varint_last:
  assumes "drop_bit 7 v = 0"
  shows "append_varint v [] = [ucast v]"
proof -
  have "v AND 0x7f = v"
    using word_split_low [of v 7] assms by (simp add: mask7 take_bit_eq_mask)
  with assms show ?thesis by (simp add: append_varint.simps [of v])
qed

lemma append_varint_more:
  "drop_bit 7 v \<noteq> 0 \<Longrightarrow>
   append_varint v [] = (ucast (v AND 0x7f) OR 0x80) # append_varint (drop_bit 7 v) []"
  using append_varint_acc [of "drop_bit 7 v" "[ucast (v AND 0x7f) OR 0x80]"]
  by (simp add: append_varint.simps [of v])

text \<open>The number of bytes is the number of seven-bit groups.\<close>

lemma unat_drop7: "unat (drop_bit 7 v) = unat v div 128"
  unfolding unat_drop_bit_eq by (simp add: drop_bit_eq_div)

lemma drop7_eq_0_iff: "drop_bit 7 v = 0 \<longleftrightarrow> unat v < 128"
  for v :: "'a::len word"
proof -
  have "drop_bit 7 v = 0 \<longleftrightarrow> unat (drop_bit 7 v) = 0" by (simp add: unat_eq_0)
  then show ?thesis by (simp add: unat_drop7 div_eq_0_iff)
qed

lemma length_append_varint_le_iff:
  "length (append_varint v []) \<le> Suc n \<longleftrightarrow> unat v < 128 ^ Suc n"
proof (induction n arbitrary: v)
  case 0
  show ?case
  proof (cases "drop_bit 7 v = 0")
    case False
    have "append_varint (drop_bit 7 v) [] \<noteq> []"
      by (cases "drop_bit 7 (drop_bit 7 v) = 0")
        (auto simp: append_varint_last append_varint_more simp del: drop_bit_drop_bit)
    with False show ?thesis by (simp add: append_varint_more drop7_eq_0_iff)
  qed (simp add: append_varint_last drop7_eq_0_iff)
next
  case (Suc n)
  show ?case
  proof (cases "drop_bit 7 v = 0")
    case False
    have "unat v div 128 < 128 ^ Suc n \<longleftrightarrow> unat v < 128 ^ Suc (Suc n)"
      by (simp add: div_less_iff_less_mult mult.commute)
    with False Suc.IH [of "drop_bit 7 v"] show ?thesis
      by (simp add: append_varint_more unat_drop7)
  next
    case True
    have "(128::nat) ^ 1 \<le> 128 ^ Suc (Suc n)" by (rule power_increasing) simp_all
    with True have "unat v < 128 ^ Suc (Suc n)"
      unfolding drop7_eq_0_iff by (elim less_le_trans) simp
    with True show ?thesis by (simp add: append_varint_last)
  qed
qed

section \<open>The decoder on encoded input\<close>

lemma and_80_eq_0_iff: "b AND 0x80 = 0 \<longleftrightarrow> \<not> bit b 7" for b :: u8
proof
  assume "b AND 0x80 = 0"
  then have "\<not> bit (b AND 0x80) 7" by simp
  then show "\<not> bit b 7" by (simp add: word_bit_simps)
next
  assume "\<not> bit b 7"
  then show "b AND 0x80 = 0" by (auto intro!: bit_word_eqI simp: word_bit_simps)
qed

lemma cont_byte_bits:
  fixes v :: "'a::len word"
  shows "(ucast (v AND 0x7f) OR 0x80 :: u8) AND 0x80 \<noteq> 0"
    and "(ucast (v AND 0x7f) OR 0x80 :: u8) AND 0x7f = ucast (v AND 0x7f)"
proof -
  show "(ucast (v AND 0x7f) OR 0x80 :: u8) AND 0x80 \<noteq> 0"
    by (simp add: and_80_eq_0_iff word_bit_simps)
  show "(ucast (v AND 0x7f) OR 0x80 :: u8) AND 0x7f = ucast (v AND 0x7f)"
    unfolding mask7 by (rule bit_word_eqI) (auto simp: word_bit_simps)
qed

lemma last_byte_bits:
  fixes v :: "'a::len word"
  assumes "drop_bit 7 v = 0"
  shows "(ucast v :: u8) AND 0x80 = 0"
    and "(ucast v :: u8) AND 0x7f = ucast v"
proof -
  have v: "v = take_bit 7 v" using word_split_low [of v 7] assms by simp
  show "(ucast v :: u8) AND 0x80 = 0"
    by (subst v) (simp add: and_80_eq_0_iff word_bit_simps)
  show "(ucast v :: u8) AND 0x7f = ucast v"
    unfolding mask7 by (subst (2) v) (auto intro!: bit_word_eqI simp: word_bit_simps)
qed

lemma ucast_group:
  fixes v :: "'a::len word"
  shows "(ucast v :: 32 word) =
    ucast (ucast (v AND 0x7f) :: u8) OR push_bit 7 (ucast (drop_bit 7 v))"
proof (rule bit_word_eqI)
  fix k assume k: "k < LENGTH(32)"
  show "bit (ucast v :: 32 word) k =
    bit (ucast (ucast (v AND 0x7f) :: u8) OR push_bit 7 (ucast (drop_bit 7 v)) :: 32 word) k"
    using k bit_imp_le_length [of v k]
    unfolding mask7 by (cases "k < 7") (auto simp: word_bit_simps)
qed

lemma parse_append_loop:
  fixes v acc :: "'a::len word"
  assumes "n + length (append_varint v []) \<le> 5"
  shows "parse_varint_loop n acc (append_varint v [] @ rest) =
    Parsed (acc OR scast (push_bit (n * 7) (ucast v :: 32 word))) rest"
  using assms
proof (induction v arbitrary: n acc rule: measure_induct_rule [of unat])
  case (less v)
  show ?case
  proof (cases "drop_bit 7 v = 0")
    case True
    with less.prems have "n * 7 < 32" by (simp add: append_varint_last)
    moreover have "(ucast (ucast v :: u8) :: 32 word) = ucast v"
      using ucast_group [of v] word_split_low [of v 7] True
      by (simp add: mask7 take_bit_eq_mask)
    ultimately show ?thesis using True
      by (simp add: append_varint_last last_byte_bits Let_def)
  next
    case False
    then have sm: "unat (drop_bit 7 v) < unat v" by (intro drop_bit_less) auto
    have len: "Suc n + length (append_varint (drop_bit 7 v) []) \<le> 5"
      using less.prems False by (simp add: append_varint_more)
    have "n * 7 < 32" using len by simp
    moreover have "push_bit (n * 7) (ucast v :: 32 word) =
      push_bit (n * 7) (ucast (ucast (v AND 0x7f) :: u8)) OR
      push_bit (Suc n * 7) (ucast (drop_bit 7 v))"
      by (subst ucast_group) (simp add: push_bit_or add.commute)
    ultimately show ?thesis
      using False less.IH [OF sm len]
      by (simp add: append_varint_more cont_byte_bits scast_or or.assoc Let_def)
  qed
qed

lemma parse_append_loop_undefined:
  assumes "5 < n + length (append_varint v [])" and "n \<le> 5"
  shows "parse_varint_loop n acc (append_varint v [] @ rest) = Undefined_shift"
  using assms
proof (induction v arbitrary: n acc rule: measure_induct_rule [of unat])
  case (less v)
  show ?case
  proof (cases "drop_bit 7 v = 0")
    case True
    with less.prems show ?thesis by (simp add: append_varint_last)
  next
    case False
    then have sm: "unat (drop_bit 7 v) < unat v" by (intro drop_bit_less) auto
    show ?thesis
    proof (cases "n = 5")
      case True
      with False show ?thesis by (simp add: append_varint_more)
    next
      case n: False
      with less.prems have "5 < Suc n + length (append_varint (drop_bit 7 v) [])" "Suc n \<le> 5"
        using False by (simp_all add: append_varint_more)
      from less.IH [OF sm this] False n less.prems show ?thesis
        by (simp add: append_varint_more cont_byte_bits Let_def)
    qed
  qed
qed

section \<open>Round trips\<close>

lemma parse_append:
  fixes v :: "'a::len word"
  shows "(parse_varint (append_varint v [] @ rest) :: 'a word parsed) =
    (if unat v < 2 ^ 35 then Parsed (scast (ucast v :: 32 word)) rest else Undefined_shift)"
proof -
  have "length (append_varint v []) \<le> 5 \<longleftrightarrow> unat v < 2 ^ 35"
    using length_append_varint_le_iff [of v 4] by simp
  then show ?thesis
    using parse_append_loop [of 0 v 0 rest] parse_append_loop_undefined [of 0 v 0 rest]
    by (auto simp: parse_varint_def not_le)
qed

lemma scast_ucast_narrow:
  fixes v :: "'a::len word"
  assumes "LENGTH('a) \<le> 32"
  shows "scast (ucast v :: 32 word) = v"
proof (rule bit_word_eqI)
  fix k assume k: "k < LENGTH('a)"
  then have "min k 31 = k" using assms by simp
  with k assms show "bit (scast (ucast v :: 32 word) :: 'a word) k = bit v k"
    by (simp add: word_bit_simps)
qed

lemma scast_ucast_u64_iff:
  fixes v :: u64
  assumes "unat v < 2 ^ 35"
  shows "scast (ucast v :: 32 word) = v \<longleftrightarrow> unat v < 2 ^ 31"
proof
  assume eq: "scast (ucast v :: 32 word) = v"
  have bits: "bit v k \<longleftrightarrow> bit v 31" if "31 \<le> k" "k < 64" for k
    by (subst eq [symmetric]) (use that in \<open>simp add: word_bit_simps\<close>)
  have "\<not> bit v 63" using assms unfolding unat_less_pow_iff by simp
  with bits [of 63] have "\<not> bit v 31" by simp
  with bits have "\<not> bit v k" if "31 \<le> k" for k
    using that bit_imp_le_length [of v k] by (cases "k < 64") auto
  then show "unat v < 2 ^ 31" unfolding unat_less_pow_iff by blast
next
  assume "unat v < 2 ^ 31"
  then have hi: "\<not> bit v k" if "31 \<le> k" for k
    using that unfolding unat_less_pow_iff by blast
  show "scast (ucast v :: 32 word) = v"
  proof (rule bit_word_eqI)
    fix k assume "k < LENGTH(64)"
    then show "bit (scast (ucast v :: 32 word) :: 64 word) k = bit v k"
      by (cases "k < 31") (auto simp: word_bit_simps hi min_def)
  qed
qed

text \<open>C9. For an unsigned type of at most 32 bits, appending a value and parsing the buffer
  gives the value back and leaves exactly what followed it, for every value.\<close>

theorem varint_roundtrip_u32:
  fixes v :: "'a::len word"
  assumes "LENGTH('a) \<le> 32"
  shows "parse_varint (append_varint v [] @ rest) = Parsed v rest"
proof -
  have "unat v < 2 ^ LENGTH('a)" by (rule unsigned_less)
  also have "(2::nat) ^ LENGTH('a) \<le> 2 ^ 35" using assms by (intro power_increasing) auto
  finally show ?thesis using assms by (simp add: parse_append scast_ucast_narrow)
qed

theorem varint_roundtrip_u32_witness:
  "LENGTH(32) \<le> 32 \<and> parse_varint (append_varint (270 :: u32) [] @ [7]) = Parsed (270 :: u32) [7]"
  using varint_roundtrip_u32 [of "270 :: u32" "[7]"] by simp

text \<open>C10. For 64-bit values the round trip holds exactly below \<open>2 ^ 31\<close>: from there on the
  decoder's 32-bit shift loses or sign-extends the upper groups, and from \<open>2 ^ 35\<close> on it has
  no defined result.\<close>

theorem varint_roundtrip_u64_iff:
  "parse_varint (append_varint (v :: u64) [] @ rest) = Parsed v rest \<longleftrightarrow> unat v < 2 ^ 31"
  using scast_ucast_u64_iff [of v] by (auto simp: parse_append)

text \<open>Signed types: non-negative values are coded as the unsigned encoder codes them, a
  negative value makes the loop run for ever.\<close>

lemma append_varint_signed_nonneg:
  fixes v :: "'a::len word"
  assumes "0 \<le> sint v"
  shows "append_varint_signed v out = Some (append_varint v out)"
  using assms
proof (induction v arbitrary: out rule: measure_induct_rule [of unat])
  case (less v)
  have msb: "\<not> bit v (LENGTH('a) - 1)"
    using less.prems by (simp add: bit_last_iff)
  have sh: "signed_drop_bit 7 v = drop_bit 7 v"
  proof (rule bit_word_eqI)
    fix k assume "k < LENGTH('a)"
    then show "bit (signed_drop_bit 7 v) k = bit (drop_bit 7 v) k"
      using msb bit_imp_le_length [of v "7 + k"]
      by (auto simp: bit_signed_drop_bit_iff word_bit_simps)
  qed
  have nn: "0 \<le> sint (drop_bit 7 v)"
    using msb bit_imp_le_length [of v "7 + (LENGTH('a) - 1)"]
    by (auto simp: bit_last_iff [symmetric] word_bit_simps not_less [symmetric])
  show ?case
  proof (cases "drop_bit 7 v = 0")
    case True
    then show ?thesis
      by (simp add: append_varint_signed.simps [of v] append_varint.simps [of v] sh)
  next
    case False
    then have "unat (drop_bit 7 v) < unat v" by (intro drop_bit_less) auto
    from less.IH [OF this nn] False show ?thesis
      by (simp add: append_varint_signed.simps [of v] append_varint.simps [of v] sh)
  qed
qed

lemma append_varint_signed_neg:
  fixes v :: "'a::len word"
  assumes "sint v < 0"
  shows "append_varint_signed v out = None"
proof -
  have "append_varint_signed v out = Some r \<Longrightarrow> 0 \<le> sint v" for r
  proof (rule append_varint_signed.raw_induct [where P = "\<lambda>v out r. 0 \<le> sint v"])
    fix f :: "'a word \<Rightarrow> bytes \<Rightarrow> bytes option" and v out r
    assume IH: "\<And>v out r. f v out = Some r \<Longrightarrow> 0 \<le> sint v"
      and eq: "(let cur = ucast (v AND 0x7f); value' = signed_drop_bit 7 v
        in if value' = 0 then Some (out @ [cur]) else f value' (out @ [cur OR 0x80])) = Some r"
    from eq IH have "0 \<le> sint (signed_drop_bit 7 v)"
      by (auto simp: Let_def split: if_splits)
    then show "0 \<le> sint v" by (simp add: sint_signed_drop_bit_eq)
  qed
  with assms show ?thesis by (cases "append_varint_signed v out") auto
qed

text \<open>C11. The encoder on a signed type returns exactly for the non-negative values, and then
  writes what the unsigned encoder writes.\<close>

theorem append_varint_signed_spec:
  "append_varint_signed v out = (if 0 \<le> sint v then Some (append_varint v out) else None)"
  using append_varint_signed_nonneg [of v out] append_varint_signed_neg [of v out] by auto

end
