(* ===== verification/Consume_Int.thy ===== *)
theory Consume_Int
  imports Trunk_Prelude
begin

text \<open>
  \<^verbatim>\<open>util/strings.cc\<close>: reading an optional minus sign and the longest run of decimal digits
  from the front of a \<^verbatim>\<open>string_view\<close>. The template \<^verbatim>\<open>consume_int<T>\<close> has two models, by
  what \<^verbatim>\<open>result = result * 10 + digit\<close> means for \<open>T\<close>: it wraps for the unsigned types and
  for the types narrower than \<^verbatim>\<open>int\<close> (the sum is an \<^verbatim>\<open>int\<close>, converted back to \<open>T\<close>), and it
  is undefined on overflow for \<^verbatim>\<open>int32_t\<close> and \<^verbatim>\<open>int64_t\<close>.
\<close>

section \<open>Definitions\<close>

definition is_digit :: "char \<Rightarrow> bool" where
  "is_digit c \<longleftrightarrow> 48 \<le> (of_char c :: nat) \<and> (of_char c :: nat) \<le> 57"

definition digit_value :: "char \<Rightarrow> nat" where
  "digit_value c = of_char c - 48"

text \<open>The sign: \<^verbatim>\<open>if (!in.empty() && in.front() == '-')\<close>.\<close>

fun consume_minus :: "string \<Rightarrow> bool \<times> string" where
  "consume_minus (c # cs) = (if c = CHR ''-'' then (True, cs) else (False, c # cs))"
| "consume_minus [] = (False, [])"

fun consume_digits :: "'a::len word \<Rightarrow> string \<Rightarrow> 'a word \<times> string" where
  "consume_digits result [] = (result, [])"
| "consume_digits result (c # cs) =
     (if is_digit c then consume_digits (result * 10 + of_nat (digit_value c)) cs
      else (result, c # cs))"

definition consume_int_wrapping :: "string \<Rightarrow> 'a::len word \<times> string" where
  "consume_int_wrapping input =
     (let (negate, rest) = consume_minus input;
          (result, rest') = consume_digits 0 rest
      in (if \<not> negate then result else - result, rest'))"

text \<open>For a signed type of \<open>w\<close> bits that is not narrower than \<^verbatim>\<open>int\<close>, the product and the sum
  must both be representable.\<close>

fun consume_digits_signed :: "nat \<Rightarrow> int \<Rightarrow> string \<Rightarrow> (int \<times> string) option" where
  "consume_digits_signed w result [] = Some (result, [])"
| "consume_digits_signed w result (c # cs) =
     (if is_digit c then
        if result * 10 \<ge> 2 ^ (w - 1) \<or> result * 10 + int (digit_value c) \<ge> 2 ^ (w - 1) then None
        else consume_digits_signed w (result * 10 + int (digit_value c)) cs
      else Some (result, c # cs))"

definition consume_int_signed :: "nat \<Rightarrow> string \<Rightarrow> (int \<times> string) option" where
  "consume_int_signed w input =
     (let (negate, rest) = consume_minus input
      in map_option (\<lambda>(result, rest'). (if \<not> negate then result else - result, rest'))
           (consume_digits_signed w 0 rest))"

definition consume_int8 :: "string \<Rightarrow> int \<times> string" where
  "consume_int8 input = (let (r, rest) = consume_int_wrapping input in (sint (r :: 8 word), rest))"

definition consume_uint8 :: "string \<Rightarrow> u8 \<times> string" where
  "consume_uint8 input = consume_int_wrapping input"

definition consume_int16 :: "string \<Rightarrow> int \<times> string" where
  "consume_int16 input = (let (r, rest) = consume_int_wrapping input in (sint (r :: 16 word), rest))"

definition consume_uint16 :: "string \<Rightarrow> u16 \<times> string" where
  "consume_uint16 input = consume_int_wrapping input"

definition consume_int32 :: "string \<Rightarrow> (int \<times> string) option" where
  "consume_int32 input = consume_int_signed 32 input"

definition consume_uint32 :: "string \<Rightarrow> u32 \<times> string" where
  "consume_uint32 input = consume_int_wrapping input"

definition consume_int64 :: "string \<Rightarrow> (int \<times> string) option" where
  "consume_int64 input = consume_int_signed 64 input"

definition consume_uint64 :: "string \<Rightarrow> u64 \<times> string" where
  "consume_uint64 input = consume_int_wrapping input"

section \<open>The number a run of digits denotes\<close>

definition decimal_value :: "string \<Rightarrow> nat" where
  "decimal_value ds = foldl (\<lambda>n c. 10 * n + digit_value c) 0 ds"

definition digits_end :: "string \<Rightarrow> bool" where
  "digits_end rest \<longleftrightarrow> rest = [] \<or> \<not> is_digit (hd rest)"

lemma decimal_value_snoc: "decimal_value (ds @ [c]) = 10 * decimal_value ds + digit_value c"
  by (simp add: decimal_value_def)

lemma minus_not_digit [simp]: "\<not> is_digit (CHR ''-'')"
  by (simp add: is_digit_def)

lemma consume_minus_digits:
  assumes "list_all is_digit ds" and "ds \<noteq> []"
  shows "consume_minus (ds @ rest) = (False, ds @ rest)"
  using assms by (cases ds) auto

lemma consume_digits_append:
  "list_all is_digit ds \<Longrightarrow>
   consume_digits result (ds @ rest) =
   consume_digits (foldl (\<lambda>r c. r * 10 + of_nat (digit_value c)) result ds) rest"
  by (induction ds arbitrary: result) auto

lemma foldl_word_decimal:
  "foldl (\<lambda>r c. r * 10 + of_nat (digit_value c)) (of_nat n :: 'a::len word) ds =
   of_nat (foldl (\<lambda>n c. 10 * n + digit_value c) n ds)"
proof (induction ds arbitrary: n)
  case (Cons c ds)
  have "(of_nat n * 10 + of_nat (digit_value c) :: 'a word) = of_nat (10 * n + digit_value c)"
    by simp
  with Cons show ?case by (simp del: of_nat_add of_nat_mult)
qed simp

lemma consume_digits_end: "digits_end rest \<Longrightarrow> consume_digits result rest = (result, rest)"
  by (cases rest) (auto simp: digits_end_def)

lemma consume_digits_value:
  assumes "list_all is_digit ds" and "digits_end rest"
  shows "consume_digits 0 (ds @ rest) = (of_nat (decimal_value ds), rest)"
  using foldl_word_decimal [of 0 ds] assms
  by (simp add: consume_digits_append consume_digits_end decimal_value_def)

lemma consume_int_wrapping_digits:
  assumes "list_all is_digit ds" and "ds \<noteq> []" and "digits_end rest"
  shows "consume_int_wrapping (ds @ rest) = (of_nat (decimal_value ds), rest)"
  using assms by (simp add: consume_int_wrapping_def consume_minus_digits consume_digits_value)

lemma consume_int_wrapping_minus:
  assumes "list_all is_digit ds" and "digits_end rest"
  shows "consume_int_wrapping (CHR ''-'' # ds @ rest) = (- of_nat (decimal_value ds), rest)"
  using assms by (simp add: consume_int_wrapping_def consume_digits_value)

lemma foldl_decimal_mono: "n \<le> foldl (\<lambda>n c. 10 * n + digit_value c) n ds"
proof (induction ds arbitrary: n)
  case (Cons c ds)
  then have "10 * n + digit_value c \<le> foldl (\<lambda>n c. 10 * n + digit_value c) n (c # ds)"
    by simp
  then show ?case by linarith
qed simp

lemma consume_digits_signed_value:
  assumes "list_all is_digit ds" and "digits_end rest" and "n < 2 ^ (w - 1)"
  shows "consume_digits_signed w (int n) (ds @ rest) =
    (let v = foldl (\<lambda>n c. 10 * n + digit_value c) n ds
     in if v < 2 ^ (w - 1) then Some (int v, rest) else None)"
  using assms(1,3)
proof (induction ds arbitrary: n)
  case Nil
  then show ?case using assms(2) by (cases rest) (auto simp: digits_end_def)
next
  case (Cons c ds)
  let ?n = "10 * n + digit_value c"
  have conv: "int n * 10 + int (digit_value c) = int ?n" by simp
  have big: "int ?n \<ge> 2 ^ (w - 1) \<longleftrightarrow> ?n \<ge> 2 ^ (w - 1)"
    by (metis of_nat_le_iff of_nat_numeral of_nat_power)
  show ?case
  proof (cases "?n < 2 ^ (w - 1)")
    case True
    moreover from True have "\<not> int n * 10 \<ge> 2 ^ (w - 1)"
      using big by linarith
    ultimately show ?thesis
      using Cons.IH [of ?n] Cons.prems big conv by (simp only: append_Cons consume_digits_signed.simps) simp
  next
    case False
    with foldl_decimal_mono [of ?n ds] have "\<not> foldl (\<lambda>n c. 10 * n + digit_value c) ?n ds < 2 ^ (w - 1)"
      by linarith
    with False Cons.prems big conv show ?thesis by (simp add: Let_def)
  qed
qed

text \<open>\<^verbatim>\<open>consume_uint16\<close>, which reads the port numbers of the address parsers, takes the
  longest run of digits and returns its value modulo \<open>2 ^ 16\<close>; after a minus sign it returns
  the negated value, again modulo \<open>2 ^ 16\<close>. Nothing is reported for a value out of range.\<close>

theorem consume_uint16_spec:
  assumes "list_all is_digit ds" and "ds \<noteq> []" and "digits_end rest"
  shows "consume_uint16 (ds @ rest) = (of_nat (decimal_value ds), rest) \<and>
    consume_uint16 (CHR ''-'' # ds @ rest) = (- of_nat (decimal_value ds), rest)"
  using assms by (simp add: consume_uint16_def consume_int_wrapping_digits consume_int_wrapping_minus)

theorem consume_uint16_spec_witness:
  "consume_uint16 ''123456x'' = (57920, ''x'') \<and> consume_uint16 ''-1'' = (65535, [])"
  using consume_uint16_spec [of "''123456''" "''x''"] consume_uint16_spec [of "''1''" "[]"]
  by (simp add: is_digit_def digits_end_def decimal_value_def digit_value_def)

text \<open>\<^verbatim>\<open>consume_int32\<close> returns the exact value of the run of digits when it fits in 31
  bits, negated after a minus sign, and has no defined result otherwise.\<close>

theorem consume_int32_spec:
  assumes "list_all is_digit ds" and "ds \<noteq> []" and "digits_end rest"
    and "sign = [] \<or> sign = ''-''"
  shows "consume_int32 (sign @ ds @ rest) =
    (if decimal_value ds < 2 ^ 31
     then Some ((if sign = [] then 1 else - 1) * int (decimal_value ds), rest) else None)"
  using assms consume_digits_signed_value [of ds rest 0 32]
  by (auto simp: consume_int32_def consume_int_signed_def consume_minus_digits decimal_value_def Let_def)

theorem consume_int32_spec_witness:
  "consume_int32 ''-123456abc'' = Some (- 123456, ''abc'') \<and> consume_int32 ''2147483648'' = None"
  using consume_int32_spec [of "''123456''" "''abc''" "''-''"] consume_int32_spec [of "''2147483648''" "[]" "[]"]
  by (simp add: is_digit_def digits_end_def decimal_value_def digit_value_def)

end
