(* ===== verification/Utf.thy ===== *)
theory Utf
  imports Trunk_Prelude
begin

text \<open>
  \<^verbatim>\<open>util/utf.h\<close> and \<^verbatim>\<open>util/utf.cc\<close>: conversion between UTF-16 code units and UTF-8 bytes.
  Each code unit is coded on its own, in one to three bytes. The two-pass functions write
  through a raw pointer into a string sized by \<^verbatim>\<open>utf16_to_utf8_size\<close> and \<^verbatim>\<open>utf8_length\<close>;
  the models return the units written, and the size lemmas say that they fill the string.
\<close>

section \<open>Definitions\<close>

fun utf16_to_utf8_size :: "u16 list \<Rightarrow> nat" where
  "utf16_to_utf8_size [] = 0"
| "utf16_to_utf8_size (c # input) =
     (if c \<le> 0x7f then 1 else if c \<le> 0x7ff then 2 else 3) + utf16_to_utf8_size input"

text \<open>The bytes one turn of the loop stores through \<^verbatim>\<open>*output++\<close>.\<close>

definition utf8_of_unit :: "u16 \<Rightarrow> bytes" where
  "utf8_of_unit c =
     (if c \<le> 0x7f then [ucast c]
      else if c \<le> 0x7ff then
        [ucast (drop_bit 6 c OR 0xc0), ucast ((c AND 0x3f) OR 0x80)]
      else
        [ucast (drop_bit 12 c OR 0xe0),
         ucast ((drop_bit 6 c AND 0x3f) OR 0x80),
         ucast ((c AND 0x3f) OR 0x80)])"

fun utf16_to_utf8_write :: "u16 list \<Rightarrow> bytes" where
  "utf16_to_utf8_write [] = []"
| "utf16_to_utf8_write (c # input) = utf8_of_unit c @ utf16_to_utf8_write input"

text \<open>The inline wrapper: a string of \<^verbatim>\<open>utf16_to_utf8_size(input)\<close> zero bytes, filled from the
  front.\<close>

definition utf16_to_utf8 :: "u16 list \<Rightarrow> bytes" where
  "utf16_to_utf8 input =
     overwrite 0 (utf16_to_utf8_write input) (replicate (utf16_to_utf8_size input) 0)"

text \<open>The number of bytes the decoder takes for a leading byte: \<^verbatim>\<open>(c & 0xc0) != 0xc0\<close> and so
  on.\<close>

definition utf8_width :: "u8 \<Rightarrow> nat" where
  "utf8_width c =
     (if c AND 0xc0 \<noteq> 0xc0 then 1
      else if c AND 0xe0 \<noteq> 0xe0 then 2
      else if c AND 0xf0 \<noteq> 0xf0 then 3
      else 4)"

fun utf8_length :: "bytes \<Rightarrow> nat" where
  "utf8_length [] = 0"
| "utf8_length (c # input) =
     (if length (c # input) < utf8_width c then 0
      else Suc (utf8_length (drop (utf8_width c - 1) input)))"

text \<open>The unit one turn of the decoder's loop stores, from the bytes at the front.\<close>

definition unit_of_utf8 :: "bytes \<Rightarrow> u16" where
  "unit_of_utf8 input =
     (let c = input ! 0
      in if utf8_width c = 1 then ucast (c AND 0x7f)
         else if utf8_width c = 2 then
           push_bit 6 (ucast (c AND 0x3f)) OR ucast (input ! 1 AND 0x3f)
         else if utf8_width c = 3 then
           push_bit 12 (ucast (c AND 0x1f)) OR push_bit 6 (ucast (input ! 1 AND 0x3f))
             OR ucast (input ! 2 AND 0x3f)
         else 0xfffd)"

fun utf8_to_utf16_write :: "bytes \<Rightarrow> u16 list" where
  "utf8_to_utf16_write [] = []"
| "utf8_to_utf16_write (c # input) =
     (if length (c # input) < utf8_width c then []
      else unit_of_utf8 (c # input) # utf8_to_utf16_write (drop (utf8_width c - 1) input))"

definition utf8_to_utf16 :: "bytes \<Rightarrow> u16 list" where
  "utf8_to_utf16 input =
     overwrite 0 (utf8_to_utf16_write input) (replicate (utf8_length input) 0)"

section \<open>Sizes: the writers fill the string they are given\<close>

lemma utf8_width_bounds: "1 \<le> utf8_width c" "utf8_width c \<le> 4"
  by (simp_all add: utf8_width_def)

lemma length_utf8_of_unit:
  "length (utf8_of_unit c) = (if c \<le> 0x7f then 1 else if c \<le> 0x7ff then 2 else 3)"
  by (simp add: utf8_of_unit_def)

lemma length_utf16_to_utf8_write: "length (utf16_to_utf8_write input) = utf16_to_utf8_size input"
  by (induction input) (simp_all add: length_utf8_of_unit)

lemma length_utf8_to_utf16_write: "length (utf8_to_utf16_write input) = utf8_length input"
  by (induction input rule: utf8_to_utf16_write.induct) simp_all

lemma overwrite_replicate: "length xs = n \<Longrightarrow> overwrite 0 xs (replicate n a) = xs"
  by (simp add: overwrite_def)

lemma utf16_to_utf8_eq: "utf16_to_utf8 input = utf16_to_utf8_write input"
  by (simp add: utf16_to_utf8_def overwrite_replicate length_utf16_to_utf8_write)

lemma utf8_to_utf16_eq: "utf8_to_utf16 input = utf8_to_utf16_write input"
  by (simp add: utf8_to_utf16_def overwrite_replicate length_utf8_to_utf16_write)

section \<open>One code unit\<close>

lemma utf8_of_unit_nonempty: "utf8_of_unit c \<noteq> []"
  by (simp add: utf8_of_unit_def)

text \<open>There are \<open>2 ^ 16\<close> units; the facts about one unit are settled bit by bit.\<close>

lemma utf_masks:
  "(0x3f :: 'a::len word) = mask 6" "(0x1f :: 'a word) = mask 5" "(0x7f :: 'a word) = mask 7"
  "(0xc0 :: 'a word) = push_bit 6 (mask 2)" "(0xe0 :: 'a word) = push_bit 5 (mask 3)"
  "(0xf0 :: 'a word) = push_bit 4 (mask 4)" "(0x80 :: 'a word) = push_bit 7 (mask 1)"
  by (simp_all add: mask_eq_exp_minus_1 push_bit_eq_mult)

lemma and_c0_iff: "c AND 0xc0 = 0xc0 \<longleftrightarrow> bit c 6 \<and> bit c 7" for c :: u8
proof -
  have "(\<forall>k. 6 \<le> k \<and> k < 6 + 2 \<longrightarrow> bit c k) \<longleftrightarrow> bit c 6 \<and> bit c 7"
    by (auto simp: less_Suc_eq numeral_eq_Suc le_Suc_eq)
  then show ?thesis unfolding utf_masks by (simp add: and_field_eq_iff)
qed

lemma and_e0_iff: "c AND 0xe0 = 0xe0 \<longleftrightarrow> bit c 5 \<and> bit c 6 \<and> bit c 7" for c :: u8
proof -
  have "(\<forall>k. 5 \<le> k \<and> k < 5 + 3 \<longrightarrow> bit c k) \<longleftrightarrow> bit c 5 \<and> bit c 6 \<and> bit c 7"
    by (auto simp: less_Suc_eq numeral_eq_Suc le_Suc_eq)
  then show ?thesis unfolding utf_masks by (simp add: and_field_eq_iff)
qed

lemma and_f0_iff: "c AND 0xf0 = 0xf0 \<longleftrightarrow> bit c 4 \<and> bit c 5 \<and> bit c 6 \<and> bit c 7" for c :: u8
proof -
  have "(\<forall>k. 4 \<le> k \<and> k < 4 + 4 \<longrightarrow> bit c k) \<longleftrightarrow> bit c 4 \<and> bit c 5 \<and> bit c 6 \<and> bit c 7"
    by (auto simp: less_Suc_eq numeral_eq_Suc le_Suc_eq)
  then show ?thesis unfolding utf_masks by (simp add: and_field_eq_iff)
qed

lemma utf8_width_bits:
  "utf8_width c =
    (if \<not> (bit c 6 \<and> bit c 7) then 1 else if \<not> bit c 5 then 2 else if \<not> bit c 4 then 3 else 4)"
  by (simp add: utf8_width_def and_c0_iff and_e0_iff and_f0_iff)

lemma unit_le_iff:
  "c \<le> 0x7f \<longleftrightarrow> (\<forall>k \<ge> 7. \<not> bit c k)" "c \<le> 0x7ff \<longleftrightarrow> (\<forall>k \<ge> 11. \<not> bit c k)" for c :: u16
proof -
  have "c \<le> 0x7f \<longleftrightarrow> unat c < 2 ^ 7" "c \<le> 0x7ff \<longleftrightarrow> unat c < 2 ^ 11"
    by (auto simp: word_le_nat_alt)
  then show "c \<le> 0x7f \<longleftrightarrow> (\<forall>k \<ge> 7. \<not> bit c k)" "c \<le> 0x7ff \<longleftrightarrow> (\<forall>k \<ge> 11. \<not> bit c k)"
    by (simp_all only: unat_less_pow_iff)
qed

lemma utf8_of_unit_cases:
  obtains (one) "\<And>k. 7 \<le> k \<Longrightarrow> \<not> bit c k" "utf8_of_unit c = [ucast c]"
  | (two) "\<And>k. 11 \<le> k \<Longrightarrow> \<not> bit c k"
      "utf8_of_unit c =
        [ucast (drop_bit 6 c OR push_bit 6 (mask 2)), ucast ((c AND mask 6) OR push_bit 7 (mask 1))]"
  | (three) "utf8_of_unit c =
        [ucast (drop_bit 12 c OR push_bit 5 (mask 3)),
         ucast ((drop_bit 6 c AND mask 6) OR push_bit 7 (mask 1)),
         ucast ((c AND mask 6) OR push_bit 7 (mask 1))]"
proof (cases "c \<le> 0x7f")
  case True
  then show thesis by (intro one) (auto simp: unit_le_iff utf8_of_unit_def)
next
  case gt: False
  show thesis
  proof (cases "c \<le> 0x7ff")
    case True
    with gt show thesis
      by (intro two) (simp_all only: utf8_of_unit_def if_True if_False utf_masks, auto simp: unit_le_iff)
  next
    case False
    with gt show thesis
      by (intro three) (simp only: utf8_of_unit_def if_False utf_masks)
  qed
qed

lemma width_unit: "utf8_width (utf8_of_unit c ! 0) = length (utf8_of_unit c)"
  using bit_imp_le_length [of c 16]
  by (cases rule: utf8_of_unit_cases [of c]) (auto simp: utf8_width_bits word_bit_simps)

lemma unit_of_utf8_bits:
  "unit_of_utf8 input =
     (if utf8_width (input ! 0) = 1 then ucast (input ! 0 AND mask 7)
      else if utf8_width (input ! 0) = 2 then
        push_bit 6 (ucast (input ! 0 AND mask 6)) OR ucast (input ! 1 AND mask 6)
      else if utf8_width (input ! 0) = 3 then
        push_bit 12 (ucast (input ! 0 AND mask 5)) OR push_bit 6 (ucast (input ! 1 AND mask 6))
          OR ucast (input ! 2 AND mask 6)
      else 0xfffd)"
  unfolding unit_of_utf8_def Let_def utf_masks ..

lemma decode_unit: "unit_of_utf8 (utf8_of_unit c @ rest) = c"
proof -
  have w: "utf8_width ((utf8_of_unit c @ rest) ! 0) = length (utf8_of_unit c)"
    using width_unit [of c] utf8_of_unit_nonempty [of c] by (simp add: nth_append)
  show ?thesis
  proof (cases rule: utf8_of_unit_cases [of c])
    case one
    show ?thesis
    proof (intro bit_word_eqI)
      fix k assume "k < LENGTH(16)"
      then show "bit (unit_of_utf8 (utf8_of_unit c @ rest)) k = bit c k"
        using w one by (cases "k < 7") (auto simp: unit_of_utf8_bits word_bit_simps)
    qed
  next
    case two
    show ?thesis
    proof (intro bit_word_eqI)
      fix k assume "k < LENGTH(16)"
      then show "bit (unit_of_utf8 (utf8_of_unit c @ rest)) k = bit c k"
        using w two by (cases "k < 6"; cases "k < 11") (auto simp: unit_of_utf8_bits word_bit_simps)
    qed
  next
    case three
    show ?thesis
    proof (intro bit_word_eqI)
      fix k assume "k < LENGTH(16)"
      then show "bit (unit_of_utf8 (utf8_of_unit c @ rest)) k = bit c k"
        using w three by (cases "k < 6"; cases "k < 12") (auto simp: unit_of_utf8_bits word_bit_simps)
    qed
  qed
qed

section \<open>Round trip\<close>

lemma utf8_write_step:
  "utf8_to_utf16_write (utf8_of_unit c @ rest) = c # utf8_to_utf16_write rest"
proof -
  obtain b bs where b: "utf8_of_unit c = b # bs" using utf8_of_unit_nonempty by (cases "utf8_of_unit c") auto
  then have w: "utf8_width b = Suc (length bs)" using width_unit [of c] by simp
  have d: "unit_of_utf8 (b # bs @ rest) = c" using decode_unit [of c rest] b by simp
  show ?thesis by (simp add: b w d)
qed

text \<open>C13. Converting UTF-16 to UTF-8 and back gives the input, for every sequence of code
  units, and both conversions write exactly as many units as the string they fill has.\<close>

theorem utf_roundtrip:
  "utf8_to_utf16 (utf16_to_utf8 s) = s \<and>
   length (utf16_to_utf8_write s) = utf16_to_utf8_size s \<and>
   length (utf8_to_utf16_write t) = utf8_length t"
proof -
  have "utf8_to_utf16_write (utf16_to_utf8_write s) = s"
    by (induction s) (simp_all add: utf8_write_step)
  then show ?thesis
    by (simp add: utf16_to_utf8_eq utf8_to_utf16_eq length_utf16_to_utf8_write
        length_utf8_to_utf16_write)
qed

end
