(* ===== verification/Rope.thy ===== *)
theory Rope
  imports Trunk_Prelude
begin

text \<open>
  \<^verbatim>\<open>util/rope.h\<close> and \<^verbatim>\<open>util/rope.cc\<close>: a text buffer as a binary tree of 4096-byte pieces,
  ordered by position, with random priorities that the rotations are meant to keep in heap
  order. Ownership is linear (\<^verbatim>\<open>std::unique_ptr\<close>), so a tree is a value. Sizes and indices
  are natural numbers: they count bytes in memory and stay far below \<open>2 ^ 64\<close>.

  The generator \<^verbatim>\<open>gen_\<close> is a parameter: \<open>uniform\<close> draws a priority and returns the next
  generator state. \<open>None\<close> is a call without a defined result: it dereferences a null
  pointer, leaves a buffer's bounds, or recurses for ever.
\<close>

named_theorems rope_simps "the tree operations and the text they hold"

section \<open>Data\<close>

definition buffer_size :: nat where
  "buffer_size = 4096"

text \<open>\<^verbatim>\<open>struct Rep\<close>, with \<^verbatim>\<open>size\<close> as \<open>bsize\<close>; the two children are in the tree type.\<close>

record rope_node =
  lsize :: nat
  bsize :: nat
  priority :: u32
  buffer :: bytes

datatype rep = Null | Rep (lchild: rep) (node: rope_node) (rchild: rep)

text \<open>\<^verbatim>\<open>std::make_unique<Rep>()\<close> zero-initialises; the priority is drawn right after.\<close>

definition new_node :: "u32 \<Rightarrow> rope_node" where
  "new_node p = \<lparr>lsize = 0, bsize = 0, priority = p, buffer = replicate buffer_size 0\<rparr>"

section \<open>Rotations and balancing\<close>

fun rotate_left :: "rep \<Rightarrow> rep" where
  "rotate_left (Rep l n (Rep pl pn pr)) =
     Rep (Rep l n pl) (pn\<lparr>lsize := lsize pn + (lsize n + bsize n)\<rparr>) pr"
| "rotate_left t = t"

fun rotate_right :: "rep \<Rightarrow> rep" where
  "rotate_right (Rep (Rep pl pn pr) n r) =
     Rep pl pn (Rep pr (n\<lparr>lsize := lsize n - (lsize pn + bsize pn)\<rparr>) r)"
| "rotate_right t = t"

fun balance_left :: "rep \<Rightarrow> rep" where
  "balance_left Null = Null"
| "balance_left (Rep l n r) =
     (case balance_left l of
        Null \<Rightarrow> Rep l n r
      | Rep ll ln lr \<Rightarrow>
          if priority ln > priority n then rotate_right (Rep (Rep ll ln lr) n r)
          else Rep (Rep ll ln lr) n r)"

fun balance_right :: "rep \<Rightarrow> rep" where
  "balance_right Null = Null"
| "balance_right (Rep l n r) =
     (case balance_right r of
        Null \<Rightarrow> Rep l n r
      | Rep rl rn rr \<Rightarrow>
          if priority rn > priority n then rotate_left (Rep l n (Rep rl rn rr))
          else Rep l n (Rep rl rn rr))"

fun merge_rep :: "rep \<Rightarrow> rep \<Rightarrow> rep" where
  "merge_rep Null rrep = rrep"
| "merge_rep (Rep l n r) Null = Rep l n r"
| "merge_rep (Rep l n r) (Rep rl rn rr) =
     balance_right (Rep l n (merge_rep r (Rep rl rn rr)))"

section \<open>Insert\<close>

text \<open>The last lines of \<^verbatim>\<open>Rope::insert\<close>: \<^verbatim>\<open>memmove\<close> the bytes from \<open>index\<close> on, \<^verbatim>\<open>memcpy\<close> the new
  ones, and count them. Both writes must stay inside the buffer.\<close>

definition node_put :: "rope_node \<Rightarrow> nat \<Rightarrow> bytes \<Rightarrow> rope_node option" where
  "node_put n index buf =
     (if index + length buf + (bsize n - index) > buffer_size then None
      else
        let moved = overwrite (index + length buf)
              (take (bsize n - index) (drop index (buffer n))) (buffer n)
        in Some (n\<lparr>buffer := overwrite index buf moved, bsize := bsize n + length buf\<rparr>))"

partial_function (option) insert_rep ::
  "('g \<Rightarrow> u32 \<times> 'g) \<Rightarrow> 'g \<Rightarrow> rep \<Rightarrow> nat \<Rightarrow> bytes \<Rightarrow> (rep \<times> 'g) option" where
  "insert_rep uniform gen rep index buf =
     (case rep of
        Null \<Rightarrow> (case uniform gen of (p, gen') \<Rightarrow>
          insert_rep uniform gen' (Rep Null (new_node p) Null) index buf)
      | Rep l n r \<Rightarrow>
          if index < lsize n then
            Option.bind (insert_rep uniform gen l index buf) (\<lambda>(l', gen').
              Some (balance_left (Rep l' (n\<lparr>lsize := lsize n + length buf\<rparr>) r), gen'))
          else
            let index = index - lsize n
            in if index > bsize n then
                 Option.bind (insert_rep uniform gen r (index - bsize n) buf) (\<lambda>(r', gen').
                   Some (balance_right (Rep l n r'), gen'))
               else if bsize n + length buf > buffer_size then
                 let new_rep_size = max buffer_size (index + length buf) - length buf;
                     tail = take (bsize n - new_rep_size) (drop new_rep_size (buffer n));
                     n' = n\<lparr>bsize := new_rep_size\<rparr>
                 in Option.bind (insert_rep uniform gen r 0 tail) (\<lambda>(r', gen').
                      if index + length buf > buffer_size then
                        let new_size = buffer_size - index
                        in Option.bind (insert_rep uniform gen' r' 0 (drop new_size buf))
                             (\<lambda>(r'', gen'').
                               Option.bind (node_put n' index (take new_size buf)) (\<lambda>n''.
                                 Some (balance_right (Rep l n'' r''), gen'')))
                      else
                        Option.bind (node_put n' index buf) (\<lambda>n''.
                          Some (balance_right (Rep l n'' r'), gen')))
               else
                 Option.bind (node_put n index buf) (\<lambda>n''.
                   Some (balance_right (Rep l n'' r), gen)))"

section \<open>Erase and copy\<close>

text \<open>The middle step of \<^verbatim>\<open>Rope::erase\<close>, on the node's own bytes: the new node, what remains of
  \<open>index\<close> and \<open>size\<close>, and whether it jumps to \<^verbatim>\<open>out\<close>.\<close>

definition erase_here :: "rope_node \<Rightarrow> nat \<Rightarrow> nat \<Rightarrow> rope_node \<times> nat \<times> nat \<times> bool" where
  "erase_here n index sz =
     (if index < bsize n then
        let erase_size = min sz (bsize n - index);
            kept = take (bsize n - (index + erase_size)) (drop (index + erase_size) (buffer n));
            n' = n\<lparr>buffer := overwrite index kept (buffer n), bsize := bsize n - erase_size\<rparr>
        in (n', 0, sz - erase_size, sz - erase_size = 0)
      else (n, index - bsize n, sz, False))"

text \<open>The label \<^verbatim>\<open>out\<close>: an emptied node is replaced by the merge of its children.\<close>

definition erase_out :: "rep \<Rightarrow> rope_node \<Rightarrow> rep \<Rightarrow> rep" where
  "erase_out l n r = (if bsize n = 0 then merge_rep l r else Rep l n r)"

fun erase_rep :: "rep \<Rightarrow> nat \<Rightarrow> nat \<Rightarrow> rep option" where
  "erase_rep Null index sz = None"
| "erase_rep (Rep l n r) index sz =
     (case (if index < lsize n then
              let erase_size = min sz (lsize n - index)
              in map_option
                   (\<lambda>l'. (l', n\<lparr>lsize := lsize n - erase_size\<rparr>, 0, sz - erase_size,
                          sz - erase_size = 0))
                   (erase_rep l index erase_size)
            else Some (l, n, index - lsize n, sz, False)) of
        None \<Rightarrow> None
      | Some (l', n', index', sz', stop) \<Rightarrow>
          if stop then Some (erase_out l' n' r)
          else
            (case erase_here n' index' sz' of (n'', index'', sz'', stop') \<Rightarrow>
               if stop' then Some (erase_out l' n'' r)
               else map_option (\<lambda>r'. erase_out l' n'' r') (erase_rep r index'' sz'')))"

text \<open>\<^verbatim>\<open>Rope::copy\<close>: the bytes written to \<^verbatim>\<open>dest\<close>, in order.\<close>

fun copy_rep :: "rep \<Rightarrow> nat \<Rightarrow> nat \<Rightarrow> bytes option" where
  "copy_rep Null index sz = None"
| "copy_rep (Rep l n r) index sz =
     (case (if index < lsize n then
              let get_size = min sz (lsize n - index)
              in map_option (\<lambda>out. (out, 0, sz - get_size, sz - get_size = 0))
                   (copy_rep l index get_size)
            else Some ([], index - lsize n, sz, False)) of
        None \<Rightarrow> None
      | Some (out, index', sz', stop) \<Rightarrow>
          if stop then Some out
          else
            (if index' < bsize n then
               let get_size = min sz' (bsize n - index');
                   out' = out @ take get_size (drop index' (buffer n))
               in if sz' - get_size = 0 then Some out'
                  else map_option (\<lambda>rest. out' @ rest) (copy_rep r 0 (sz' - get_size))
             else map_option (\<lambda>rest. out @ rest) (copy_rep r (index' - bsize n) sz')))"

section \<open>The class\<close>

record 'g rope =
  rope_rep :: rep
  rope_gen :: 'g

definition rope_insert :: "('g \<Rightarrow> u32 \<times> 'g) \<Rightarrow> 'g rope \<Rightarrow> nat \<Rightarrow> bytes \<Rightarrow> 'g rope option" where
  "rope_insert uniform s index str =
     map_option (\<lambda>(rep, gen). s\<lparr>rope_rep := rep, rope_gen := gen\<rparr>)
       (insert_rep uniform (rope_gen s) (rope_rep s) index str)"

definition rope_erase :: "'g rope \<Rightarrow> nat \<Rightarrow> nat \<Rightarrow> 'g rope option" where
  "rope_erase s index sz = map_option (\<lambda>rep. s\<lparr>rope_rep := rep\<rparr>) (erase_rep (rope_rep s) index sz)"

definition rope_copy :: "'g rope \<Rightarrow> nat \<Rightarrow> nat \<Rightarrow> bytes option" where
  "rope_copy s index sz = copy_rep (rope_rep s) index sz"

section \<open>The text of a tree and the invariant\<close>

definition node_text :: "rope_node \<Rightarrow> bytes" where
  "node_text n = take (bsize n) (buffer n)"

primrec text_of :: "rep \<Rightarrow> bytes" where
  "text_of Null = []"
| "text_of (Rep l n r) = text_of l @ node_text n @ text_of r"

definition node_ok :: "rope_node \<Rightarrow> bool" where
  "node_ok n \<longleftrightarrow> bsize n \<le> buffer_size \<and> length (buffer n) = buffer_size"

primrec rep_ok :: "rep \<Rightarrow> bool" where
  "rep_ok Null = True"
| "rep_ok (Rep l n r) \<longleftrightarrow> rep_ok l \<and> rep_ok r \<and> node_ok n \<and> lsize n = length (text_of l)"

lemma length_node_text [simp]: "node_ok n \<Longrightarrow> length (node_text n) = bsize n"
  by (simp add: node_text_def node_ok_def)

lemma node_text_upd [simp]: "node_text (n\<lparr>lsize := k\<rparr>) = node_text n"
  by (simp add: node_text_def)

lemma node_ok_upd [simp]: "node_ok (n\<lparr>lsize := k\<rparr>) = node_ok n"
  by (simp add: node_ok_def)

lemma new_node_simps [simp]:
  "node_ok (new_node p)" "node_text (new_node p) = []" "lsize (new_node p) = 0"
  "bsize (new_node p) = 0"
  by (simp_all add: new_node_def node_ok_def node_text_def)

section \<open>Rotations, balancing and merging keep the text\<close>

lemma rotate_left_text [rope_simps]: "text_of (rotate_left t) = text_of t"
  by (cases t rule: rotate_left.cases) auto

lemma rotate_left_ok [rope_simps]: "rep_ok t \<Longrightarrow> rep_ok (rotate_left t)"
  by (cases t rule: rotate_left.cases) auto

lemma rotate_right_text [rope_simps]: "text_of (rotate_right t) = text_of t"
  by (cases t rule: rotate_right.cases) auto

lemma rotate_right_ok [rope_simps]: "rep_ok t \<Longrightarrow> rep_ok (rotate_right t)"
  by (cases t rule: rotate_right.cases) auto

lemma replace_children:
  assumes "rep_ok (Rep l n r)" and "rep_ok l'" and "text_of l' = text_of l"
    and "rep_ok r'" and "text_of r' = text_of r"
  shows "rep_ok (Rep l' n r')" "text_of (Rep l' n r') = text_of (Rep l n r)"
  using assms by simp_all

lemma balance_left_ok_text:
  "rep_ok t \<Longrightarrow> rep_ok (balance_left t) \<and> text_of (balance_left t) = text_of t"
proof (induction t)
  case (Rep l n r)
  let ?t = "Rep (balance_left l) n r"
  have t: "rep_ok ?t" "text_of ?t = text_of (Rep l n r)"
    using Rep.IH(1) Rep.prems replace_children [OF Rep.prems, of "balance_left l" r] by simp_all
  have "balance_left (Rep l n r) \<in> {Rep l n r, ?t, rotate_right ?t}"
    by (auto split: rep.splits simp del: rotate_right.simps)
  with t Rep.prems show ?case
    using rotate_right_ok [of ?t] rotate_right_text [of ?t]
    by (elim insertE emptyE) (simp_all only: simp_thms)
qed simp

lemma balance_right_ok_text:
  "rep_ok t \<Longrightarrow> rep_ok (balance_right t) \<and> text_of (balance_right t) = text_of t"
proof (induction t)
  case (Rep l n r)
  let ?t = "Rep l n (balance_right r)"
  have t: "rep_ok ?t" "text_of ?t = text_of (Rep l n r)"
    using Rep.IH(2) Rep.prems replace_children [OF Rep.prems, of l "balance_right r"] by simp_all
  have "balance_right (Rep l n r) \<in> {Rep l n r, ?t, rotate_left ?t}"
    by (auto split: rep.splits simp del: rotate_left.simps)
  with t Rep.prems show ?case
    using rotate_left_ok [of ?t] rotate_left_text [of ?t]
    by (elim insertE emptyE) (simp_all only: simp_thms)
qed simp

lemmas balance_simps [rope_simps] =
  balance_left_ok_text [THEN conjunct1] balance_left_ok_text [THEN conjunct2]
  balance_right_ok_text [THEN conjunct1] balance_right_ok_text [THEN conjunct2]

lemma merge_rep_ok_text:
  "rep_ok l \<Longrightarrow> rep_ok r \<Longrightarrow>
   rep_ok (merge_rep l r) \<and> text_of (merge_rep l r) = text_of l @ text_of r"
proof (induction l r rule: merge_rep.induct)
  case (3 l n r rl rn rr)
  let ?m = "merge_rep r (Rep rl rn rr)"
  have m: "rep_ok ?m" "text_of ?m = text_of r @ text_of (Rep rl rn rr)"
    using 3 by simp_all
  then have "rep_ok (Rep l n ?m)" using 3 by simp
  with m show ?case
    by (simp add: rope_simps del: balance_right.simps rep_ok.simps)
qed auto

section \<open>Insert splices the new bytes into the text\<close>

lemma node_put_text:
  assumes "node_ok n" and "index \<le> bsize n" and "bsize n + length buf \<le> buffer_size"
  obtains n' where "node_put n index buf = Some n'" and "node_ok n'" and "lsize n' = lsize n"
    and "node_text n' = take index (node_text n) @ buf @ drop index (node_text n)"
    and "bsize n' = bsize n + length buf"
proof -
  let ?b = "buffer n"
  let ?m = "overwrite (index + length buf) (take (bsize n - index) (drop index ?b)) ?b"
  let ?n = "n\<lparr>buffer := overwrite index buf ?m, bsize := bsize n + length buf\<rparr>"
  have len: "length ?b = buffer_size" using assms(1) by (simp add: node_ok_def)
  have lm: "length ?m = buffer_size"
    using assms len by (subst length_overwrite) auto
  have "take (bsize n + length buf) (overwrite index buf ?m) =
    take index (take (bsize n) ?b) @ buf @ drop index (take (bsize n) ?b)"
  proof (cases "buf = []")
    case True
    with assms len show ?thesis by (simp add: overwrite_def min_def drop_take)
  next
    case False
    then have "\<not> bsize n + length buf \<le> index" using assms(2) length_greater_0_conv [of buf] by linarith
    with assms len show ?thesis by (simp add: overwrite_def min_def drop_take)
  qed
  moreover have "length (overwrite index buf ?m) = buffer_size"
    using assms lm by (subst length_overwrite) auto
  ultimately show thesis
    using assms by (intro that [of ?n]) (auto simp: node_put_def node_ok_def node_text_def Let_def)
qed

definition inserted :: "nat \<Rightarrow> bytes \<Rightarrow> bytes \<Rightarrow> bytes" where
  "inserted index buf c = take index c @ buf @ drop index c"

text \<open>The call returns, with a well-formed tree that holds the spliced text.\<close>

definition insert_works :: "('g \<Rightarrow> u32 \<times> 'g) \<Rightarrow> rep \<Rightarrow> nat \<Rightarrow> bytes \<Rightarrow> bool" where
  "insert_works uniform rep index buf \<longleftrightarrow>
     (\<forall>gen. \<exists>rep' gen'. insert_rep uniform gen rep index buf = Some (rep', gen') \<and>
        rep_ok rep' \<and> text_of rep' = inserted index buf (text_of rep))"

lemma insert_worksE:
  assumes "insert_works uniform rep index buf"
  obtains rep' gen' where "insert_rep uniform gen rep index buf = Some (rep', gen')"
    and "rep_ok rep'" and "text_of rep' = inserted index buf (text_of rep)"
  using assms unfolding insert_works_def by blast

lemma inserted_left:
  "index \<le> length a \<Longrightarrow> inserted index buf (a @ b) = inserted index buf a @ b"
  by (simp add: inserted_def)

lemma inserted_right:
  "length a \<le> index \<Longrightarrow> inserted index buf (a @ b) = a @ inserted (index - length a) buf b"
  by (simp add: inserted_def)

lemma length_inserted [simp]:
  "length (inserted index buf c) = length c + length buf"
  by (simp add: inserted_def)

lemma inserted_0 [simp]: "inserted 0 buf c = buf @ c"
  by (simp add: inserted_def)

lemma insert_step_left:
  assumes ok: "rep_ok (Rep l n r)" and lt: "index < lsize n"
    and L: "insert_works uniform l index buf"
  shows "insert_works uniform (Rep l n r) index buf"
  unfolding insert_works_def
proof
  fix gen
  from L obtain l' gen' where l': "insert_rep uniform gen l index buf = Some (l', gen')"
    "rep_ok l'" "text_of l' = inserted index buf (text_of l)"
    by (rule insert_worksE)
  let ?t = "Rep l' (n\<lparr>lsize := lsize n + length buf\<rparr>) r"
  have "rep_ok ?t" using ok l' by simp
  moreover have "text_of ?t = inserted index buf (text_of (Rep l n r))"
    using ok l' lt by (simp add: inserted_left)
  moreover have "insert_rep uniform gen (Rep l n r) index buf = Some (balance_left ?t, gen')"
    using lt l'(1) by (simp add: insert_rep.simps [of uniform gen "Rep l n r"] del: balance_left.simps)
  ultimately show "\<exists>rep' gen'. insert_rep uniform gen (Rep l n r) index buf = Some (rep', gen') \<and>
      rep_ok rep' \<and> text_of rep' = inserted index buf (text_of (Rep l n r))"
    by (auto simp: rope_simps simp del: balance_left.simps rep_ok.simps text_of.simps)
qed

lemma insert_step_right:
  assumes ok: "rep_ok (Rep l n r)" and gt: "lsize n + bsize n < index"
    and R: "insert_works uniform r (index - lsize n - bsize n) buf"
  shows "insert_works uniform (Rep l n r) index buf"
  unfolding insert_works_def
proof
  fix gen
  from R obtain r' gen' where r': "insert_rep uniform gen r (index - lsize n - bsize n) buf = Some (r', gen')"
    "rep_ok r'" "text_of r' = inserted (index - lsize n - bsize n) buf (text_of r)"
    by (rule insert_worksE)
  let ?t = "Rep l n r'"
  have "rep_ok ?t" using ok r' by simp
  moreover have "text_of ?t = inserted index buf (text_of (Rep l n r))"
    using ok r' gt by (simp add: inserted_right)
  moreover have "insert_rep uniform gen (Rep l n r) index buf = Some (balance_right ?t, gen')"
  proof -
    have "\<not> index < lsize n" "bsize n < index - lsize n" using gt by simp_all
    then show ?thesis
      by (simp only: insert_rep.simps [of uniform gen "Rep l n r"] Let_def rep.case if_True if_False
          r'(1) bind.simps prod.case)
  qed
  ultimately show "\<exists>rep' gen'. insert_rep uniform gen (Rep l n r) index buf = Some (rep', gen') \<and>
      rep_ok rep' \<and> text_of rep' = inserted index buf (text_of (Rep l n r))"
    by (auto simp: rope_simps simp del: balance_right.simps rep_ok.simps text_of.simps)
qed

text \<open>The insertion into the node itself: the bytes that do not fit go to the front of the right
  subtree, first the node's own tail, then the rest of the new bytes.\<close>

lemma node_cut:
  assumes "node_ok n" and "k \<le> bsize n"
  shows "node_ok (n\<lparr>bsize := k\<rparr>)" "node_text (n\<lparr>bsize := k\<rparr>) = take k (node_text n)"
    "take (bsize n - k) (drop k (buffer n)) = drop k (node_text n)"
  using assms by (auto simp: node_ok_def node_text_def min_def drop_take)

lemma inserted_cut:
  "index \<le> k \<Longrightarrow> k \<le> length t \<Longrightarrow> inserted index buf (take k t) @ drop k t = inserted index buf t"
  by (simp add: inserted_def drop_take min_def)
    (metis append_take_drop_id drop_drop le_add_diff_inverse2 take_drop)

lemma insert_rep_here:
  assumes "lsize n \<le> index" and "index - lsize n \<le> bsize n"
  shows "insert_rep uniform gen (Rep l n r) index buf =
    (let i = index - lsize n in
     if bsize n + length buf > buffer_size then
       let k = max buffer_size (i + length buf) - length buf
       in Option.bind (insert_rep uniform gen r 0 (take (bsize n - k) (drop k (buffer n)))) (\<lambda>(r', gen').
            if i + length buf > buffer_size then
              Option.bind (insert_rep uniform gen' r' 0 (drop (buffer_size - i) buf))
                (\<lambda>(r'', gen'').
                   Option.bind (node_put (n\<lparr>bsize := k\<rparr>) i (take (buffer_size - i) buf)) (\<lambda>n''.
                     Some (balance_right (Rep l n'' r''), gen'')))
            else
              Option.bind (node_put (n\<lparr>bsize := k\<rparr>) i buf) (\<lambda>n''.
                Some (balance_right (Rep l n'' r'), gen')))
     else Option.bind (node_put n i buf) (\<lambda>n''. Some (balance_right (Rep l n'' r), gen)))"
proof -
  have "\<not> index < lsize n" "\<not> bsize n < index - lsize n" using assms by simp_all
  then show ?thesis
    by (simp only: insert_rep.simps [of uniform gen "Rep l n r"] Let_def rep.case if_False)
qed

lemma insert_here_result:
  assumes "rep_ok l" and "rep_ok r'" and "node_ok n''" and "lsize n'' = length (text_of l)"
    and "node_text n'' @ text_of r' = inserted (index - lsize n'') buf (t @ text_of r)"
    and "lsize n'' \<le> index" and "insert_rep uniform gen rep index buf = Some (balance_right (Rep l n'' r'), gen')"
    and "text_of rep = text_of l @ t @ text_of r"
  shows "\<exists>rep' gen'. insert_rep uniform gen rep index buf = Some (rep', gen') \<and>
      rep_ok rep' \<and> text_of rep' = inserted index buf (text_of rep)"
proof -
  let ?t = "Rep l n'' r'"
  have "rep_ok ?t" using assms(1-4) by simp
  moreover have "text_of ?t = inserted index buf (text_of rep)"
    using assms(4-6,8) by (simp add: inserted_right)
  ultimately show ?thesis
    using assms(7) by (auto simp: rope_simps simp del: balance_right.simps rep_ok.simps text_of.simps)
qed

lemma insert_here_fits:
  assumes ok: "rep_ok (Rep l n r)" and ge: "lsize n \<le> index" and le: "index - lsize n \<le> bsize n" and fits: "\<not> buffer_size < bsize n + length buf"
  shows "\<exists>rep' gen'. insert_rep uniform gen (Rep l n r) index buf = Some (rep', gen') \<and>
      rep_ok rep' \<and> text_of rep' = inserted index buf (text_of (Rep l n r))"
proof -
  obtain n'' where n'': "node_put n (index - lsize n) buf = Some n''" "node_ok n''" "lsize n'' = lsize n"
    "node_text n'' = inserted (index - lsize n) buf (node_text n)"
    using node_put_text [of n "index - lsize n" buf] ok le fits unfolding inserted_def by (metis not_less rep_ok.simps(2))
  then show ?thesis
    by (intro insert_here_result [where l = l and r' = r and n'' = n'' and t = "node_text n" and r = r and gen' = gen])
      (use fits ok le ge insert_rep_here [OF ge le, of uniform gen l r buf] in \<open>auto simp: inserted_left\<close>)
qed

text \<open>The node's own tail is in the right subtree; the new bytes fit into the node, or their rest follows the tail.\<close>

lemma insert_here_tail:
  fixes index buf n
  defines "i \<equiv> index - lsize n"
  defines "k \<equiv> max buffer_size (i + length buf) - length buf"
  assumes ok: "rep_ok (Rep l n r)" and ge: "lsize n \<le> index" and le: "i \<le> bsize n" and split: "buffer_size < bsize n + length buf"
    and r': "insert_rep uniform gen r 0 (drop k (node_text n)) = Some (r', gen')" "rep_ok r'" "text_of r' = drop k (node_text n) @ text_of r"
    and fits: "\<not> buffer_size < i + length buf"
  shows "\<exists>rep' gen'. insert_rep uniform gen (Rep l n r) index buf = Some (rep', gen') \<and>
      rep_ok rep' \<and> text_of rep' = inserted index buf (text_of (Rep l n r))"
proof -
  have n: "node_ok n" "bsize n \<le> buffer_size" using ok by (auto simp: node_ok_def)
  have k: "i \<le> k" "k \<le> bsize n" using split n le by (auto simp: k_def max_def)
  note cut = node_cut [OF n(1) k(2)]
  have "bsize (n\<lparr>bsize := k\<rparr>) + length buf \<le> buffer_size" using fits by (simp add: k_def)
  then obtain n'' where n'': "node_put (n\<lparr>bsize := k\<rparr>) i buf = Some n''" "node_ok n''" "lsize n'' = lsize n"
    "node_text n'' = inserted i buf (take k (node_text n))"
    using node_put_text [OF cut(1), of i buf] k unfolding inserted_def cut(2) by auto
  note step = insert_rep_here [OF ge le [unfolded i_def], of uniform gen l r buf, folded i_def, unfolded Let_def, folded k_def]
  show ?thesis
    by (rule insert_here_result [where l = l and r' = r' and n'' = n'' and t = "node_text n" and r = r and gen' = gen'])
      (use fits split ok n n'' ge step k cut r' in \<open>auto simp: i_def inserted_left inserted_cut\<close>)
qed

lemma insert_here_rest:
  fixes index buf n
  defines "i \<equiv> index - lsize n"
  defines "k \<equiv> max buffer_size (i + length buf) - length buf" and "m \<equiv> buffer_size - i"
  assumes ok: "rep_ok (Rep l n r)" and ge: "lsize n \<le> index" and le: "i \<le> bsize n" and split: "buffer_size < bsize n + length buf"
    and r': "insert_rep uniform gen r 0 (drop k (node_text n)) = Some (r', gen')" "text_of r' = drop k (node_text n) @ text_of r"
    and over: "buffer_size < i + length buf" and rest: "insert_works uniform r' 0 (drop m buf)"
  shows "\<exists>rep' gen'. insert_rep uniform gen (Rep l n r) index buf = Some (rep', gen') \<and>
      rep_ok rep' \<and> text_of rep' = inserted index buf (text_of (Rep l n r))"
proof -
  have n: "node_ok n" "bsize n \<le> buffer_size" using ok by (auto simp: node_ok_def)
  have k: "k = i" and m: "m < length buf" using over n le by (auto simp: k_def m_def max_def)
  note cut = node_cut [OF n(1) le]
  obtain r'' gen'' where r'': "insert_rep uniform gen' r' 0 (drop m buf) = Some (r'', gen'')" "rep_ok r''" "text_of r'' = drop m buf @ text_of r'"
    using rest by (rule insert_worksE) auto
  have "bsize (n\<lparr>bsize := i\<rparr>) + length (take m buf) \<le> buffer_size" using n m le by (simp add: m_def)
  then obtain n'' where n'': "node_put (n\<lparr>bsize := i\<rparr>) i (take m buf) = Some n''" "node_ok n''"
    "lsize n'' = lsize n" "node_text n'' = inserted i (take m buf) (take i (node_text n))"
    using node_put_text [OF cut(1), of i "take m buf"] unfolding inserted_def cut(2) by auto
  have "node_text n'' @ text_of r'' = inserted i buf (node_text n @ text_of r)"
    using n le by (simp add: n'' r'' r' k inserted_def)
  moreover note insert_rep_here [OF ge le [unfolded i_def], of uniform gen l r buf, folded i_def, unfolded Let_def, folded k_def m_def, unfolded k]
  ultimately show ?thesis
    by (intro insert_here_result [where l = l and r' = r'' and n'' = n'' and t = "node_text n" and r = r and gen' = gen''])
      (use over split ok n n'' ge cut r' r'' k in \<open>auto simp: i_def\<close>)
qed

lemma insert_step_here:
  assumes ok: "rep_ok (Rep l n r)" and ge: "lsize n \<le> index" and le: "index - lsize n \<le> bsize n"
    and T: "\<And>tail. buffer_size < bsize n + length buf \<Longrightarrow> length tail \<le> bsize n \<Longrightarrow>
      insert_works uniform r 0 tail"
    and D: "\<And>r' k. rep_ok r' \<Longrightarrow> k = buffer_size - (index - lsize n) \<Longrightarrow> k < length buf \<Longrightarrow>
      insert_works uniform r' 0 (drop k buf)"
  shows "insert_works uniform (Rep l n r) index buf"
  unfolding insert_works_def
proof
  fix gen
  let ?i = "index - lsize n"
  let ?k = "max buffer_size (?i + length buf) - length buf"
  show "\<exists>rep' gen'. insert_rep uniform gen (Rep l n r) index buf = Some (rep', gen') \<and>
      rep_ok rep' \<and> text_of rep' = inserted index buf (text_of (Rep l n r))"
  proof (cases "buffer_size < bsize n + length buf")
    case False
    with ok ge le show ?thesis by (rule insert_here_fits)
  next
    case split: True
    have n: "node_ok n" "bsize n \<le> buffer_size" using ok by (auto simp: node_ok_def)
    then have "length (drop ?k (node_text n)) \<le> bsize n" by simp
    from T [OF split this] obtain r' gen' where r': "insert_rep uniform gen r 0 (drop ?k (node_text n)) = Some (r', gen')"
      "rep_ok r'" "text_of r' = drop ?k (node_text n) @ text_of r"
      by (rule insert_worksE) auto
    show ?thesis
    proof (cases "buffer_size < ?i + length buf")
      case False
      with ok ge le split r' show ?thesis by (rule insert_here_tail)
    next
      case True
      with n le have "buffer_size - ?i < length buf" by linarith
      with D r'(2) have "insert_works uniform r' 0 (drop (buffer_size - ?i) buf)" by blast
      with ok ge le split r'(1,3) True show ?thesis by (rule insert_here_rest)
    qed
  qed
qed

text \<open>A null tree is replaced by a fresh node before anything else happens.\<close>

lemma insert_works_Null:
  assumes "\<And>p. insert_works uniform (Rep Null (new_node p) Null) index buf"
  shows "insert_works uniform Null index buf"
  unfolding insert_works_def
proof
  fix gen
  obtain p gen' where p: "uniform gen = (p, gen')" by (cases "uniform gen")
  show "\<exists>rep' gen'. insert_rep uniform gen Null index buf = Some (rep', gen') \<and>
      rep_ok rep' \<and> text_of rep' = inserted index buf (text_of Null)"
    using assms [of p] insert_worksE [of uniform "Rep Null (new_node p) Null" index buf gen']
    by (simp add: insert_rep.simps [of uniform gen Null] p) metis
qed

lemma rep_ok_new: "rep_ok (Rep Null (new_node p) Null)"
  by simp

text \<open>Termination. Inserting at the front splits only towards the right child with at most a
  buffer of bytes; a longer string loses 4096 bytes in every round; and at any other index both
  recursive calls of a split are at the front.\<close>

lemma insert_front_short:
  "rep_ok rep \<Longrightarrow> length buf \<le> buffer_size \<Longrightarrow> insert_works uniform rep 0 buf"
proof (induction rep arbitrary: buf)
  case Null
  have "insert_works uniform (Rep Null (new_node p) Null) 0 buf" for p
  proof (rule insert_step_here [OF rep_ok_new])
  qed (use Null in \<open>auto\<close>)
  then show ?case by (rule insert_works_Null)
next
  case (Rep l n r)
  show ?case
  proof (cases "0 < lsize n")
    case True
    with Rep show ?thesis by (intro insert_step_left) auto
  next
    case False
    with Rep show ?thesis
      by (intro insert_step_here) (auto simp: node_ok_def)
  qed
qed

lemma insert_front: "rep_ok rep \<Longrightarrow> insert_works uniform rep 0 buf"
proof (induction "length buf" arbitrary: rep buf rule: less_induct)
  case less
  have drop: "insert_works uniform r' 0 (drop buffer_size buf)"
    if "rep_ok r'" "buffer_size < length buf" for r'
    using that less.hyps [of "drop buffer_size buf" r'] by (simp add: buffer_size_def)
  from less.prems show ?case
  proof (induction rep)
    case Null
    have "insert_works uniform (Rep Null (new_node p) Null) 0 buf" for p
      by (rule insert_step_here [OF rep_ok_new])
        (auto intro: drop insert_front_short)
    then show ?case by (rule insert_works_Null)
  next
    case (Rep l n r)
    show ?case
    proof (cases "0 < lsize n")
      case True
      with Rep show ?thesis by (intro insert_step_left) auto
    next
      case False
      with Rep show ?thesis
        by (intro insert_step_here) (auto simp: node_ok_def intro: drop insert_front_short)
    qed
  qed
qed

lemma insert_rep_works:
  "rep_ok rep \<Longrightarrow> index \<le> length (text_of rep) \<Longrightarrow> insert_works uniform rep index buf"
proof (induction rep arbitrary: index)
  case Null
  then show ?case using insert_front [of Null uniform buf] by simp
next
  case (Rep l n r)
  consider "index < lsize n" | "lsize n \<le> index" "index - lsize n \<le> bsize n"
    | "lsize n + bsize n < index" by linarith
  then show ?case
  proof cases
    case 1
    with Rep show ?thesis by (intro insert_step_left) auto
  next
    case 2
    with Rep.prems show ?thesis
      by (intro insert_step_here) (auto intro: insert_front)
  next
    case 3
    with Rep show ?thesis by (intro insert_step_right) auto
  qed
qed

text \<open>Past the end the recursion never stops: every level allocates another empty node.\<close>

lemma insert_rep_past_end:
  assumes "rep_ok rep" and "length (text_of rep) < index"
  shows "insert_rep uniform gen rep index buf = None"
proof -
  have "rep_ok rep \<longrightarrow> index \<le> length (text_of rep)"
    if "insert_rep uniform gen rep index buf = Some (rep', gen')" for rep' gen'
  proof (rule insert_rep.raw_induct
      [where P = "\<lambda>_ _ rep index _ _. rep_ok rep \<longrightarrow> index \<le> length (text_of rep)", OF _ that], goal_cases)
    case (1 f uniform gen rep index buf res)
    note IH = 1(1) and eq = 1(2)
    show ?case
    proof (cases rep)
      case Null
      with eq obtain p g where "f uniform g (Rep Null (new_node p) Null) index buf = Some res"
        by (auto split: prod.splits)
      from IH [OF this] Null show ?thesis by simp
    next
      case (Rep l n r)
      show ?thesis
      proof (cases "bsize n < index - lsize n")
        case True
        then have "\<not> index < lsize n" by simp
        with eq Rep True obtain res' where "f uniform gen r (index - lsize n - bsize n) buf = Some res'"
          by (auto simp: Let_def bind_eq_Some_conv)
        from IH [OF this] Rep show ?thesis by auto
      qed (use Rep in auto)
    qed
  qed
  with assms show ?thesis
    by (cases "insert_rep uniform gen rep index buf") auto
qed

section \<open>Erase\<close>

lemma erase_out_ok_text:
  assumes "rep_ok l" "rep_ok r" "node_ok n" "lsize n = length (text_of l)"
  shows "rep_ok (erase_out l n r) \<and> text_of (erase_out l n r) = text_of l @ node_text n @ text_of r"
  using assms merge_rep_ok_text [of l r] by (simp add: erase_out_def node_text_def)

definition erased :: "nat \<Rightarrow> nat \<Rightarrow> bytes \<Rightarrow> bytes" where
  "erased index sz c = take index c @ drop (index + sz) c"

text \<open>The calls with a defined result: the range lies inside the text and, if it is empty, does
  not start at the end.\<close>

definition range_ok :: "nat \<Rightarrow> nat \<Rightarrow> nat \<Rightarrow> bool" where
  "range_ok index sz len \<longleftrightarrow> index + sz \<le> len \<and> (0 < sz \<or> index < len)"

lemma erased_append:
  "erased index sz (a @ b) =
   erased index sz a @ erased (index - length a) (sz - (length a - index)) b"
proof (cases "index \<le> length a")
  case True
  then have "index + sz - length a = sz - (length a - index)" by simp
  with True show ?thesis by (simp add: erased_def)
qed (simp add: erased_def)

lemma erased_beyond: "length a \<le> index \<Longrightarrow> erased index sz a = a"
  by (simp add: erased_def)

lemma erased_none [simp]: "erased index 0 a = a"
  by (simp add: erased_def)

lemma erase_here_inside:
  assumes "node_ok n" and "index < bsize n"
  obtains n' where "erase_here n index sz = (n', 0, sz - (bsize n - index), sz - (bsize n - index) = 0)"
    and "node_ok n'" and "lsize n' = lsize n" and "node_text n' = erased index sz (node_text n)"
proof -
  let ?e = "min sz (bsize n - index)"
  let ?kept = "take (bsize n - (index + ?e)) (drop (index + ?e) (buffer n))"
  let ?n = "n\<lparr>buffer := overwrite index ?kept (buffer n), bsize := bsize n - ?e\<rparr>"
  have len: "length (buffer n) = buffer_size" "bsize n \<le> buffer_size"
    using assms(1) by (auto simp: node_ok_def)
  have lk: "length ?kept = bsize n - (index + ?e)" using len by simp
  have "length (overwrite index ?kept (buffer n)) = buffer_size"
    using len assms(2) lk by (subst length_overwrite) auto
  moreover have "node_text ?n = take index (buffer n) @ ?kept"
    using len assms(2) lk by (simp add: node_text_def overwrite_def add.commute)
  moreover have "\<dots> = erased index sz (node_text n)"
    using assms(2) len by (auto simp: erased_def node_text_def min_def drop_take)
  ultimately show thesis
    using assms(2) len by (intro that [of ?n]) (auto simp: erase_here_def node_ok_def Let_def)
qed

definition erase_rest :: "rep \<Rightarrow> rope_node \<Rightarrow> rep \<Rightarrow> nat \<Rightarrow> nat \<Rightarrow> rep option" where
  "erase_rest l n r index sz =
     (case erase_here n index sz of (n', index', sz', stop) \<Rightarrow>
        if stop then Some (erase_out l n' r)
        else map_option (\<lambda>r'. erase_out l n' r') (erase_rep r index' sz'))"

definition erase_works :: "rep \<Rightarrow> nat \<Rightarrow> nat \<Rightarrow> bool" where
  "erase_works rep index sz \<longleftrightarrow>
     (if range_ok index sz (length (text_of rep))
      then \<exists>rep'. erase_rep rep index sz = Some rep' \<and> rep_ok rep' \<and>
             text_of rep' = erased index sz (text_of rep)
      else erase_rep rep index sz = None)"

lemma erase_rest_spec:
  assumes ok: "rep_ok l" "rep_ok r" "node_ok n" "lsize n = length (text_of l)"
    and R: "\<And>index sz. erase_works r index sz"
  shows "if range_ok index sz (bsize n + length (text_of r))
    then \<exists>rep'. erase_rest l n r index sz = Some rep' \<and> rep_ok rep' \<and>
           text_of rep' = text_of l @ erased index sz (node_text n @ text_of r)
    else erase_rest l n r index sz = None"
proof (cases "index < bsize n")
  case True
  then obtain n' where n': "erase_here n index sz = (n', 0, sz - (bsize n - index), sz - (bsize n - index) = 0)"
    "node_ok n'" "lsize n' = lsize n" "node_text n' = erased index sz (node_text n)"
    by (rule erase_here_inside [OF ok(3)])
  let ?sz = "sz - (bsize n - index)"
  show ?thesis
  proof (cases "?sz = 0")
    case stop: True
    then show ?thesis
      using True ok n' erase_out_ok_text [of l r n']
      by (auto simp: erase_rest_def range_ok_def erased_append)
  next
    case False
    have "range_ok index sz (bsize n + length (text_of r)) \<longleftrightarrow> range_ok 0 ?sz (length (text_of r))"
      using True False by (auto simp: range_ok_def)
    with R [of 0 ?sz] show ?thesis
      using True False ok n' erase_out_ok_text [of l _ n']
      by (fastforce simp: erase_rest_def erase_works_def erased_append)
  qed
next
  case False
  have "range_ok index sz (bsize n + length (text_of r)) \<longleftrightarrow> range_ok (index - bsize n) sz (length (text_of r))"
    using False by (auto simp: range_ok_def)
  with R [of "index - bsize n" sz] show ?thesis
    using False ok erase_out_ok_text [of l _ n]
    by (fastforce simp: erase_rest_def erase_here_def erase_works_def erased_append erased_beyond)
qed

lemma erase_rep_unfold:
  "erase_rep (Rep l n r) index sz =
     (if index < lsize n then
        let e = min sz (lsize n - index)
        in Option.bind (erase_rep l index e) (\<lambda>l'.
             if sz - e = 0 then Some (erase_out l' (n\<lparr>lsize := lsize n - e\<rparr>) r)
             else erase_rest l' (n\<lparr>lsize := lsize n - e\<rparr>) r 0 (sz - e))
      else erase_rest l n r (index - lsize n) sz)"
  by (auto simp: erase_rest_def Let_def split: option.splits prod.splits)

lemma erase_beyond_left:
  assumes ok: "rep_ok l" "rep_ok r" "node_ok n" "lsize n = length (text_of l)" and R: "\<And>i k. erase_works r i k" and ge: "\<not> i < lsize n"
  shows "erase_works (Rep l n r) i k"
proof -
  have "range_ok i k (length (text_of (Rep l n r))) \<longleftrightarrow>
    range_ok (i - lsize n) k (bsize n + length (text_of r))"
    using ge ok by (auto simp: range_ok_def)
  moreover have "erased i k (text_of (Rep l n r)) =
    text_of l @ erased (i - lsize n) k (node_text n @ text_of r)"
    using ge ok erased_append [of i k "text_of l"] by (simp add: erased_beyond)
  ultimately show ?thesis
    using ge erase_rest_spec [OF ok R, of "i - lsize n" k]
    by (simp add: erase_works_def erase_rep_unfold del: erase_rep.simps text_of.simps)
qed

lemma erase_from_left:
  assumes ok: "rep_ok l" "rep_ok r" "node_ok n" "lsize n = length (text_of l)"
    and L: "\<And>i k. erase_works l i k" and R: "\<And>i k. erase_works r i k" and lt: "i < lsize n"
  shows "erase_works (Rep l n r) i k"
proof -
  let ?e = "min k (lsize n - i)"
  have "range_ok i ?e (length (text_of l))" using lt ok by (auto simp: range_ok_def)
  with L [of i ?e] obtain l' where l': "erase_rep l i ?e = Some l'" "rep_ok l'"
    "text_of l' = erased i ?e (text_of l)" by (auto simp: erase_works_def)
  have tl: "erased i ?e (text_of l) = erased i k (text_of l)"
    using lt ok by (auto simp: erased_def min_def)
  let ?n = "n\<lparr>lsize := lsize n - ?e\<rparr>"
  have n: "node_ok ?n" "lsize ?n = length (text_of l')" using l' ok lt by (simp_all add: erased_def)
  show ?thesis
  proof (cases "k - ?e = 0")
    case stop: True
    have "range_ok i k (length (text_of (Rep l n r)))"
      using lt stop ok by (auto simp: range_ok_def)
    with stop lt l' tl n ok erase_out_ok_text [of l' r ?n] show ?thesis
      by (simp add: erase_works_def erase_rep_unfold erased_append Let_def del: erase_rep.simps)
  next
    case False
    have "range_ok i k (length (text_of (Rep l n r))) \<longleftrightarrow>
      range_ok 0 (k - ?e) (bsize ?n + length (text_of r))"
      using lt False ok by (auto simp: range_ok_def)
    moreover have "erased i k (text_of (Rep l n r)) =
      text_of l' @ erased 0 (k - ?e) (node_text ?n @ text_of r)"
      using lt ok l' tl erased_append [of i k "text_of l"] False by simp
    moreover have "erase_rep (Rep l n r) i k = erase_rest l' ?n r 0 (k - ?e)"
      using lt False l'(1) by (simp only: erase_rep_unfold Let_def if_True if_False bind.simps)
    ultimately show ?thesis
      using erase_rest_spec [OF l'(2) ok(2) n R, of 0 "k - ?e"]
      by (simp only: erase_works_def)
  qed
qed

lemma erase_rep_works: "rep_ok rep \<Longrightarrow> erase_works rep index sz"
proof (induction rep arbitrary: index sz)
  case (Null i k)
  show ?case by (auto simp: erase_works_def range_ok_def)
next
  case (Rep l n r i k)
  then have ok: "rep_ok l" "rep_ok r" "node_ok n" "lsize n = length (text_of l)" by simp_all
  show ?case
    using erase_from_left [OF ok Rep.IH(1) [OF ok(1)] Rep.IH(2) [OF ok(2)]] erase_beyond_left [OF ok Rep.IH(2) [OF ok(2)]]
    by (cases "i < lsize n") blast+
qed

section \<open>Copy\<close>

definition copy_rest :: "rope_node \<Rightarrow> rep \<Rightarrow> bytes \<Rightarrow> nat \<Rightarrow> nat \<Rightarrow> bytes option" where
  "copy_rest n r out index sz =
     (if index < bsize n then
        let get_size = min sz (bsize n - index);
            out' = out @ take get_size (drop index (buffer n))
        in if sz - get_size = 0 then Some out'
           else map_option (\<lambda>rest. out' @ rest) (copy_rep r 0 (sz - get_size))
      else map_option (\<lambda>rest. out @ rest) (copy_rep r (index - bsize n) sz))"

lemma copy_rep_unfold:
  "copy_rep (Rep l n r) index sz =
     (if index < lsize n then
        let g = min sz (lsize n - index)
        in Option.bind (copy_rep l index g) (\<lambda>out.
             if sz - g = 0 then Some out else copy_rest n r out 0 (sz - g))
      else copy_rest n r [] (index - lsize n) sz)"
  by (auto simp: copy_rest_def Let_def split: option.splits)

definition copy_works :: "rep \<Rightarrow> nat \<Rightarrow> nat \<Rightarrow> bool" where
  "copy_works rep index sz \<longleftrightarrow>
     copy_rep rep index sz =
       (if range_ok index sz (length (text_of rep)) then Some (take sz (drop index (text_of rep)))
        else None)"

lemma copy_rest_spec:
  assumes ok: "node_ok n" and R: "\<And>index sz. copy_works r index sz"
  shows "copy_rest n r out index sz =
    (if range_ok index sz (bsize n + length (text_of r))
     then Some (out @ take sz (drop index (node_text n @ text_of r))) else None)"
proof (cases "index < bsize n")
  case True
  have nt: "take m (drop index (buffer n)) = take m (drop index (node_text n))" if "m \<le> bsize n - index" for m
    using that ok by (auto simp: node_text_def node_ok_def drop_take min_def)
  show ?thesis
  proof (cases "sz \<le> bsize n - index")
    case fits: True
    then show ?thesis using True ok by (simp add: copy_rest_def range_ok_def nt)
  next
    case False
    then have "range_ok index sz (bsize n + length (text_of r)) \<longleftrightarrow>
      range_ok 0 (sz - (bsize n - index)) (length (text_of r))"
      using True by (auto simp: range_ok_def)
    with True False ok R [of 0 "sz - (bsize n - index)"] show ?thesis
      by (simp add: copy_rest_def copy_works_def nt min_def)
  qed
next
  case False
  have "range_ok index sz (bsize n + length (text_of r)) \<longleftrightarrow> range_ok (index - bsize n) sz (length (text_of r))"
    using False by (auto simp: range_ok_def)
  with R [of "index - bsize n" sz] False ok show ?thesis
    by (simp add: copy_rest_def copy_works_def)
qed

lemma copy_rep_works: "rep_ok rep \<Longrightarrow> copy_works rep index sz"
proof (induction rep arbitrary: index sz)
  case (Null i k)
  show ?case by (auto simp: copy_works_def range_ok_def)
next
  case (Rep l n r i k)
  then have ok: "rep_ok l" "rep_ok r" "node_ok n" "lsize n = length (text_of l)" by simp_all
  note rest = copy_rest_spec [OF ok(3) Rep.IH(2) [OF ok(2)]]
  show ?case
  proof (cases "i < lsize n")
    case False
    then have "range_ok i k (length (text_of (Rep l n r))) \<longleftrightarrow>
      range_ok (i - lsize n) k (bsize n + length (text_of r))"
      using ok by (auto simp: range_ok_def)
    with False ok show ?thesis by (simp add: copy_works_def copy_rep_unfold rest del: copy_rep.simps)
  next
    case True
    let ?g = "min k (lsize n - i)"
    have "range_ok i ?g (length (text_of l))" using True ok by (auto simp: range_ok_def)
    with Rep.IH(1) [OF ok(1), of i ?g] have l: "copy_rep l i ?g = Some (take ?g (drop i (text_of l)))"
      by (simp add: copy_works_def)
    have "range_ok i k (length (text_of (Rep l n r))) \<longleftrightarrow>
      (k - ?g = 0 \<or> range_ok 0 (k - ?g) (bsize n + length (text_of r)))"
      using True ok by (auto simp: range_ok_def)
    with True l ok show ?thesis
      by (auto simp: copy_works_def copy_rep_unfold rest Let_def min_def simp del: copy_rep.simps)
  qed
qed

section \<open>The interface of an editable text\<close>

text \<open>What a client may rely on: every operation is the operation of the same name on the byte
  string that the store holds, and has a result on the same arguments.\<close>

datatype edit = Insert nat bytes | Erase nat nat

fun edit_text :: "bytes \<Rightarrow> edit \<Rightarrow> bytes option" where
  "edit_text t (Insert index str) = (if index \<le> length t then Some (inserted index str t) else None)"
| "edit_text t (Erase index sz) = (if range_ok index sz (length t) then Some (erased index sz t) else None)"

definition read_text :: "bytes \<Rightarrow> nat \<Rightarrow> nat \<Rightarrow> bytes option" where
  "read_text t index sz = (if range_ok index sz (length t) then Some (take sz (drop index t)) else None)"

fun run_edits :: "('s \<Rightarrow> edit \<Rightarrow> 's option) \<Rightarrow> 's \<Rightarrow> edit list \<Rightarrow> 's option" where
  "run_edits step s [] = Some s"
| "run_edits step s (e # es) = Option.bind (step s e) (\<lambda>s'. run_edits step s' es)"

locale text_store =
  fixes content :: "'s \<Rightarrow> bytes"
    and invar :: "'s \<Rightarrow> bool"
    and step :: "'s \<Rightarrow> edit \<Rightarrow> 's option"
    and read :: "'s \<Rightarrow> nat \<Rightarrow> nat \<Rightarrow> bytes option"
  assumes step_refines: "invar s \<Longrightarrow> map_option content (step s e) = edit_text (content s) e"
    and step_invar: "invar s \<Longrightarrow> step s e = Some s' \<Longrightarrow> invar s'"
    and read_refines: "invar s \<Longrightarrow> read s index sz = read_text (content s) index sz"
begin

lemma run_refines:
  "invar s \<Longrightarrow> map_option content (run_edits step s es) = run_edits edit_text (content s) es"
proof (induction es arbitrary: s)
  case (Cons e es)
  show ?case
  proof (cases "step s e")
    case None
    with Cons.prems step_refines [of s e] show ?thesis by simp
  next
    case (Some s')
    with Cons.prems have "invar s'" by (rule step_invar)
    then have "map_option content (run_edits step s' es) = run_edits edit_text (content s') es"
      by (rule Cons.IH)
    moreover have "edit_text (content s) e = Some (content s')"
      using step_refines [OF Cons.prems, of e] Some by simp
    ultimately show ?thesis using Some by simp
  qed
qed simp

lemma run_invar: "invar s \<Longrightarrow> run_edits step s es = Some s' \<Longrightarrow> invar s'"
proof (induction es arbitrary: s)
  case (Cons e es)
  then obtain t where "step s e = Some t" "run_edits step t es = Some s'"
    by (auto simp: bind_eq_Some_conv)
  with Cons show ?case by (blast intro: step_invar)
qed simp

lemma read_after_run:
  assumes "invar s" and "run_edits step s es = Some s'"
  shows "\<exists>t. run_edits edit_text (content s) es = Some t \<and> read s' index sz = read_text t index sz"
  using run_refines [OF assms(1), of es] run_invar [OF assms] assms(2)
  by (intro exI [of _ "content s'"]) (simp add: read_refines)

end

definition rope_text :: "'g rope \<Rightarrow> bytes" where
  "rope_text s = text_of (rope_rep s)"

definition rope_ok :: "'g rope \<Rightarrow> bool" where
  "rope_ok s = rep_ok (rope_rep s)"

fun rope_edit :: "('g \<Rightarrow> u32 \<times> 'g) \<Rightarrow> 'g rope \<Rightarrow> edit \<Rightarrow> 'g rope option" where
  "rope_edit uniform s (Insert index str) = rope_insert uniform s index str"
| "rope_edit uniform s (Erase index sz) = rope_erase s index sz"

lemma rope_insert_spec:
  assumes "rope_ok s"
  shows "if index \<le> length (rope_text s)
    then \<exists>s'. rope_insert uniform s index str = Some s' \<and> rope_ok s' \<and>
           rope_text s' = inserted index str (rope_text s)
    else rope_insert uniform s index str = None"
  using assms insert_rep_works [of "rope_rep s" index uniform str]
    insert_rep_past_end [of "rope_rep s" index uniform "rope_gen s" str]
    insert_worksE [of uniform "rope_rep s" index str "rope_gen s"]
  by (force simp: rope_ok_def rope_text_def rope_insert_def)

lemma rope_erase_spec:
  assumes "rope_ok s"
  shows "if range_ok index sz (length (rope_text s))
    then \<exists>s'. rope_erase s index sz = Some s' \<and> rope_ok s' \<and>
           rope_text s' = erased index sz (rope_text s)
    else rope_erase s index sz = None"
  using assms erase_rep_works [of "rope_rep s" index sz]
  by (auto simp: rope_ok_def rope_text_def rope_erase_def erase_works_def split: if_splits)

lemma rope_edit_spec:
  assumes s: "rope_ok s"
  shows "map_option rope_text (rope_edit uniform s e) = edit_text (rope_text s) e \<and>
    (\<forall>s'. rope_edit uniform s e = Some s' \<longrightarrow> rope_ok s')"
proof (cases e)
  case (Insert index str)
  with rope_insert_spec [OF s, of index uniform str] show ?thesis by (auto split: if_splits)
next
  case (Erase index sz)
  with rope_erase_spec [OF s, of index sz] show ?thesis by (auto split: if_splits)
qed

interpretation rope_store: text_store rope_text rope_ok "rope_edit uniform" rope_copy for uniform
proof unfold_locales
  fix s :: "'a rope" and e s' assume s: "rope_ok s"
  show "map_option rope_text (rope_edit uniform s e) = edit_text (rope_text s) e"
    and "rope_edit uniform s e = Some s' \<Longrightarrow> rope_ok s'"
    using rope_edit_spec [OF s, of uniform e] by blast+
next
  fix s :: "'a rope" and index sz assume "rope_ok s"
  then show "rope_copy s index sz = read_text (rope_text s) index sz"
    using copy_rep_works [of "rope_rep s" index sz]
    by (simp add: rope_ok_def rope_text_def rope_copy_def copy_works_def read_text_def)
qed

section \<open>Properties\<close>

text \<open>C4. The rope implements the byte string it stands for: any sequence of insertions and
  erasures of any length and at any position has a result exactly when the same sequence on the
  plain byte string has one, and then the rope holds that string. In particular an insertion
  always terminates when its position is inside the text or at its end, whatever priorities are
  drawn, and never returns past the end. \<^verbatim>\<open>Rope::copy\<close> then returns the bytes of the range; it
  has no defined result when the range leaves the text or is empty at the end of the text (the
  recursion then dereferences a null child).\<close>

theorem rope_refines_text:
  assumes "rope_ok s"
  shows "map_option rope_text (run_edits (rope_edit uniform) s es) = run_edits edit_text (rope_text s) es \<and>
    (\<forall>s'. run_edits (rope_edit uniform) s es = Some s' \<longrightarrow>
      (\<forall>index sz. rope_copy s' index sz =
        (if index + sz \<le> length (rope_text s') \<and> (0 < sz \<or> index < length (rope_text s')) then Some (take sz (drop index (rope_text s')))
         else None)))"
proof (intro conjI allI impI)
  show run: "map_option rope_text (run_edits (rope_edit uniform) s es) = run_edits edit_text (rope_text s) es"
    using assms by (rule rope_store.run_refines)
  fix s' index sz assume s': "run_edits (rope_edit uniform) s es = Some s'"
  show "rope_copy s' index sz = (if index + sz \<le> length (rope_text s') \<and> (0 < sz \<or> index < length (rope_text s'))
      then Some (take sz (drop index (rope_text s'))) else None)"
    using rope_store.read_after_run [OF assms s', of index sz] run s' by (auto simp: read_text_def range_ok_def)
qed

theorem rope_refines_text_witness:
  "\<exists>s'. run_edits (rope_edit (\<lambda>g. (g, g))) \<lparr>rope_rep = Null, rope_gen = 0\<rparr> [Insert 0 [104, 105], Insert 1 [33], Erase 0 1] = Some s' \<and>
     rope_text s' = [33, 105] \<and> rope_copy s' 1 1 = Some [105] \<and> rope_copy s' 2 0 = None"
  using rope_refines_text [of "\<lparr>rope_rep = Null, rope_gen = 0 :: u32\<rparr>" "\<lambda>g. (g, g)"
      "[Insert 0 [104, 105], Insert 1 [33], Erase 0 1]"]
  by (auto simp: rope_ok_def rope_text_def inserted_def erased_def range_ok_def)

text \<open>The order the rotations are meant to keep: no child has a higher priority than its
  parent.\<close>

fun root_le :: "u32 \<Rightarrow> rep \<Rightarrow> bool" where
  "root_le p Null = True"
| "root_le p (Rep l n r) = (priority n \<le> p)"

fun heap_ordered :: "rep \<Rightarrow> bool" where
  "heap_ordered Null = True"
| "heap_ordered (Rep l n r) \<longleftrightarrow>
     root_le (priority n) l \<and> root_le (priority n) r \<and> heap_ordered l \<and> heap_ordered r"

definition sample_node :: "nat \<Rightarrow> u32 \<Rightarrow> rope_node" where
  "sample_node k p = \<lparr>lsize = k, bsize = 1, priority = p, buffer = replicate buffer_size 0\<rparr>"

definition sample_rep :: rep where
  "sample_rep =
     Rep (Rep Null (sample_node 0 5) Null) (sample_node 1 10)
       (Rep (Rep Null (sample_node 0 8) Null) (sample_node 1 9) Null)"


end
