(* ===== verification/Hash_Filter.thy ===== *)
theory Hash_Filter
  imports Trunk_Prelude
begin

text \<open>
  \<^verbatim>\<open>util/hash-filter.h\<close> and \<^verbatim>\<open>util/hash-filter.cc\<close>: a cuckoo filter with buckets of four
  32-bit entries, 0 marking a free entry. The generator is a parameter: \<open>uniform\<close> draws a
  64-bit seed. Bucket indices are always masked, and the invariant keeps one bucket per masked
  index, so every access is in range (\<open>masked_in_range\<close>).
\<close>

named_theorems filter_simps "the invariant of the filter and its accesses"

section \<open>Data and bucket operations\<close>

type_synonym bucket = "u32 list"

record 'g hash_filter =
  buckets :: "bucket list"
  num_buckets_mask :: u32
  filter_size :: u32
  filter_gen :: 'g

definition empty_bucket :: bucket where
  "empty_bucket = replicate 4 0"

text \<open>The constructor, without its debug assertion, and \<^verbatim>\<open>clear\<close>.\<close>

definition filter_clear :: "'g hash_filter \<Rightarrow> 'g hash_filter" where
  "filter_clear f = f\<lparr>buckets := replicate (unat (num_buckets_mask f + 1)) empty_bucket
     @ drop (unat (num_buckets_mask f + 1)) (buckets f), filter_size := 0\<rparr>"

definition filter_new :: "u32 \<Rightarrow> 'g \<Rightarrow> 'g hash_filter" where
  "filter_new num_buckets gen =
     filter_clear \<lparr>buckets = replicate (unat num_buckets) empty_bucket,
       num_buckets_mask = num_buckets - 1, filter_size = 0, filter_gen = gen\<rparr>"

text \<open>\<^verbatim>\<open>HashFilter32::add\<close>: the first free entry takes the fingerprint; \<open>None\<close> is \<^verbatim>\<open>false\<close>.\<close>

fun add :: "u32 \<Rightarrow> bucket \<Rightarrow> bucket option" where
  "add fp32 [] = None"
| "add fp32 (entry # entries) =
     (if entry = 0 then Some (fp32 # entries) else map_option (Cons entry) (add fp32 entries))"

text \<open>The portable \<^verbatim>\<open>find_two\<close>.\<close>

fun find_entry :: "u32 \<Rightarrow> bucket \<Rightarrow> bool" where
  "find_entry fp32 [] = False"
| "find_entry fp32 (entry # entries) = (if entry = fp32 then True else find_entry fp32 entries)"

definition find_two :: "bucket \<Rightarrow> bucket \<Rightarrow> u32 \<Rightarrow> bool" where
  "find_two b0 b1 fp32 = (if find_entry fp32 b0 then True else find_entry fp32 b1)"

text \<open>The vector instructions of the other three versions, on lists of 32-bit lanes, lowest
  lane first.\<close>

definition lanes_set1 :: "nat \<Rightarrow> u32 \<Rightarrow> u32 list" where
  "lanes_set1 n x = replicate n x"

definition lanes_cmpeq :: "u32 list \<Rightarrow> u32 list \<Rightarrow> u32 list" where
  "lanes_cmpeq a b = map2 (\<lambda>x y. if x = y then - 1 else 0) a b"

definition lanes_or :: "u32 list \<Rightarrow> u32 list \<Rightarrow> u32 list" where
  "lanes_or a b = map2 (OR) a b"

definition lanes_testz :: "u32 list \<Rightarrow> u32 list \<Rightarrow> bool" where
  "lanes_testz a b = list_all (\<lambda>x. x = 0) (map2 (AND) a b)"

text \<open>\<^verbatim>\<open>_mm_movemask_epi8\<close>: one bit for the top bit of each byte.\<close>

definition lanes_movemask :: "u32 list \<Rightarrow> u32" where
  "lanes_movemask a =
     horner_sum of_bool 2 (concat (map (\<lambda>x. [bit x 7, bit x 15, bit x 23, bit x 31]) a))"

definition find_two_avx2 :: "bucket \<Rightarrow> bucket \<Rightarrow> u32 \<Rightarrow> bool" where
  "find_two_avx2 b0 b1 fp32 =
     (let a = b1 @ b0; b = lanes_set1 8 fp32; c = lanes_cmpeq a b in \<not> lanes_testz c c)"

definition find_two_sse2 :: "bool \<Rightarrow> bucket \<Rightarrow> bucket \<Rightarrow> u32 \<Rightarrow> bool" where
  "find_two_sse2 sse41 b0 b1 fp32 =
     (let b = lanes_set1 4 fp32; c0 = lanes_cmpeq b0 b; c1 = lanes_cmpeq b1 b;
          d = lanes_or c0 c1
      in if sse41 then \<not> lanes_testz d d else lanes_movemask d \<noteq> 0)"

definition find_two_neon :: "bucket \<Rightarrow> bucket \<Rightarrow> u32 \<Rightarrow> bool" where
  "find_two_neon b0 b1 fp32 =
     (let b = lanes_set1 4 fp32; c0 = lanes_cmpeq b0 b; c1 = lanes_cmpeq b1 b
      in sum_list (lanes_or c0 c1) \<noteq> 0)"

section \<open>Insert and test\<close>

definition fp32_of :: "u64 \<Rightarrow> u32" where
  "fp32_of fingerprint =
     (let fp32 = ucast fingerprint
      in if fp32 = 0 then ucast (drop_bit 32 fingerprint OR 1) else fp32)"

definition index_of :: "u32 \<Rightarrow> u64 \<Rightarrow> u32" where
  "index_of msk fingerprint = ucast (drop_bit 32 fingerprint AND ucast msk)"

definition bucket_at :: "bucket list \<Rightarrow> u32 \<Rightarrow> bucket" where
  "bucket_at bs index = bs ! unat index"

text \<open>\<^verbatim>\<open>add(fp32, buckets_[index])\<close> on the array.\<close>

definition add_at :: "u32 \<Rightarrow> u32 \<Rightarrow> bucket list \<Rightarrow> bucket list option" where
  "add_at fp32 index bs =
     map_option (\<lambda>b. bs[unat index := b]) (add fp32 (bucket_at bs index))"

text \<open>The two nested loops: either the displaced fingerprint found a place, or it is still
  without one, with its current index.\<close>

datatype kicked = Placed "bucket list" | Displaced "bucket list" u32 u32

fun kick_inner :: "nat \<Rightarrow> u64 \<Rightarrow> u32 \<Rightarrow> bucket list \<Rightarrow> u32 \<Rightarrow> u32 \<Rightarrow> kicked" where
  "kick_inner 0 seed msk bs fp32 index = Displaced bs fp32 index"
| "kick_inner (Suc j) seed msk bs fp32 index =
     (let slot = unat (seed AND 3);
          entry = bucket_at bs index ! slot;
          bs' = bs[unat index := (bucket_at bs index)[slot := fp32]];
          index' = index XOR (entry AND msk)
      in case add_at entry index' bs' of
           Some bs'' \<Rightarrow> Placed bs''
         | None \<Rightarrow> kick_inner j (drop_bit 2 seed) msk bs' entry index')"

fun kick_outer :: "('g \<Rightarrow> u64 \<times> 'g) \<Rightarrow> nat \<Rightarrow> 'g \<Rightarrow> u32 \<Rightarrow> bucket list \<Rightarrow> u32 \<Rightarrow> u32 \<Rightarrow> kicked \<times> 'g" where
  "kick_outer uniform 0 gen msk bs fp32 index = (Displaced bs fp32 index, gen)"
| "kick_outer uniform (Suc i) gen msk bs fp32 index =
     (case uniform gen of (seed, gen') \<Rightarrow>
        case kick_inner 32 seed msk bs fp32 index of
          Placed bs' \<Rightarrow> (Placed bs', gen')
        | Displaced bs' fp32' index' \<Rightarrow> kick_outer uniform i gen' msk bs' fp32' index')"

definition filter_insert :: "('g \<Rightarrow> u64 \<times> 'g) \<Rightarrow> 'g hash_filter \<Rightarrow> u64 \<Rightarrow> bool \<times> 'g hash_filter" where
  "filter_insert uniform f fingerprint =
     (let fp32 = fp32_of fingerprint;
          index = index_of (num_buckets_mask f) fingerprint
      in case add_at fp32 index (buckets f) of
           Some bs \<Rightarrow> (True, f\<lparr>buckets := bs, filter_size := filter_size f + 1\<rparr>)
         | None \<Rightarrow>
             let index' = index XOR (fp32 AND num_buckets_mask f)
             in case add_at fp32 index' (buckets f) of
                  Some bs \<Rightarrow> (True, f\<lparr>buckets := bs, filter_size := filter_size f + 1\<rparr>)
                | None \<Rightarrow>
                    (case kick_outer uniform 16 (filter_gen f) (num_buckets_mask f) (buckets f) fp32 index' of
                       (Placed bs, gen) \<Rightarrow>
                         (True, f\<lparr>buckets := bs, filter_size := filter_size f + 1, filter_gen := gen\<rparr>)
                     | (Displaced bs _ _, gen) \<Rightarrow> (False, f\<lparr>buckets := bs, filter_gen := gen\<rparr>)))"

definition filter_test :: "'g hash_filter \<Rightarrow> u64 \<Rightarrow> bool" where
  "filter_test f fingerprint =
     (let fp32 = fp32_of fingerprint;
          index = index_of (num_buckets_mask f) fingerprint
      in find_two (bucket_at (buckets f) index)
           (bucket_at (buckets f) (index XOR (fp32 AND num_buckets_mask f))) fp32)"

section \<open>The vector versions of the lookup\<close>

lemma find_entry_iff: "find_entry fp32 b \<longleftrightarrow> fp32 \<in> set b"
  by (induction b) auto

lemma find_two_iff: "find_two b0 b1 fp32 \<longleftrightarrow> fp32 \<in> set b0 \<union> set b1"
  by (simp add: find_two_def find_entry_iff)

lemma list4E:
  assumes "length b = 4"
  obtains e0 e1 e2 e3 where "b = [e0, e1, e2, e3]"
  using assms by (auto simp: numeral_eq_Suc length_Suc_conv)

definition flag :: "bool \<Rightarrow> u32" where
  "flag p = (if p then - 1 else 0)"

lemma lanes_cmpeq_set1:
  "length a = n \<Longrightarrow> lanes_cmpeq a (lanes_set1 n x) = map (\<lambda>e. flag (e = x)) a"
  by (induction a arbitrary: n) (auto simp: lanes_cmpeq_def lanes_set1_def flag_def)

lemma lanes_or_flags:
  "length a = length b \<Longrightarrow>
   lanes_or (map (\<lambda>e. flag (e = x)) a) (map (\<lambda>e. flag (e = x)) b) =
   map flag (map2 (\<lambda>e e'. e = x \<or> e' = x) a b)"
  by (induction a b rule: list_induct2) (auto simp: lanes_or_def flag_def)

lemma lanes_testz_flags: "lanes_testz (map flag ps) (map flag ps) \<longleftrightarrow> True \<notin> set ps"
  by (induction ps) (auto simp: lanes_testz_def flag_def)

lemma flags_zip:
  "length a = length b \<Longrightarrow>
   True \<in> set (map2 (\<lambda>e e'. e = x \<or> e' = x) a b) \<longleftrightarrow> x \<in> set a \<union> set b"
  by (induction a b rule: list_induct2) auto

lemma sum_flags: "length ps = 4 \<Longrightarrow> sum_list (map flag ps) = 0 \<longleftrightarrow> True \<notin> set ps"
  by (elim list4E) (auto simp: flag_def)

lemma movemask_flags: "length ps = 4 \<Longrightarrow> lanes_movemask (map flag ps) = 0 \<longleftrightarrow> True \<notin> set ps"
  by (elim list4E) (auto simp: flag_def lanes_movemask_def)

lemma find_two_avx2_iff:
  assumes "length b0 = 4" "length b1 = 4"
  shows "find_two_avx2 b0 b1 fp32 \<longleftrightarrow> fp32 \<in> set b0 \<union> set b1"
  using assms lanes_testz_flags [of "map (\<lambda>e. e = fp32) (b1 @ b0)"]
  by (auto simp: find_two_avx2_def Let_def lanes_cmpeq_set1 comp_def simp del: map_append)

lemma find_two_sse2_iff:
  assumes "length b0 = 4" "length b1 = 4"
  shows "find_two_sse2 sse41 b0 b1 fp32 \<longleftrightarrow> fp32 \<in> set b0 \<union> set b1"
  using assms flags_zip [of b0 b1 fp32]
  by (simp add: find_two_sse2_def Let_def lanes_cmpeq_set1 lanes_or_flags lanes_testz_flags movemask_flags
      del: map_map)

lemma find_two_neon_iff:
  assumes "length b0 = 4" "length b1 = 4"
  shows "find_two_neon b0 b1 fp32 \<longleftrightarrow> fp32 \<in> set b0 \<union> set b1"
  using assms flags_zip [of b0 b1 fp32]
  by (simp add: find_two_neon_def Let_def lanes_cmpeq_set1 lanes_or_flags sum_flags del: map_map)

text \<open>C8. The AVX2, SSE2, SSE4.1 and NEON versions of \<^verbatim>\<open>find_two\<close> agree with the portable loop on
  all buckets of four entries.\<close>

theorem find_two_vector_equiv:
  assumes "length b0 = 4" and "length b1 = 4"
  shows "find_two_avx2 b0 b1 fp32 = find_two b0 b1 fp32 \<and>
    find_two_sse2 sse41 b0 b1 fp32 = find_two b0 b1 fp32 \<and>
    find_two_neon b0 b1 fp32 = find_two b0 b1 fp32"
  using assms by (simp add: find_two_iff find_two_avx2_iff find_two_sse2_iff find_two_neon_iff)

theorem find_two_vector_equiv_witness:
  "find_two_avx2 [1, 2, 3, 4] [0, 0, 9, 0] 9 \<and> find_two_sse2 False [1, 2, 3, 4] [0, 0, 9, 0] 9 \<and>
   find_two_neon [1, 2, 3, 4] [0, 0, 9, 0] 9"
  using find_two_vector_equiv [of "[1, 2, 3, 4]" "[0, 0, 9, 0]" 9 False] by (simp add: find_two_def)

section \<open>Invariant\<close>

definition buckets_ok :: "u32 \<Rightarrow> bucket list \<Rightarrow> bool" where
  "buckets_ok msk bs \<longleftrightarrow> length bs = Suc (unat msk) \<and> list_all (\<lambda>b. length b = 4) bs"

definition masked :: "u32 \<Rightarrow> u32 \<Rightarrow> bool" where
  "masked msk i \<longleftrightarrow> i AND msk = i"

definition used :: "bucket list \<Rightarrow> nat" where
  "used bs = length (filter (\<lambda>e. e \<noteq> 0) (concat bs))"

definition filter_ok :: "'g hash_filter \<Rightarrow> bool" where
  "filter_ok f \<longleftrightarrow> buckets_ok (num_buckets_mask f) (buckets f) \<and> filter_size f = of_nat (used (buckets f))"

lemma masked_in_range [filter_simps]:
  assumes "buckets_ok msk bs" and "masked msk i"
  shows "unat i < length bs"
proof -
  have "i \<le> msk" using assms(2) unfolding masked_def by (metis word_and_le1)
  then show ?thesis using assms(1) by (simp add: buckets_ok_def word_le_nat_alt)
qed

lemma masked_index_of [filter_simps]: "masked msk (index_of msk x)"
  by (auto simp: masked_def index_of_def intro!: bit_word_eqI simp: word_bit_simps)

lemma masked_xor [filter_simps]: "masked msk i \<Longrightarrow> masked msk (i XOR (fp AND msk))"
  unfolding masked_def by (auto simp: bit_eq_iff word_bit_simps)

lemma xor_twice [simp]: "(i XOR a) XOR a = i" for i a :: u32
  by (simp add: xor.assoc)

lemma bucket_length [filter_simps]:
  "buckets_ok msk bs \<Longrightarrow> masked msk i \<Longrightarrow> length (bucket_at bs i) = 4"
  using masked_in_range [of msk bs i] by (auto simp: bucket_at_def buckets_ok_def list_all_length)

lemma buckets_ok_update [filter_simps]:
  "buckets_ok msk bs \<Longrightarrow> length b = 4 \<Longrightarrow> buckets_ok msk (bs[k := b])"
  by (cases "k < length bs") (auto simp: buckets_ok_def list_all_length nth_list_update)

lemma bucket_at_update:
  "buckets_ok msk bs \<Longrightarrow> masked msk i \<Longrightarrow>
   bucket_at (bs[unat i := b]) j = (if j = i then b else bucket_at bs j)"
  using masked_in_range [of msk bs i] by (auto simp: bucket_at_def nth_list_update word_unat_eq_iff)

lemma fp32_of_nonzero [simp]: "fp32_of x \<noteq> 0"
proof (cases "ucast x = (0 :: u32)")
  case True
  have "bit (ucast (drop_bit 32 x OR 1) :: u32) 0" by (simp add: word_bit_simps)
  then have "(ucast (drop_bit 32 x OR 1) :: u32) \<noteq> 0" by auto
  with True show ?thesis by (simp add: fp32_of_def)
next
  case False
  then show ?thesis by (simp add: fp32_of_def)
qed

section \<open>Adding to a bucket\<close>

lemma add_None_iff: "add fp b = None \<longleftrightarrow> 0 \<notin> set b"
  by (induction b) auto

lemma add_SomeE:
  assumes "add fp b = Some b'"
  obtains k where "k < length b" and "b ! k = 0" and "b' = b[k := fp]"
  using assms
proof (induction b arbitrary: b' thesis)
  case (Cons e es)
  show ?case
  proof (cases "e = 0")
    case True
    with Cons.prems show ?thesis by (intro Cons.prems(1) [of 0]) auto
  next
    case False
    with Cons.prems(2) obtain es' where "add fp es = Some es'" "b' = e # es'" by auto
    with Cons.IH [of es'] obtain k where "k < length es" "es ! k = 0" "es' = es[k := fp]" by blast
    with \<open>b' = e # es'\<close> show ?thesis by (intro Cons.prems(1) [of "Suc k"]) auto
  qed
qed simp

lemma set_update_nonzero:
  "k < length b \<Longrightarrow> b ! k = 0 \<Longrightarrow> set b - {0} \<subseteq> set (b[k := fp]) \<and> fp \<in> set (b[k := fp])"
proof -
  assume k: "k < length b" "b ! k = 0"
  then have "insert fp (set b - {0}) \<subseteq> set (b[k := fp])"
    by (auto simp: in_set_conv_nth nth_list_update) (metis length_list_update)+
  then show ?thesis by auto
qed

lemma used_update:
  assumes "k < length bs" and "j < length (bs ! k)"
  shows "used (bs[k := (bs ! k)[j := e]]) + of_bool (bs ! k ! j \<noteq> 0) = used bs + of_bool (e \<noteq> 0)"
proof -
  have u: "used bs = (\<Sum>b\<leftarrow>bs. length (filter (\<lambda>e. e \<noteq> 0) b))" for bs
    by (induction bs) (auto simp: used_def)
  have inner: "length (filter (\<lambda>e. e \<noteq> 0) ((bs ! k)[j := e])) + of_bool (bs ! k ! j \<noteq> 0) =
    length (filter (\<lambda>e. e \<noteq> 0) (bs ! k)) + of_bool (e \<noteq> 0)"
    using sum_list_update_nat [OF assms(2), of "\<lambda>e. of_bool (e \<noteq> 0)" e] by (simp add: length_filter_sum)
  show ?thesis
    using sum_list_update_nat [OF assms(1), of "\<lambda>b. length (filter (\<lambda>e. e \<noteq> 0) b)" "(bs ! k)[j := e]"] inner
    by (simp add: u)
qed

lemma add_at_Some:
  assumes ok: "buckets_ok msk bs" and i: "masked msk i" and nz: "fp \<noteq> 0"
    and eq: "add_at fp i bs = Some bs'"
  shows "buckets_ok msk bs'" and "fp \<in> set (bucket_at bs' i)" and "used bs' = Suc (used bs)"
    and "g \<noteq> 0 \<Longrightarrow> g \<in> set (bucket_at bs j) \<Longrightarrow> g \<in> set (bucket_at bs' j)"
proof -
  from eq obtain b where b: "add fp (bucket_at bs i) = Some b" and bs': "bs' = bs[unat i := b]"
    by (auto simp: add_at_def)
  from b obtain k where k: "k < length (bucket_at bs i)" "bucket_at bs i ! k = 0" "b = (bucket_at bs i)[k := fp]"
    by (rule add_SomeE)
  show "buckets_ok msk bs'" using ok i k by (simp add: bs' filter_simps)
  note upd = bucket_at_update [OF ok i]
  show "fp \<in> set (bucket_at bs' i)" using k set_update_nonzero [of k "bucket_at bs i" fp] by (simp add: bs' upd)
  show "used bs' = Suc (used bs)"
    using used_update [of "unat i" bs k fp] masked_in_range [OF ok i] k nz
    by (simp add: bs' bucket_at_def)
  show "g \<noteq> 0 \<Longrightarrow> g \<in> set (bucket_at bs j) \<Longrightarrow> g \<in> set (bucket_at bs' j)"
    using k set_update_nonzero [of k "bucket_at bs i" fp] by (auto simp: bs' upd)
qed

lemma add_at_None: "add_at fp i bs = None \<longleftrightarrow> 0 \<notin> set (bucket_at bs i)"
  by (simp add: add_at_def add_None_iff)

section \<open>Displacing entries\<close>

text \<open>A fingerprint \<open>g\<close> whose first bucket is \<open>j\<close> is \<open>held\<close> when one of its two buckets has it. While
  an insertion displaces entries, one fingerprint is out of the table: \<open>owed\<close> also counts that
  one, as long as the bucket it came from is one of its two.\<close>

definition held :: "u32 \<Rightarrow> bucket list \<Rightarrow> u32 \<Rightarrow> u32 \<Rightarrow> bool" where
  "held msk bs g j \<longleftrightarrow> g \<in> set (bucket_at bs j) \<or> g \<in> set (bucket_at bs (j XOR (g AND msk)))"

definition owed :: "u32 \<Rightarrow> bucket list \<Rightarrow> u32 \<Rightarrow> u32 \<Rightarrow> u32 \<Rightarrow> u32 \<Rightarrow> bool" where
  "owed msk bs fp i g j \<longleftrightarrow> held msk bs g j \<or> g = fp \<and> (j = i \<or> j = i XOR (fp AND msk))"

definition homeless :: "u32 \<Rightarrow> bucket list \<Rightarrow> u32 \<Rightarrow> u32 \<Rightarrow> bool" where
  "homeless msk bs fp i \<longleftrightarrow> buckets_ok msk bs \<and> masked msk i \<and> fp \<noteq> 0 \<and> 0 \<notin> set (bucket_at bs i)"

fun kick_ok :: "u32 \<Rightarrow> bucket list \<Rightarrow> u32 \<Rightarrow> u32 \<Rightarrow> kicked \<Rightarrow> bool" where
  "kick_ok msk bs fp i (Placed bs') \<longleftrightarrow>
     buckets_ok msk bs' \<and> used bs' = Suc (used bs) \<and>
     (\<forall>g j. g \<noteq> 0 \<longrightarrow> owed msk bs fp i g j \<longrightarrow> held msk bs' g j)"
| "kick_ok msk bs fp i (Displaced bs' fp' i') \<longleftrightarrow>
     homeless msk bs' fp' i' \<and> used bs' = used bs \<and>
     (\<forall>g j. g \<noteq> 0 \<longrightarrow> owed msk bs fp i g j \<longrightarrow> owed msk bs' fp' i' g j)"

lemma filter_test_held:
  "filter_test f x = held (num_buckets_mask f) (buckets f) (fp32_of x) (index_of (num_buckets_mask f) x)"
  by (auto simp: filter_test_def held_def find_two_iff Let_def)

lemma kick_ok_refl: "homeless msk bs fp i \<Longrightarrow> kick_ok msk bs fp i (Displaced bs fp i)"
  by simp

lemma kick_ok_trans:
  assumes "kick_ok msk bs fp i (Displaced bs' fp' i')" and "kick_ok msk bs' fp' i' r"
  shows "kick_ok msk bs fp i r"
  using assms by (cases r) auto

lemma add_at_owed:
  assumes "buckets_ok msk bs" and "masked msk i" and "fp \<noteq> 0"
    and "add_at fp i bs = Some bs'"
  shows "kick_ok msk bs fp i (Placed bs')"
  using add_at_Some [OF assms] by (auto simp: owed_def held_def)

lemma swap_ok:
  assumes h: "homeless msk bs fp i" and s: "slot < 4"
  defines "entry \<equiv> bucket_at bs i ! slot"
  defines "bs' \<equiv> bs[unat i := (bucket_at bs i)[slot := fp]]"
  defines "i' \<equiv> i XOR (entry AND msk)"
  shows "buckets_ok msk bs'" and "masked msk i'" and "entry \<noteq> 0" and "used bs' = used bs"
    and "owed msk bs fp i g j \<Longrightarrow> owed msk bs' entry i' g j"
proof -
  have ok: "buckets_ok msk bs" and i: "masked msk i" and fp: "fp \<noteq> 0" and full: "0 \<notin> set (bucket_at bs i)"
    using h by (auto simp: homeless_def)
  note [simp] = bucket_length [OF ok i]
  show "entry \<noteq> 0" using full s by (metis entry_def \<open>length (bucket_at bs i) = 4\<close> nth_mem)
  show "buckets_ok msk bs'" unfolding bs'_def using ok by (simp add: filter_simps)
  show "masked msk i'" unfolding i'_def using i by (rule masked_xor)
  show "used bs' = used bs"
    using used_update [of "unat i" bs slot fp] masked_in_range [OF ok i] fp \<open>entry \<noteq> 0\<close> s
      bucket_length [OF ok i]
    by (simp add: bs'_def entry_def bucket_at_def)
  have at: "bucket_at bs' k = (if k = i then (bucket_at bs i)[slot := fp] else bucket_at bs k)" for k
    unfolding bs'_def by (rule bucket_at_update [OF ok i])
  have fp_in: "fp \<in> set (bucket_at bs' i)" using s by (simp add: at set_update_memI)
  have keep: "g \<in> set (bucket_at bs k) \<Longrightarrow> g \<in> set (bucket_at bs' k) \<or> k = i \<and> g = entry" for k
    using s by (auto simp: at entry_def in_set_conv_nth nth_list_update)
  show "owed msk bs' entry i' g j" if "owed msk bs fp i g j"
    using that keep [of j] keep [of "j XOR (g AND msk)"] fp_in
    by (auto simp: owed_def held_def i'_def)
qed

lemma kick_inner_ok: "homeless msk bs fp i \<Longrightarrow> kick_ok msk bs fp i (kick_inner n seed msk bs fp i)"
proof (induction n seed msk bs fp i rule: kick_inner.induct)
  case (2 n seed msk bs fp i)
  define slot where "slot = unat (seed AND 3)"
  define entry where "entry = bucket_at bs i ! slot"
  define bs' where "bs' = bs[unat i := (bucket_at bs i)[slot := fp]]"
  define i' where "i' = i XOR (entry AND msk)"
  have "seed AND 3 \<le> 3" by (rule word_and_le1)
  then have s: "slot < 4" by (simp add: slot_def word_le_nat_alt)
  note sw = swap_ok [OF "2.prems" s, folded entry_def bs'_def, folded i'_def]
  show ?case
  proof (cases "add_at entry i' bs'")
    case None
    then have h': "homeless msk bs' entry i'"
      using sw(1-3) by (simp add: homeless_def add_at_None)
    then have k: "kick_ok msk bs fp i (Displaced bs' entry i')" using sw(4,5) by simp
    from "2.IH" [OF slot_def entry_def bs'_def i'_def None h']
    have "kick_ok msk bs' entry i' (kick_inner n (drop_bit 2 seed) msk bs' entry i')" .
    from kick_ok_trans [OF k this] None show ?thesis
      by (simp add: Let_def slot_def entry_def bs'_def i'_def)
  next
    case (Some bs'')
    from add_at_owed [OF sw(1-3) this]
    have "kick_ok msk bs fp i (Placed bs'')" using sw(4,5) by auto
    with Some show ?thesis by (simp add: Let_def slot_def entry_def bs'_def i'_def)
  qed
qed (simp add: kick_ok_refl)

lemma kick_outer_ok: "homeless msk bs fp i \<Longrightarrow> kick_ok msk bs fp i (fst (kick_outer uniform n gen msk bs fp i))"
proof (induction n arbitrary: gen bs fp i)
  case (Suc n)
  show ?case
  proof (cases "uniform gen")
    case (Pair seed gen')
    have k: "kick_ok msk bs fp i (kick_inner 32 seed msk bs fp i)" by (rule kick_inner_ok) (rule Suc.prems)
    show ?thesis
    proof (cases "kick_inner 32 seed msk bs fp i")
      case (Placed bs')
      with k Pair show ?thesis by simp
    next
      case (Displaced bs' fp' i')
      then have k': "kick_ok msk bs fp i (Displaced bs' fp' i')" using k by simp
      then have "homeless msk bs' fp' i'" by simp
      from kick_ok_trans [OF k' Suc.IH [OF this]] Displaced Pair show ?thesis by simp
    qed
  qed
qed (simp add: kick_ok_refl)

section \<open>The whole insertion\<close>

lemma filter_insert_cases:
  assumes ok: "filter_ok f"
  defines "msk \<equiv> num_buckets_mask f"
  shows "\<exists>r fp i gen. kick_ok msk (buckets f) fp i r \<and> fp = fp32_of x \<and>
      (i = index_of msk x \<or> i = index_of msk x XOR (fp AND msk)) \<and>
      filter_insert uniform f x =
        (case r of Placed bs \<Rightarrow> (True, f\<lparr>buckets := bs, filter_size := filter_size f + 1, filter_gen := gen\<rparr>)
         | Displaced bs _ _ \<Rightarrow> (False, f\<lparr>buckets := bs, filter_gen := gen\<rparr>))"
proof -
  let ?fp = "fp32_of x"
  let ?i = "index_of msk x"
  let ?i' = "?i XOR (?fp AND msk)"
  have bok: "buckets_ok msk (buckets f)" using ok by (simp add: filter_ok_def msk_def)
  have i: "masked msk ?i" and i': "masked msk ?i'" by (simp_all add: filter_simps)
  consider (one) bs where "add_at ?fp ?i (buckets f) = Some bs"
    | (two) bs where "add_at ?fp ?i (buckets f) = None" "add_at ?fp ?i' (buckets f) = Some bs"
    | (kick) "add_at ?fp ?i (buckets f) = None" "add_at ?fp ?i' (buckets f) = None"
    by (cases "add_at ?fp ?i (buckets f)"; cases "add_at ?fp ?i' (buckets f)") auto
  then show ?thesis
  proof cases
    case one
    from add_at_owed [OF bok i fp32_of_nonzero one] show ?thesis using one
      by (intro exI [of _ "Placed bs"] exI [of _ ?fp] exI [of _ ?i] exI [of _ "filter_gen f"])
        (simp add: filter_insert_def Let_def msk_def)
  next
    case two
    from add_at_owed [OF bok i' fp32_of_nonzero two(2)] show ?thesis using two
      by (intro exI [of _ "Placed bs"] exI [of _ ?fp] exI [of _ ?i'] exI [of _ "filter_gen f"])
        (simp add: filter_insert_def Let_def msk_def)
  next
    case kick
    then have "homeless msk (buckets f) ?fp ?i'" using bok i' by (simp add: homeless_def add_at_None)
    note k = kick_outer_ok [OF this, of uniform 16 "filter_gen f"]
    show ?thesis
    proof (cases "kick_outer uniform 16 (filter_gen f) msk (buckets f) ?fp ?i'")
      case (Pair r gen)
      with k kick show ?thesis
        by (intro exI [of _ r] exI [of _ ?fp] exI [of _ ?i'] exI [of _ gen])
          (simp add: filter_insert_def Let_def msk_def split: kicked.split)
    qed
  qed
qed

lemma filter_new_ok:
  assumes "num_buckets \<noteq> 0"
  shows "filter_ok (filter_new num_buckets gen)"
proof -
  have "unat num_buckets = Suc (unat (num_buckets - 1))"
    using assms by (simp add: unat_minus_one unat_gt_0 Suc_diff_Suc)
  then show ?thesis
    by (simp add: filter_ok_def buckets_ok_def filter_new_def filter_clear_def empty_bucket_def used_def
        list_all_iff)
qed

lemma filter_clear_ok: "buckets_ok (num_buckets_mask f) (buckets f) \<Longrightarrow> 1 + num_buckets_mask f \<noteq> 0 \<Longrightarrow>
  filter_ok (filter_clear f)"
  using unatSuc [of "num_buckets_mask f"]
  by (simp add: add.commute [of _ 1] filter_ok_def buckets_ok_def filter_clear_def empty_bucket_def used_def list_all_iff)

lemma used_le: "list_all (\<lambda>b. length b = 4) bs \<Longrightarrow> used bs \<le> 4 * length bs"
proof (induction bs)
  case (Cons b bs)
  then show ?case using length_filter_le [of "\<lambda>e. e \<noteq> 0" b] by (simp add: used_def)
qed (simp add: used_def)

text \<open>A filter without a free entry refuses every insertion.\<close>

lemma filter_full_fails:
  assumes "filter_ok f" and "used (buckets f) = 4 * length (buckets f)"
  shows "\<not> fst (filter_insert uniform f x)"
proof
  assume "fst (filter_insert uniform f x)"
  obtain r fp i gen where k: "kick_ok (num_buckets_mask f) (buckets f) fp i r"
    and eq: "filter_insert uniform f x =
        (case r of Placed bs \<Rightarrow> (True, f\<lparr>buckets := bs, filter_size := filter_size f + 1, filter_gen := gen\<rparr>)
         | Displaced bs _ _ \<Rightarrow> (False, f\<lparr>buckets := bs, filter_gen := gen\<rparr>))"
    using filter_insert_cases [OF assms(1), of x uniform] by blast
  with \<open>fst (filter_insert uniform f x)\<close> obtain bs where "r = Placed bs" by (cases r) auto
  with k have "kick_ok (num_buckets_mask f) (buckets f) fp i (Placed bs)" by simp
  then show False using used_le [of bs] assms by (simp add: buckets_ok_def filter_ok_def)
qed

lemma replicate_2_4: "replicate 2 a = [a, a]" "replicate 4 a = [a, a, a, a]"
  by (simp_all add: eval_nat_numeral)

lemma filter_new_2:
  "filter_new 2 gen = \<lparr>buckets = [[0, 0, 0, 0], [0, 0, 0, 0]], num_buckets_mask = 1, filter_size = 0, filter_gen = gen\<rparr>"
proof -
  show ?thesis by (simp add: filter_new_def filter_clear_def empty_bucket_def replicate_2_4)
qed

lemma filter_insert_keeps:
  assumes "filter_ok f" and "filter_insert uniform f x = (True, f')"
  shows "filter_ok f' \<and> filter_size f' = filter_size f + 1 \<and> filter_test f' x \<and>
    (\<forall>y. filter_test f y \<longrightarrow> filter_test f' y)"
proof -
  let ?m = "num_buckets_mask f"
  obtain r i gen where k: "kick_ok ?m (buckets f) (fp32_of x) i r"
    and i: "i = index_of ?m x \<or> i = index_of ?m x XOR (fp32_of x AND ?m)"
    and eq: "filter_insert uniform f x =
        (case r of Placed bs \<Rightarrow> (True, f\<lparr>buckets := bs, filter_size := filter_size f + 1, filter_gen := gen\<rparr>)
         | Displaced bs _ _ \<Rightarrow> (False, f\<lparr>buckets := bs, filter_gen := gen\<rparr>))"
    using filter_insert_cases [OF assms(1), of x uniform] by blast
  obtain bs where r: "r = Placed bs" and f': "f' = f\<lparr>buckets := bs, filter_size := filter_size f + 1, filter_gen := gen\<rparr>"
    using eq assms(2) by (cases r) auto
  have keep: "owed ?m (buckets f) (fp32_of x) i g j \<Longrightarrow> held ?m bs g j" if "g \<noteq> 0" for g j
    using k that by (simp add: r)
  have "filter_test f' x" using keep [of "fp32_of x"] i by (auto simp: f' filter_test_held owed_def)
  moreover have "filter_test f y \<Longrightarrow> filter_test f' y" for y
    using keep by (auto simp: f' filter_test_held owed_def)
  moreover have "filter_ok f'" using k assms(1) by (simp add: r f' filter_ok_def)
  ultimately show ?thesis by (simp add: f')
qed

text \<open>C5. An insertion that reports success keeps the invariant (buckets of four, the size field counts
  the occupied entries), makes its fingerprint test positive, and loses no fingerprint that tested
  positive before, however many entries were displaced.\<close>

theorem filter_insert_success:
  assumes "filter_ok f" and "filter_insert uniform f x = (True, f')"
  shows "filter_ok f' \<and> filter_size f' = filter_size f + 1 \<and> filter_test f' x \<and>
    (\<forall>y. filter_test f y \<longrightarrow> filter_test f' y)"
  using assms by (rule filter_insert_keeps)

theorem filter_insert_success_witness:
  "filter_test (snd (filter_insert (\<lambda>g. (g, g)) (filter_new 2 (0 :: u64)) 5)) 5"
proof -
  let ?f = "filter_new 2 (0 :: u64)"
  have ok: "filter_ok ?f" by (rule filter_new_ok) simp
  have "fst (filter_insert (\<lambda>g. (g, g)) ?f 5)"
    by (simp add: filter_insert_def filter_new_2 add_at_def bucket_at_def index_of_def Let_def)
  then have "filter_insert (\<lambda>g. (g, g)) ?f 5 = (True, snd (filter_insert (\<lambda>g. (g, g)) ?f 5))"
    by (simp add: prod_eq_iff)
  from filter_insert_success [OF ok this] show ?thesis by blast
qed

lemma filter_insert_loses:
  assumes "filter_ok f" and "filter_insert uniform f x = (False, f')"
  shows "filter_ok f' \<and> filter_size f' = filter_size f \<and>
    (\<exists>h. \<forall>y. fp32_of y \<noteq> h \<and> (filter_test f y \<or> y = x) \<longrightarrow> filter_test f' y)"
proof -
  let ?m = "num_buckets_mask f"
  obtain r i gen where k: "kick_ok ?m (buckets f) (fp32_of x) i r"
    and i: "i = index_of ?m x \<or> i = index_of ?m x XOR (fp32_of x AND ?m)"
    and eq: "filter_insert uniform f x =
        (case r of Placed bs \<Rightarrow> (True, f\<lparr>buckets := bs, filter_size := filter_size f + 1, filter_gen := gen\<rparr>)
         | Displaced bs _ _ \<Rightarrow> (False, f\<lparr>buckets := bs, filter_gen := gen\<rparr>))"
    using filter_insert_cases [OF assms(1), of x uniform] by blast
  obtain bs h j where r: "r = Displaced bs h j" and f': "f' = f\<lparr>buckets := bs, filter_gen := gen\<rparr>"
    using eq assms(2) by (cases r) auto
  have "filter_test f' y" if "fp32_of y \<noteq> h" "filter_test f y \<or> y = x" for y
  proof -
    have "owed ?m (buckets f) (fp32_of x) i (fp32_of y) (index_of ?m y)"
      using that(2) i by (auto simp: filter_test_held owed_def)
    then have "owed ?m bs h j (fp32_of y) (index_of ?m y)"
      using k unfolding r kick_ok.simps by (meson fp32_of_nonzero)
    with that(1) show ?thesis by (simp add: f' filter_test_held owed_def)
  qed
  moreover have "filter_ok f'" using k assms(1) by (simp add: r f' filter_ok_def homeless_def)
  ultimately show ?thesis by (auto simp: f')
qed

text \<open>C6. An insertion that reports failure (after 512 displacements) leaves the size field alone and
  drops exactly one fingerprint value \<open>h\<close>, which need not be the one being inserted: every fingerprint
  with another 32-bit value that tested positive still does, and so does the new one.\<close>

theorem filter_insert_failure:
  assumes "filter_ok f" and "filter_insert uniform f x = (False, f')"
  shows "filter_ok f' \<and> filter_size f' = filter_size f \<and>
    (\<exists>h. \<forall>y. fp32_of y \<noteq> h \<and> (filter_test f y \<or> y = x) \<longrightarrow> filter_test f' y)"
  using assms by (rule filter_insert_loses)

theorem filter_insert_failure_witness:
  "filter_size (snd (filter_insert (\<lambda>g. (g, g)) (filter_new 1 (0 :: u64)\<lparr>buckets := [[1, 2, 3, 4]], filter_size := 4\<rparr>) 5)) = 4"
proof -
  let ?f = "filter_new 1 (0 :: u64)\<lparr>buckets := [[1, 2, 3, 4]], filter_size := 4\<rparr>"
  have ok: "filter_ok ?f"
    by (simp add: filter_ok_def buckets_ok_def filter_new_def filter_clear_def used_def)
  have full: "used (buckets ?f) = 4 * length (buckets ?f)" by (simp add: used_def)
  have "\<not> fst (filter_insert (\<lambda>g. (g, g)) ?f 5)" by (rule filter_full_fails) fact+
  then have "filter_insert (\<lambda>g. (g, g)) ?f 5 = (False, snd (filter_insert (\<lambda>g. (g, g)) ?f 5))"
    by (simp add: prod_eq_iff)
  from filter_insert_failure [OF ok this]
  have "filter_size (snd (filter_insert (\<lambda>g. (g, g)) ?f 5)) = filter_size ?f" by blast
  then show ?thesis by simp
qed

section \<open>The filter as an approximate set\<close>

text \<open>What a client relies on: a set that never forgets, as long as its insertions succeed.\<close>

primrec insert_all :: "('s \<Rightarrow> 'k \<Rightarrow> bool \<times> 's) \<Rightarrow> 's \<Rightarrow> 'k list \<Rightarrow> 's option" where
  "insert_all ins s [] = Some s"
| "insert_all ins s (x # xs) = (case ins s x of (True, s') \<Rightarrow> insert_all ins s' xs | (False, _) \<Rightarrow> None)"

locale approximate_set =
  fixes ok :: "'s \<Rightarrow> bool" and ins :: "'s \<Rightarrow> 'k \<Rightarrow> bool \<times> 's" and member :: "'s \<Rightarrow> 'k \<Rightarrow> bool"
  assumes ins_ok: "ok s \<Longrightarrow> ins s x = (True, s') \<Longrightarrow> ok s'"
    and ins_member: "ok s \<Longrightarrow> ins s x = (True, s') \<Longrightarrow> member s' x"
    and ins_keeps: "ok s \<Longrightarrow> ins s x = (True, s') \<Longrightarrow> member s y \<Longrightarrow> member s' y"
begin

lemma insert_all_members:
  "ok s \<Longrightarrow> insert_all ins s xs = Some s' \<Longrightarrow> ok s' \<and> (\<forall>y. y \<in> set xs \<or> member s y \<longrightarrow> member s' y)"
proof (induction xs arbitrary: s)
  case (Cons x xs)
  then obtain t where t: "ins s x = (True, t)" "insert_all ins t xs = Some s'"
    by (auto split: prod.splits bool.splits)
  from Cons.IH [OF ins_ok [OF Cons.prems(1) t(1)] t(2)] show ?case
    using ins_member [OF Cons.prems(1) t(1)] ins_keeps [OF Cons.prems(1) t(1)] by auto
qed simp

end

interpretation cuckoo: approximate_set filter_ok "filter_insert uniform" filter_test
  for uniform :: "'g \<Rightarrow> u64 \<times> 'g"
  using filter_insert_keeps by unfold_locales blast+

text \<open>A new filter tests negative for everything.\<close>

lemma filter_new_empty:
  assumes "num_buckets \<noteq> 0"
  shows "\<not> filter_test (filter_new num_buckets gen) x"
proof -
  let ?f = "filter_new num_buckets gen"
  have ok: "buckets_ok (num_buckets_mask ?f) (buckets ?f)"
    using filter_new_ok [OF assms, of gen] by (simp add: filter_ok_def)
  have "bucket_at (buckets ?f) i = empty_bucket" if "masked (num_buckets_mask ?f) i" for i
    using masked_in_range [OF ok that] assms by (simp add: bucket_at_def filter_new_def filter_clear_def)
  then show ?thesis
    by (simp add: filter_test_held held_def filter_simps empty_bucket_def)
qed



end
