(* ===== verification/Filter_Stats.thy ===== *)
theory Filter_Stats
  imports Hash_Filter
begin

text \<open>
  \<^verbatim>\<open>util/hash-filter_stats.cc\<close>: the program that fills a filter with random fingerprints and counts how it answers for them and for
  others. The random generator of the program and the one inside the filter are parameters, each a
  function from its state to a number and the next state; the three numbers of the program are too: it makes
  262144 buckets, inserts 950000 fingerprints and tests 10000000 others.
\<close>

fun insert_random ::
    "('h \<Rightarrow> u64 \<times> 'h) \<Rightarrow> ('g \<Rightarrow> u64 \<times> 'g) \<Rightarrow> nat \<Rightarrow> 'h \<Rightarrow> 'g hash_filter \<Rightarrow> u64 list \<Rightarrow> 'h \<times> 'g hash_filter \<times> u64 list" where
  "insert_random random uniform 0 h f fingerprints = (h, f, fingerprints)"
| "insert_random random uniform (Suc i) h f fingerprints =
     (case random h of (fingerprint, h') \<Rightarrow>
        insert_random random uniform i h' (snd (filter_insert uniform f fingerprint)) (fingerprints @ [fingerprint]))"

text \<open>How many of the fingerprints test positive and how many negative.\<close>

fun count_tests :: "'g hash_filter \<Rightarrow> u64 list \<Rightarrow> nat \<times> nat \<Rightarrow> nat \<times> nat" where
  "count_tests f [] counts = counts"
| "count_tests f (x # xs) (positive, negative) =
     count_tests f xs (if filter_test f x then (positive + 1, negative) else (positive, negative + 1))"

fun count_random :: "('h \<Rightarrow> u64 \<times> 'h) \<Rightarrow> 'g hash_filter \<Rightarrow> nat \<Rightarrow> 'h \<Rightarrow> nat \<times> nat \<Rightarrow> nat \<times> nat" where
  "count_random random f 0 h counts = counts"
| "count_random random f (Suc i) h (positive, negative) =
     (case random h of (x, h') \<Rightarrow>
        count_random random f i h' (if filter_test f x then (positive + 1, negative) else (positive, negative + 1)))"

record filter_stats =
  st_inserted :: u32
  st_true_positives :: nat
  st_false_negatives :: nat
  st_false_positives :: nat
  st_true_negatives :: nat

definition filter_stats_main :: "('h \<Rightarrow> u64 \<times> 'h) \<Rightarrow> ('g \<Rightarrow> u64 \<times> 'g) \<Rightarrow> u32 \<Rightarrow> nat \<Rightarrow> nat \<Rightarrow> 'h \<Rightarrow> 'g \<Rightarrow> filter_stats" where
  "filter_stats_main random uniform num_buckets inserts tests h gen =
     (case insert_random random uniform inserts h (filter_new num_buckets gen) [] of (h', f, fingerprints) \<Rightarrow>
        case count_tests f fingerprints (0, 0) of (true_positives, false_negatives) \<Rightarrow>
          case count_random random f tests h' (0, 0) of (false_positives, true_negatives) \<Rightarrow>
            \<lparr>st_inserted = filter_size f, st_true_positives = true_positives, st_false_negatives = false_negatives,
             st_false_positives = false_positives, st_true_negatives = true_negatives\<rparr>)"

section \<open>Lemmas\<close>

lemma count_tests_eq:
  "count_tests f xs (p, n) = (p + length (filter (filter_test f) xs), n + length (filter (\<lambda>x. \<not> filter_test f x) xs))"
  by (induction xs arbitrary: p n) auto

lemma count_random_total: "fst (count_random random f k h (p, n)) + snd (count_random random f k h (p, n)) = p + n + k"
  by (induction k arbitrary: h p n) (auto split: prod.split)

lemma insert_random_length: "insert_random random uniform k h f xs = (h', f', ys) \<Longrightarrow> length ys = length xs + k"
  by (induction k arbitrary: h f xs) (auto split: prod.splits)

text \<open>The size field counts the insertions that succeeded; if it shows all of them, every one did.\<close>

lemma insert_random_size:
  assumes "insert_random random uniform k h f xs = (h', f', ys)" and "filter_ok f"
  shows "filter_ok f' \<and> (\<exists>j zs. ys = xs @ zs \<and> filter_size f' = filter_size f + of_nat j \<and> j \<le> k \<and>
    (j = k \<longrightarrow> insert_all (filter_insert uniform) f zs = Some f'))"
  using assms
proof (induction k arbitrary: h f xs)
  case (Suc k)
  obtain x g where x: "random h = (x, g)" by fastforce
  obtain b t where ins: "filter_insert uniform f x = (b, t)" by fastforce
  have t: "filter_ok t \<and> filter_size t = filter_size f + (if b then 1 else 0)"
    using filter_insert_keeps [OF Suc.prems(2), of uniform x t] filter_insert_loses [OF Suc.prems(2), of uniform x t] ins by (cases b) auto
  from Suc.IH [of g t "xs @ [x]"] Suc.prems t obtain j zs where j: "filter_ok f'" "ys = (xs @ [x]) @ zs"
      "filter_size f' = filter_size t + of_nat j" "j \<le> k" "j = k \<longrightarrow> insert_all (filter_insert uniform) t zs = Some f'"
    by (auto simp: x ins)
  show ?case
    by (intro conjI j(1) exI [of _ "j + (if b then 1 else 0)"] exI [of _ "x # zs"]) (use j t ins in \<open>auto split: if_splits\<close>)
qed auto

text \<open>What the printed numbers mean: they add up to the fingerprints tested, and if the program reports all insertions as
  inserted, it reports no false negative.\<close>

theorem filter_stats_counts:
  assumes "num_buckets \<noteq> 0" and "inserts < 2 ^ 32"
  shows "let r = filter_stats_main random uniform num_buckets inserts tests h gen
    in st_true_positives r + st_false_negatives r = inserts \<and> st_false_positives r + st_true_negatives r = tests \<and>
       (st_inserted r = of_nat inserts \<longrightarrow> st_false_negatives r = 0)"
proof -
  let ?f = "filter_new num_buckets gen"
  obtain h' f ys where r: "insert_random random uniform inserts h ?f [] = (h', f, ys)" by (rule prod_cases3)
  have new: "filter_ok ?f" "filter_size ?f = 0" using filter_new_ok [OF assms(1)] by (simp_all add: filter_new_def filter_clear_def)
  from insert_random_size [OF r new(1)] obtain j where j: "filter_size f = of_nat j" "j \<le> inserts"
    "j = inserts \<longrightarrow> insert_all (filter_insert uniform) ?f ys = Some f" by (auto simp: new(2))
  have "filter (\<lambda>x. \<not> filter_test f x) ys = []" if "filter_size f = of_nat inserts"
  proof -
    have "unat (of_nat j :: u32) = j" "unat (of_nat inserts :: u32) = inserts"
      using j(2) assms(2) by (intro unat_of_nat_small; simp)+
    then have "j = inserts" using that j(1) by metis
    then show ?thesis using j(3) cuckoo.insert_all_members [OF new(1), of uniform ys f] by (auto simp: filter_empty_conv)
  qed
  moreover have "length (filter (filter_test f) ys) + length (filter (\<lambda>x. \<not> filter_test f x) ys) = inserts"
    using insert_random_length [OF r] sum_length_filter_compl [of "filter_test f" ys] by simp
  ultimately show ?thesis using count_random_total [of random f tests h' 0 0]
    by (cases "count_random random f tests h' (0, 0)") (simp add: filter_stats_main_def r count_tests_eq Let_def)
qed

end
