(* ===== verification/File_Interface.thy ===== *)
theory File_Interface
  imports Trunk_Prelude
begin

text \<open>
  \<^verbatim>\<open>io/file.h\<close>: the abstract class \<^verbatim>\<open>io::File\<close> as a record of its virtual methods over a state \<open>'f\<close>.
  A read of \<open>n\<close> bytes returns the bytes it put at the front of the caller's buffer, so that
  \<^verbatim>\<open>size\<close> is their number; a write returns how many bytes it took.

  The locale \<open>file_contract\<close> is the contract that the callers of \<^verbatim>\<open>io/file-utils\<close>, \<^verbatim>\<open>io/line-reader\<close> and
  \<^verbatim>\<open>io/stream\<close> rely on: transfers may be short and may fail, but a successful one transfers at
  least one byte unless there is nothing to transfer. \<open>full_file\<close> adds what \<^verbatim>\<open>db/sstable\<close> relies
  on: transfers are complete and the operations it uses do not fail.
\<close>

record 'f file_ops =
  read_op :: "'f \<Rightarrow> nat \<Rightarrow> (errc + bytes) \<times> 'f"
  write_op :: "'f \<Rightarrow> bytes \<Rightarrow> (errc + nat) \<times> 'f"
  pread_op :: "'f \<Rightarrow> int \<Rightarrow> nat \<Rightarrow> (errc + bytes) \<times> 'f"
  pwrite_op :: "'f \<Rightarrow> int \<Rightarrow> bytes \<Rightarrow> (errc + nat) \<times> 'f"
  seek_op :: "'f \<Rightarrow> int \<Rightarrow> errc option \<times> 'f"
  tell_op :: "'f \<Rightarrow> (errc + int) \<times> 'f"
  size_op :: "'f \<Rightarrow> (errc + int) \<times> 'f"

text \<open>The contents after writing \<open>xs\<close> at offset \<open>p\<close>: a gap is filled with zeros.\<close>

definition put_bytes :: "nat \<Rightarrow> bytes \<Rightarrow> bytes \<Rightarrow> bytes" where
  "put_bytes p xs c =
     overwrite p xs (if p + length xs > length c then resize (p + length xs) 0 c else c)"

lemma put_bytes_at_end [buffer_simps]: "put_bytes (length c) xs c = c @ xs"
  by (auto simp: put_bytes_def buffer_simps)

lemma put_bytes_inside:
  "p \<le> length c \<Longrightarrow> put_bytes p xs c = take p c @ xs @ drop (p + length xs) c"
  by (simp add: put_bytes_def overwrite_def resize_def)

lemma put_bytes_append:
  assumes "p \<le> length c"
  shows "put_bytes (p + length xs) ys (put_bytes p xs c) = put_bytes p (xs @ ys) c"
proof -
  have "put_bytes (p + length xs) ys (put_bytes p xs c) =
      take (p + length xs) (put_bytes p xs c) @ ys @ drop (p + length xs + length ys) (put_bytes p xs c)"
    by (rule put_bytes_inside) (use assms in \<open>simp add: put_bytes_inside\<close>)
  then show ?thesis using assms by (simp add: put_bytes_inside ac_simps)
qed

lemma put_bytes_gap:
  "length c < p \<Longrightarrow> put_bytes p xs c = c @ replicate (p - length c) 0 @ xs"
  by (auto simp: put_bytes_def overwrite_def resize_def replicate_add [symmetric] take_replicate min_def)

lemma length_put_bytes: "length (put_bytes p xs c) = max (length c) (p + length xs)"
  by (auto simp: put_bytes_def buffer_simps max_def)

lemma take_put_bytes: "p \<le> length c \<Longrightarrow> take p (put_bytes p xs c) = take p c"
  by (auto simp: put_bytes_def overwrite_def resize_def)

lemma put_bytes_read_back: "take (length xs) (drop p (put_bytes p xs c)) = xs"
  by (auto simp: put_bytes_def overwrite_def resize_def min_def)

locale file_contract =
  fixes ops :: "'f file_ops" and contents :: "'f \<Rightarrow> bytes" and pos :: "'f \<Rightarrow> nat"
  assumes read_contents: "read_op ops f n = (r, f') \<Longrightarrow> contents f' = contents f"
    and read_bytes: "read_op ops f n = (Inr xs, f') \<Longrightarrow>
      length xs \<le> n \<and> xs = take (length xs) (drop (pos f) (contents f)) \<and> pos f' = pos f + length xs"
    and read_progress: "read_op ops f n = (Inr [], f') \<Longrightarrow> n = 0 \<or> length (contents f) \<le> pos f"
    and write_bytes: "xs \<noteq> [] \<Longrightarrow> write_op ops f xs = (Inr k, f') \<Longrightarrow>
      0 < k \<and> k \<le> length xs \<and> pos f' = pos f + k \<and> contents f' = put_bytes (pos f) (take k xs) (contents f)"
begin

definition rest :: "'f \<Rightarrow> bytes" where
  "rest f = drop (pos f) (contents f)"

lemma read_rest:
  assumes "read_op ops f n = (Inr xs, f')"
  shows "rest f = xs @ rest f'" and "length xs \<le> n" and "xs = [] \<Longrightarrow> n = 0 \<or> rest f = []"
proof -
  have xs: "xs = take (length xs) (rest f)" and p: "pos f' = pos f + length xs"
    using read_bytes [OF assms] by (simp_all add: rest_def)
  have "rest f' = drop (length xs) (rest f)"
    using read_contents [OF assms] p by (simp add: rest_def add.commute)
  with xs show "rest f = xs @ rest f'" by (metis append_take_drop_id)
  show "length xs \<le> n" using read_bytes [OF assms] by simp
  show "xs = [] \<Longrightarrow> n = 0 \<or> rest f = []"
    using read_progress [of f n f'] assms by (simp add: rest_def)
qed

end

locale full_file = file_contract ops contents pos
  for ops :: "'f file_ops" and contents :: "'f \<Rightarrow> bytes" and pos :: "'f \<Rightarrow> nat" +
  assumes read_full: "\<exists>f'. read_op ops f n = (Inr (take n (drop (pos f) (contents f))), f')"
    and write_full: "\<exists>f'. write_op ops f xs = (Inr (length xs), f')"
    and pread_full: "\<exists>f'. pread_op ops f (int p) n = (Inr (take n (drop p (contents f))), f') \<and>
      contents f' = contents f \<and> pos f' = pos f"
    and size_full: "\<exists>f'. size_op ops f = (Inr (int (length (contents f))), f') \<and>
      contents f' = contents f \<and> pos f' = pos f"
    and write_nothing: "pos f \<le> length (contents f) \<Longrightarrow> write_op ops f [] = (r, f') \<Longrightarrow>
      contents f' = contents f \<and> pos f' = pos f"
begin

lemma write_at_end:
  assumes "pos f = length (contents f)"
  obtains f' where "write_op ops f xs = (Inr (length xs), f')"
    and "contents f' = contents f @ xs" and "pos f' = length (contents f')"
proof -
  obtain f' where w: "write_op ops f xs = (Inr (length xs), f')" using write_full by blast
  show ?thesis
  proof (cases "xs = []")
    case True
    then have "contents f' = contents f \<and> pos f' = pos f"
      using write_nothing [of f "Inr (length xs)" f'] w assms by simp
    with True assms show ?thesis by (intro that [OF w]) simp_all
  next
    case False
    from write_bytes [OF this w] assms show ?thesis
      by (intro that [OF w]) (simp_all add: buffer_simps)
  qed
qed

end

end
