(* ===== verification/Memory_File.thy ===== *)
theory Memory_File
  imports File_Interface
begin

text \<open>
  \<^verbatim>\<open>io/memory-file.h\<close> and \<^verbatim>\<open>io/memory-file.cc\<close>: a file in a byte vector, with a read/write position
  that may lie beyond the end. Offsets are mathematical integers; a vector of more than
  \<^verbatim>\<open>2 ^ 63\<close> bytes cannot be allocated, so the sums of the source do not wrap.
\<close>

record memory_file =
  content :: bytes
  position :: nat

definition memory_file_new :: "bytes \<Rightarrow> memory_file" where
  "memory_file_new c = \<lparr>content = c, position = 0\<rparr>"

definition mf_read :: "memory_file \<Rightarrow> nat \<Rightarrow> (errc + bytes) \<times> memory_file" where
  "mf_read f n =
     (if position f \<ge> length (content f) then (Inr [], f)
      else let last = min (position f + n) (length (content f))
           in (Inr (take (last - position f) (drop (position f) (content f))), f\<lparr>position := last\<rparr>))"

definition mf_write :: "memory_file \<Rightarrow> bytes \<Rightarrow> (errc + nat) \<times> memory_file" where
  "mf_write f xs =
     (let last = position f + length xs;
          c = (if last > length (content f) then resize last 0 (content f) else content f)
      in (Inr (length xs), \<lparr>content = overwrite (position f) xs c, position = position f + length xs\<rparr>))"

definition mf_pread :: "memory_file \<Rightarrow> int \<Rightarrow> nat \<Rightarrow> (errc + bytes) \<times> memory_file" where
  "mf_pread f p n =
     (if p < 0 then (Inl Invalid_argument, f)
      else if nat p \<ge> length (content f) then (Inr [], f)
      else let last = min (nat p + n) (length (content f))
           in (Inr (take (last - nat p) (drop (nat p) (content f))), f))"

definition mf_pwrite :: "memory_file \<Rightarrow> int \<Rightarrow> bytes \<Rightarrow> (errc + nat) \<times> memory_file" where
  "mf_pwrite f p xs =
     (if p < 0 then (Inl Invalid_argument, f)
      else let last = nat p + length xs;
               c = (if last > length (content f) then resize last 0 (content f) else content f)
           in (Inr (length xs), f\<lparr>content := overwrite (nat p) xs c\<rparr>))"

definition mf_seek :: "memory_file \<Rightarrow> int \<Rightarrow> errc option \<times> memory_file" where
  "mf_seek f p = (if p < 0 then (Some Invalid_seek, f) else (None, f\<lparr>position := nat p\<rparr>))"

definition mf_tell :: "memory_file \<Rightarrow> (errc + int) \<times> memory_file" where
  "mf_tell f = (Inr (int (position f)), f)"

definition mf_size :: "memory_file \<Rightarrow> (errc + int) \<times> memory_file" where
  "mf_size f = (Inr (int (length (content f))), f)"

definition memory_ops :: "memory_file file_ops" where
  "memory_ops = \<lparr>read_op = mf_read, write_op = mf_write, pread_op = mf_pread, pwrite_op = mf_pwrite,
     seek_op = mf_seek, tell_op = mf_tell, size_op = mf_size\<rparr>"

section \<open>The operations in closed form\<close>

lemma mf_read_eq: "mf_read f n = (Inr (take n (drop (position f) (content f))),
    f\<lparr>position := position f + length (take n (drop (position f) (content f)))\<rparr>)"
  by (cases f) (auto simp: mf_read_def Let_def min_def)

lemma mf_write_eq: "mf_write f xs = (Inr (length xs),
    \<lparr>content = put_bytes (position f) xs (content f), position = position f + length xs\<rparr>)"
  by (simp add: mf_write_def put_bytes_def Let_def)

lemma mf_pread_eq: "0 \<le> p \<Longrightarrow> mf_pread f p n = (Inr (take n (drop (nat p) (content f))), f)"
  by (auto simp: mf_pread_def Let_def min_def)

lemma mf_pwrite_eq: "0 \<le> p \<Longrightarrow>
  mf_pwrite f p xs = (Inr (length xs), f\<lparr>content := put_bytes (nat p) xs (content f)\<rparr>)"
  by (simp add: mf_pwrite_def put_bytes_def Let_def)

interpretation memory: full_file memory_ops content position
proof unfold_locales
  fix f :: memory_file and xs r f'
  assume "position f \<le> length (content f)" "write_op memory_ops f [] = (r, f')"
  then show "content f' = content f \<and> position f' = position f"
    by (auto simp: memory_ops_def mf_write_eq put_bytes_def overwrite_def)
qed (auto simp: memory_ops_def mf_read_eq mf_write_eq mf_pread_eq mf_size_def min_def)

text \<open>Positioned reads and writes of a memory file are those of a flat byte array: a write at
  offset \<open>p\<close> is read back, every other byte (and the position) is untouched, and a gap between the
  old end and \<open>p\<close> reads as zeros.\<close>

theorem memory_pwrite_pread:
  assumes "0 \<le> p" and "mf_pwrite f p xs = (Inr k, f')" and "0 \<le> q"
  shows "k = length xs \<and> position f' = position f \<and>
    fst (mf_pread f' q 1) =
      (if nat p \<le> nat q \<and> nat q < nat p + length xs then Inr [xs ! (nat q - nat p)]
       else if nat q < length (content f) then fst (mf_pread f q 1)
       else if nat q < nat p then Inr [0] else Inr [])"
proof -
  have f': "k = length xs" "f' = f\<lparr>content := put_bytes (nat p) xs (content f)\<rparr>"
    using assms by (auto simp: mf_pwrite_eq)
  have one: "take (Suc 0) (drop i c) = (if i < length c then [c ! i] else [])" for i and c :: bytes
    by (auto simp: take_Suc hd_drop_conv_nth)
  have len: "length (resize n 0 (content f)) = n" for n by simp
  have nth: "put_bytes (nat p) xs (content f) ! i =
      (if nat p \<le> i \<and> i < nat p + length xs then xs ! (i - nat p)
       else if i < length (content f) then content f ! i else 0)"
    if "i < max (length (content f)) (nat p + length xs)" for i
    using that by (auto simp: put_bytes_def nth_overwrite resize_def nth_append)
  show ?thesis
    using assms(1,3) by (auto simp: f' mf_pread_eq one nth length_put_bytes less_max_iff_disj)
qed

theorem memory_pwrite_pread_witness:
  "fst (mf_pread (snd (mf_pwrite (memory_file_new [1, 2]) 4 [7])) 4 1) = Inr [7]"
  using memory_pwrite_pread [of 4 "memory_file_new [1, 2]" "[7]" 1 "snd (mf_pwrite (memory_file_new [1, 2]) 4 [7])" 4]
  by (simp add: mf_pwrite_eq)

end
