(* ===== verification/File_Utils.thy ===== *)
theory File_Utils
  imports Memory_File
begin

text \<open>
  \<^verbatim>\<open>io/file-utils.h\<close> and \<^verbatim>\<open>io/file-utils.cc\<close>: the loops that complete short transfers. The read loop
  ends for every file; \<^verbatim>\<open>read_to_end\<close> and \<^verbatim>\<open>write\<close> may not, so they are partial functions and the
  lemmas show that they return on every file that keeps the contract.
\<close>

text \<open>\<^verbatim>\<open>io::read\<close>: the error, if any, and the bytes put into the buffer until then.\<close>

function read_all :: "'f file_ops \<Rightarrow> 'f \<Rightarrow> nat \<Rightarrow> errc option \<times> bytes \<times> 'f" where
  "read_all ops f n =
     (if n = 0 then (None, [], f)
      else case read_op ops f n of
             (Inl ec, f') \<Rightarrow> (Some ec, [], f')
           | (Inr xs, f') \<Rightarrow>
               if xs = [] then (None, [], f')
               else case read_all ops f' (n - length xs) of (ec, ys, f'') \<Rightarrow> (ec, xs @ ys, f''))"
  by pat_completeness auto
termination
  by (relation "measure (\<lambda>(ops, f, n). n)") auto

declare read_all.simps [simp del]

partial_function (option) read_to_end_loop ::
    "'f file_ops \<Rightarrow> nat \<Rightarrow> 'f \<Rightarrow> bytes \<Rightarrow> ((errc + bytes) \<times> 'f) option" where
  "read_to_end_loop ops buffer_size f acc =
     (case read_op ops f buffer_size of
        (Inl ec, f') \<Rightarrow> Some (Inl ec, f')
      | (Inr xs, f') \<Rightarrow>
          if xs = [] then Some (Inr acc, f')
          else read_to_end_loop ops buffer_size f' (acc @ xs))"

definition read_to_end :: "'f file_ops \<Rightarrow> nat \<Rightarrow> 'f \<Rightarrow> ((errc + bytes) \<times> 'f) option" where
  "read_to_end ops buffer_size f = read_to_end_loop ops buffer_size f []"

text \<open>\<^verbatim>\<open>io::write\<close>: the error, if any.\<close>

partial_function (option) write_all :: "'f file_ops \<Rightarrow> 'f \<Rightarrow> bytes \<Rightarrow> (errc option \<times> 'f) option" where
  "write_all ops f xs =
     (if xs = [] then Some (None, f)
      else case write_op ops f xs of
             (Inl ec, f') \<Rightarrow> Some (Some ec, f')
           | (Inr k, f') \<Rightarrow> write_all ops f' (drop k xs))"

section \<open>The loops under the file contract\<close>

context file_contract
begin

lemma read_all_rest:
  "read_all ops f n = (ec, xs, f') \<Longrightarrow>
   take (length xs) (rest f) = xs \<and> length xs \<le> n \<and> contents f' = contents f \<and>
   (ec = None \<longrightarrow> rest f = xs @ rest f' \<and> take n (rest f) = xs)"
proof (induction n arbitrary: f ec xs f' rule: less_induct)
  case (less n)
  note unf = read_all.simps [of ops f n]
  obtain r g where rd: "read_op ops f n = (r, g)" by fastforce
  note keep = read_contents [OF rd]
  consider (zero) "n = 0" | (failed) e where "0 < n" "r = Inl e" | (at_end) "0 < n" "r = Inr []" | (more) ys where "0 < n" "r = Inr ys" "ys \<noteq> []"
    by (cases r) auto
  then show ?case
  proof cases
    case (more ys)
    note rr = read_rest [OF rd [unfolded more(2)]]
    obtain ec' zs h where rec: "read_all ops g (n - length ys) = (ec', zs, h)" by (metis prod_cases3)
    have eq: "ec = ec'" "xs = ys @ zs" "f' = h" using less.prems unf rd more rec by auto
    have "n - length ys < n" using more(1,3) by simp
    note ih = less.IH [OF this rec]
    then have "take (length (ys @ zs)) (rest f) = ys @ zs" unfolding rr(1) by simp
    moreover have "ec' = None \<Longrightarrow> take n (rest f) = ys @ zs"
      unfolding rr(1) take_append using conjunct2 [OF conjunct2 [OF conjunct2 [OF ih]]] rr(2) by (metis take_all)
    ultimately show ?thesis using ih rr(1,2) keep unfolding eq by auto
  next
    case at_end
    with read_rest [OF rd [unfolded at_end(2)]] less.prems unf rd keep show ?thesis by auto
  qed (use less.prems unf rd keep in auto)
qed

lemma read_to_end_loop_rest:
  assumes "0 < buffer_size"
  shows "\<exists>r f'. read_to_end_loop ops buffer_size f acc = Some (r, f') \<and> contents f' = contents f \<and>
    (case r of Inl ec \<Rightarrow> \<exists>g. read_op ops g buffer_size = (Inl ec, f') | Inr xs \<Rightarrow> xs = acc @ rest f)"
proof (induction "length (rest f)" arbitrary: f acc rule: less_induct)
  case less
  show ?case
  proof (cases "read_op ops f buffer_size")
    case (Pair r g)
    show ?thesis
    proof (cases r)
      case (Inl e)
      with Pair read_contents [OF Pair] show ?thesis by (auto simp: read_to_end_loop.simps [of ops])
    next
      case (Inr ys)
      note rr = read_rest [OF Pair [unfolded Inr]] and rc = read_contents [OF Pair]
      show ?thesis
      proof (cases "ys = []")
        case True
        with Pair Inr rr rc assms show ?thesis by (simp add: read_to_end_loop.simps [of ops])
      next
        case False
        with rr have "length (rest g) < length (rest f)" by simp
        note ih = less.hyps [OF this, of "acc @ ys", unfolded rc append_assoc, folded rr(1)]
        have "\<exists>r f'. read_to_end_loop ops buffer_size g (acc @ ys) = Some (r, f') \<and> contents f' = contents f \<and>
            (case r of Inl ec \<Rightarrow> \<exists>g. read_op ops g buffer_size = (Inl ec, f') | Inr xs \<Rightarrow> xs = acc @ rest f)"
          by (rule ih)
        with Pair Inr False show ?thesis
          by (simp add: read_to_end_loop.simps [of ops _ f])
      qed
    qed
  qed
qed

lemma write_all_contents:
  assumes "pos f \<le> length (contents f)"
  shows "\<exists>ec f'. write_all ops f xs = Some (ec, f') \<and>
    (case ec of Some e \<Rightarrow> \<exists>g ys. write_op ops g ys = (Inl e, f')
     | None \<Rightarrow> contents f' = put_bytes (pos f) xs (contents f) \<and> pos f' = pos f + length xs)"
  using assms
proof (induction "length xs" arbitrary: f xs rule: less_induct)
  case less
  show ?case
  proof (cases "xs = []")
    case True
    with less.prems show ?thesis by (simp add: write_all.simps put_bytes_inside)
  next
    case False
    show ?thesis
    proof (cases "write_op ops f xs")
      case (Pair r g)
      show ?thesis
      proof (cases r)
        case (Inl e)
        with Pair False show ?thesis by (auto simp: write_all.simps [of ops])
      next
        case (Inr k)
        note w = write_bytes [OF False Pair [unfolded Inr]]
        have "length (drop k xs) < length xs" using w False by simp
        moreover have "pos g \<le> length (contents g)" using w less.prems by (simp add: length_put_bytes)
        ultimately obtain ec f' where rec: "write_all ops g (drop k xs) = Some (ec, f')"
          and ok: "case ec of Some e \<Rightarrow> \<exists>g ys. write_op ops g ys = (Inl e, f')
            | None \<Rightarrow> contents f' = put_bytes (pos g) (drop k xs) (contents g) \<and> pos f' = pos g + length (drop k xs)"
          using less.hyps by blast
        have "put_bytes (pos g) (drop k xs) (contents g) = put_bytes (pos f) xs (contents f)"
          using w less.prems put_bytes_append [of "pos f" "contents f" "take k xs" "drop k xs"] by (simp add: min_absorb2)
        with rec ok w Pair Inr False show ?thesis
          by (cases ec) (simp_all add: write_all.simps [of ops f])
      qed
    qed
  qed
qed

end

context full_file
begin

lemma read_to_end_full:
  assumes "0 < buffer_size"
  obtains f' where "read_to_end ops buffer_size f = Some (Inr (rest f), f')" and "contents f' = contents f"
proof -
  obtain r f' where r: "read_to_end_loop ops buffer_size f [] = Some (r, f')" "contents f' = contents f"
    and v: "case r of Inl ec \<Rightarrow> \<exists>g. read_op ops g buffer_size = (Inl ec, f') | Inr xs \<Rightarrow> xs = [] @ rest f"
    using read_to_end_loop_rest [OF assms, of f "[]"] by blast
  have "r = Inr (rest f)"
    using v read_full by (cases r) (auto, metis Inl_Inr_False prod.inject)
  with r show thesis by (intro that [of f']) (simp_all add: read_to_end_def)
qed

lemma read_all_full: "read_all ops f n = (ec, xs, f') \<Longrightarrow> ec = None"
proof (induction n arbitrary: f ec xs f' rule: less_induct)
  case (less n)
  let ?xs = "take n (rest f)"
  obtain g where g: "read_op ops f n = (Inr ?xs, g)" using read_full [of f n] by (auto simp: rest_def)
  show ?case
  proof (cases "n = 0 \<or> ?xs = []")
    case True
    with g less.prems show ?thesis by (auto simp: read_all.simps [of ops f n] split: if_splits)
  next
    case False
    obtain ec' zs h where rec: "read_all ops g (n - length ?xs) = (ec', zs, h)"
      by (metis prod_cases3)
    have "n - length ?xs < n" using False by auto
    from less.IH [OF this rec] less.prems g False rec show ?thesis
      by (auto simp: read_all.simps [of ops f n])
  qed
qed

lemma write_all_full:
  assumes "pos f \<le> length (contents f)"
  obtains f' where "write_all ops f xs = Some (None, f')"
    and "contents f' = put_bytes (pos f) xs (contents f)" and "pos f' = pos f + length xs"
proof -
  obtain ec f' where w: "write_all ops f xs = Some (ec, f')"
    and v: "case ec of Some e \<Rightarrow> \<exists>g ys. write_op ops g ys = (Inl e, f')
      | None \<Rightarrow> contents f' = put_bytes (pos f) xs (contents f) \<and> pos f' = pos f + length xs"
    using write_all_contents [OF assms] by blast
  have "ec = None"
    using v write_full by (cases ec) (auto, metis Inl_Inr_False prod.inject)
  with w v show thesis by (intro that [of f']) simp_all
qed

end

section \<open>On memory files\<close>

text \<open>\<^verbatim>\<open>io::read\<close> on a memory file fills the buffer unless the end of file comes first, and leaves
  the rest of the file to be read.\<close>

theorem memory_read_all:
  "fst (read_all memory_ops f n) = None \<and>
   fst (snd (read_all memory_ops f n)) = take n (drop (position f) (content f)) \<and>
   drop (position f) (content f) =
     fst (snd (read_all memory_ops f n)) @
     drop (position (snd (snd (read_all memory_ops f n)))) (content f)"
proof -
  obtain ec xs f' where r: "read_all memory_ops f n = (ec, xs, f')" by (metis prod_cases3)
  have "ec = None" using memory.read_all_full [OF r] .
  with memory.read_all_rest [OF r] show ?thesis by (metis r fst_conv snd_conv memory.rest_def)
qed

text \<open>Writing a buffer with \<^verbatim>\<open>io::write\<close>, seeking back and reading to the end, in chunks of any
  positive size, returns the buffer; both loops return.\<close>

theorem memory_write_read_to_end:
  assumes "0 < buffer_size"
  shows "\<exists>f f' f''. write_all memory_ops (memory_file_new []) xs = Some (None, f) \<and>
    seek_op memory_ops f 0 = (None, f') \<and>
    read_to_end memory_ops buffer_size f' = Some (Inr xs, f'')"
proof -
  let ?new = "memory_file_new []"
  obtain f where w: "write_all memory_ops ?new xs = Some (None, f)"
    and c: "content f = put_bytes (position ?new) xs (content ?new)"
    by (rule memory.write_all_full [of ?new xs]) (simp add: memory_file_new_def)
  have "content f = xs" using c put_bytes_at_end [of "[]" xs] by (simp add: memory_file_new_def)
  then have rest: "memory.rest (f\<lparr>position := 0\<rparr>) = xs" by (simp add: memory.rest_def)
  obtain f'' where "read_to_end memory_ops buffer_size (f\<lparr>position := 0\<rparr>) = Some (Inr xs, f'')"
    using memory.read_to_end_full [OF assms, of "f\<lparr>position := 0\<rparr>"] unfolding rest by blast
  with w show ?thesis by (auto simp: memory_ops_def mf_seek_def)
qed

end
