(* ===== verification/Line_Reader.thy ===== *)
theory Line_Reader
  imports File_Utils
begin

text \<open>
  \<^verbatim>\<open>io/line-reader.h\<close> and \<^verbatim>\<open>io/line-reader.cc\<close>: buffered reading of delimited lines from any
  \<^verbatim>\<open>io::File\<close>. The capacity of the vector, which the constructor reserves and which the standard lets
  be larger than asked for, is a field of the state.
\<close>

record 'f line_reader =
  lr_file :: 'f
  lr_delimiter :: u8
  lr_buffer :: bytes
  lr_capacity :: nat
  lr_offset :: nat

definition line_reader_new :: "'f \<Rightarrow> u8 \<Rightarrow> nat \<Rightarrow> 'f line_reader" where
  "line_reader_new f delimiter capacity =
     \<lparr>lr_file = f, lr_delimiter = delimiter, lr_buffer = [], lr_capacity = capacity, lr_offset = 0\<rparr>"

text \<open>The inner loop: the line so far, the new offset, and whether the delimiter was met.\<close>

function scan_line :: "u8 \<Rightarrow> bytes \<Rightarrow> nat \<Rightarrow> bytes \<Rightarrow> bytes \<times> nat \<times> bool" where
  "scan_line delimiter buf offset line =
     (if offset < length buf then
        let line' = line @ [buf ! offset]
        in if last line' = delimiter then (line', offset + 1, True)
           else scan_line delimiter buf (offset + 1) line'
      else (line, offset, False))"
  by pat_completeness auto
termination
  by (relation "measure (\<lambda>(d, buf, offset, line). length buf - offset)") auto

declare scan_line.simps [simp del]

partial_function (option) read_line_loop ::
    "'f file_ops \<Rightarrow> 'f line_reader \<Rightarrow> bytes \<Rightarrow> ((errc + bytes \<times> bool) \<times> 'f line_reader) option" where
  "read_line_loop ops lr line =
     (case scan_line (lr_delimiter lr) (lr_buffer lr) (lr_offset lr) line of
        (line', offset, found) \<Rightarrow>
          if found then Some (Inr (line', False), lr\<lparr>lr_offset := offset\<rparr>)
          else let buf = resize (lr_capacity lr) 0 (lr_buffer lr)
               in case read_op ops (lr_file lr) (length buf) of
                    (Inl ec, f) \<Rightarrow> Some (Inl ec, lr\<lparr>lr_file := f, lr_buffer := buf, lr_offset := 0\<rparr>)
                  | (Inr xs, f) \<Rightarrow>
                      if xs = [] then
                        Some (Inr (line', True), lr\<lparr>lr_file := f, lr_buffer := buf, lr_offset := 0\<rparr>)
                      else
                        read_line_loop ops
                          (lr\<lparr>lr_file := f, lr_buffer := resize (length xs) 0 (overwrite 0 xs buf), lr_offset := 0\<rparr>)
                          line')"

text \<open>\<^verbatim>\<open>LineReader::read\<close>: the line and \<^verbatim>\<open>end_of_file\<close>.\<close>

definition read_line :: "'f file_ops \<Rightarrow> 'f line_reader \<Rightarrow> ((errc + bytes \<times> bool) \<times> 'f line_reader) option" where
  "read_line ops lr = read_line_loop ops lr []"

text \<open>A caller that reads until \<^verbatim>\<open>end_of_file\<close>.\<close>

partial_function (option) read_lines ::
    "'f file_ops \<Rightarrow> 'f line_reader \<Rightarrow> bytes list \<Rightarrow> ((errc + bytes list) \<times> 'f line_reader) option" where
  "read_lines ops lr lines =
     (case read_line ops lr of
        None \<Rightarrow> None
      | Some (Inl ec, lr') \<Rightarrow> Some (Inl ec, lr')
      | Some (Inr (line, end_of_file), lr') \<Rightarrow>
          if end_of_file then Some (Inr (lines @ [line]), lr')
          else read_lines ops lr' (lines @ [line]))"

section \<open>Specification: splitting a byte string\<close>

definition first_line :: "u8 \<Rightarrow> bytes \<Rightarrow> bytes" where
  "first_line d xs = takeWhile (\<lambda>b. b \<noteq> d) xs @ [d]"

definition after_line :: "u8 \<Rightarrow> bytes \<Rightarrow> bytes" where
  "after_line d xs = tl (dropWhile (\<lambda>b. b \<noteq> d) xs)"

lemma line_split: "d \<in> set xs \<Longrightarrow> first_line d xs @ after_line d xs = xs"
  by (induction xs) (auto simp: first_line_def after_line_def)

lemma length_after_line [termination_simp]: "d \<in> set xs \<Longrightarrow> length (after_line d xs) < length xs"
proof -
  assume "d \<in> set xs"
  then have "length (first_line d xs) + length (after_line d xs) = length xs"
    by (metis line_split length_append)
  then show ?thesis by (simp add: first_line_def)
qed

fun split_lines :: "u8 \<Rightarrow> bytes \<Rightarrow> bytes list" where
  "split_lines d xs = (if d \<in> set xs then first_line d xs # split_lines d (after_line d xs) else [xs])"

declare split_lines.simps [simp del]

lemma concat_split_lines: "concat (split_lines d xs) = xs"
proof (induction d xs rule: split_lines.induct)
  case (1 d xs)
  then show ?case by (simp add: split_lines.simps [of d xs] line_split)
qed

lemma first_line_append:
  "first_line d (xs @ ys) = (if d \<in> set xs then first_line d xs else xs @ first_line d ys)"
  by (induction xs) (auto simp: first_line_def)

lemma after_line_append:
  "after_line d (xs @ ys) = (if d \<in> set xs then after_line d xs @ ys else after_line d ys)"
  by (induction xs) (auto simp: after_line_def)

lemma scan_line_spec:
  "scan_line d buf offset line =
     (if d \<in> set (drop offset buf)
      then (line @ first_line d (drop offset buf), length buf - length (after_line d (drop offset buf)), True)
      else (line @ drop offset buf, max offset (length buf), False))"
proof (induction d buf offset line rule: scan_line.induct)
  case (1 d buf offset line)
  show ?case
  proof (cases "offset < length buf")
    case True
    then have split: "drop offset buf = buf ! offset # drop (Suc offset) buf" by (simp add: Cons_nth_drop_Suc)
    show ?thesis
    proof (cases "buf ! offset = d")
      case eq: True
      then show ?thesis using True
        by (simp add: scan_line.simps [of d buf offset] split first_line_def after_line_def)
    next
      case False
      with 1 [OF True refl] True show ?thesis
        by (simp add: scan_line.simps [of d buf offset] split first_line_def after_line_def)
    qed
  next
    case False
    then show ?thesis by (simp add: scan_line.simps [of d buf offset])
  qed
qed

section \<open>The reader under the file contract\<close>

definition reader_ok :: "'f line_reader \<Rightarrow> bool" where
  "reader_ok lr \<longleftrightarrow> 0 < lr_capacity lr \<and> lr_offset lr \<le> length (lr_buffer lr) \<and> length (lr_buffer lr) \<le> lr_capacity lr"

definition unread :: "'f line_reader \<Rightarrow> bytes" where
  "unread lr = drop (lr_offset lr) (lr_buffer lr)"

context file_contract
begin

text \<open>What the reader still has to deliver.\<close>

definition pending :: "'f line_reader \<Rightarrow> bytes" where
  "pending lr = unread lr @ rest (lr_file lr)"

definition line_result :: "'f line_reader \<Rightarrow> bytes \<Rightarrow> (errc + bytes \<times> bool) \<times> 'f line_reader \<Rightarrow> bool" where
  "line_result lr line res \<longleftrightarrow>
     (case res of
        (Inl ec, lr') \<Rightarrow> \<exists>g n g'. read_op ops g n = (Inl ec, g')
      | (Inr (l, eof), lr') \<Rightarrow>
          if lr_delimiter lr \<in> set (pending lr)
          then \<not> eof \<and> l = line @ first_line (lr_delimiter lr) (pending lr) \<and>
               pending lr' = after_line (lr_delimiter lr) (pending lr) \<and> reader_ok lr' \<and>
               lr_delimiter lr' = lr_delimiter lr
          else eof \<and> l = line @ pending lr)"

text \<open>The delimiter is in the buffer.\<close>

lemma read_line_found:
  assumes d: "lr_delimiter lr \<in> set (unread lr)" and ok: "reader_ok lr"
  shows "\<exists>res. read_line_loop ops lr line = Some res \<and> line_result lr line res"
proof -
  let ?d = "lr_delimiter lr"
  have "length (after_line ?d (unread lr)) < length (unread lr)" using d by (rule length_after_line)
  then have le: "length (after_line ?d (unread lr)) \<le> length (lr_buffer lr)" by (simp add: unread_def)
  have "unread lr = first_line ?d (unread lr) @ after_line ?d (unread lr)" using d by (simp add: line_split)
  then have "lr_buffer lr = (take (lr_offset lr) (lr_buffer lr) @ first_line ?d (unread lr)) @ after_line ?d (unread lr)"
    by (metis append.assoc append_take_drop_id unread_def)
  then have "drop (length (lr_buffer lr) - length (after_line ?d (unread lr))) (lr_buffer lr) = after_line ?d (unread lr)"
    by (metis append_eq_conv_conj diff_add_inverse2 length_append)
  then show ?thesis using d ok read_line_loop.simps [of ops lr line] le
    by (simp add: scan_line_spec [of ?d "lr_buffer lr" "lr_offset lr" line, folded unread_def] line_result_def pending_def unread_def
        first_line_append after_line_append reader_ok_def)
qed

text \<open>The buffer is used up: one read refills it.\<close>

lemma read_line_refill:
  assumes nf: "lr_delimiter lr \<notin> set (unread lr)"
    and rd: "read_op ops (lr_file lr) (lr_capacity lr) = (Inr xs, g)" and xs: "xs \<noteq> []"
    and ih: "read_line_loop ops (lr\<lparr>lr_file := g, lr_buffer := xs, lr_offset := 0\<rparr>) (line @ unread lr) = Some res"
      "line_result (lr\<lparr>lr_file := g, lr_buffer := xs, lr_offset := 0\<rparr>) (line @ unread lr) res"
  shows "read_line_loop ops lr line = Some res \<and> line_result lr line res"
proof -
  note rr = read_rest [OF rd]
  have "resize (length xs) 0 (overwrite 0 xs (resize (lr_capacity lr) 0 (lr_buffer lr))) = xs"
    using rr(2) by (simp add: overwrite_def resize_def)
  then have "read_line_loop ops lr line = Some res"
    using ih(1) rd xs nf read_line_loop.simps [of ops lr line]
    by (simp add: scan_line_spec [of _ "lr_buffer lr" "lr_offset lr" line, folded unread_def] Let_def)
  moreover have "line_result lr line res"
    using ih(2) nf rr(1)
    by (auto simp: line_result_def pending_def unread_def first_line_append after_line_append split: sum.splits prod.splits)
  ultimately show ?thesis ..
qed

lemma read_line_loop_result:
  "reader_ok lr \<Longrightarrow> \<exists>res. read_line_loop ops lr line = Some res \<and> line_result lr line res"
proof (induction "length (rest (lr_file lr))" arbitrary: lr line rule: less_induct)
  case less
  show ?case
  proof (cases "lr_delimiter lr \<in> set (unread lr)")
    case True
    then show ?thesis using less.prems by (rule read_line_found)
  next
    case nf: False
    note unf = read_line_loop.simps [of ops lr line]
    note scan = scan_line_spec [of "lr_delimiter lr" "lr_buffer lr" "lr_offset lr" line, folded unread_def]
    obtain r g where rd: "read_op ops (lr_file lr) (lr_capacity lr) = (r, g)" by fastforce
    consider (failed) e where "r = Inl e" | (at_end) "r = Inr []" | (more) xs where "r = Inr xs" "xs \<noteq> []"
      by (cases r) auto
    then show ?thesis
    proof cases
      case failed
      with rd nf show ?thesis by (auto simp: unf scan Let_def line_result_def)
    next
      case at_end
      with read_rest(3) [OF rd [unfolded at_end]] less.prems have "rest (lr_file lr) = []" by (simp add: reader_ok_def)
      with at_end rd nf show ?thesis by (simp add: unf scan Let_def line_result_def pending_def)
    next
      case (more xs)
      note rr = read_rest [OF rd [unfolded more(1)]]
      let ?lr = "lr\<lparr>lr_file := g, lr_buffer := xs, lr_offset := 0\<rparr>"
      have "length (rest (lr_file ?lr)) < length (rest (lr_file lr))" using rr(1) more(2) by simp
      moreover have "reader_ok ?lr" using rr(2) less.prems by (simp add: reader_ok_def)
      ultimately obtain res where "read_line_loop ops ?lr (line @ unread lr) = Some res" "line_result ?lr (line @ unread lr) res"
        using less.hyps by blast
      from read_line_refill [OF nf rd [unfolded more(1)] more(2) this] show ?thesis by blast
    qed
  qed
qed

end

context full_file
begin

lemma read_line_full:
  assumes "reader_ok lr"
  obtains lr' where "read_line ops lr = Some (Inr (if lr_delimiter lr \<in> set (pending lr)
      then (first_line (lr_delimiter lr) (pending lr), False) else (pending lr, True)), lr')"
    and "lr_delimiter lr \<in> set (pending lr) \<longrightarrow> pending lr' = after_line (lr_delimiter lr) (pending lr) \<and>
      reader_ok lr' \<and> lr_delimiter lr' = lr_delimiter lr"
proof -
  obtain r lr' where r: "read_line_loop ops lr [] = Some (r, lr')" "line_result lr [] (r, lr')"
    using read_line_loop_result [OF assms, of "[]"] by auto
  obtain l eof where "r = Inr (l, eof)"
  proof (cases r)
    case (Inl e)
    then obtain g n g' where "read_op ops g n = (Inl e, g')" using r(2) by (auto simp: line_result_def)
    then show thesis using read_full [of g n] by simp
  qed (use that in auto)
  with r show thesis
    by (intro that [of lr']) (auto simp: read_line_def line_result_def split: if_splits)
qed

lemma read_lines_split:
  "reader_ok lr \<Longrightarrow>
   \<exists>lr'. read_lines ops lr acc = Some (Inr (acc @ split_lines (lr_delimiter lr) (pending lr)), lr')"
proof (induction "length (pending lr)" arbitrary: lr acc rule: less_induct)
  case less
  let ?d = "lr_delimiter lr"
  from less.prems obtain lr' where r: "read_line ops lr = Some (Inr (if ?d \<in> set (pending lr)
      then (first_line ?d (pending lr), False) else (pending lr, True)), lr')"
    and n: "?d \<in> set (pending lr) \<longrightarrow> pending lr' = after_line ?d (pending lr) \<and>
      reader_ok lr' \<and> lr_delimiter lr' = ?d"
    by (rule read_line_full)
  show ?case
  proof (cases "?d \<in> set (pending lr)")
    case True
    with n length_after_line [OF True] less.hyps [of lr' "acc @ [first_line ?d (pending lr)]"] r
    show ?thesis by (simp add: read_lines.simps [of ops lr] split_lines.simps [of ?d "pending lr"])
  next
    case False
    with r show ?thesis by (simp add: read_lines.simps [of ops lr] split_lines.simps [of ?d "pending lr"])
  qed
qed

end

section \<open>On memory files\<close>

text \<open>C20. Reading a file line by line until \<^verbatim>\<open>end_of_file\<close>, with any positive buffer capacity, returns
  the contents cut after every delimiter (the last piece, possibly empty, is what follows the last
  delimiter), in order and with nothing lost: the concatenation of the lines is the file.\<close>

theorem line_reader_lines:
  assumes "0 < capacity"
  shows "(\<exists>lr. read_lines memory_ops (line_reader_new (memory_file_new c) d capacity) [] =
      Some (Inr (split_lines d c), lr)) \<and> concat (split_lines d c) = c"
proof -
  let ?lr = "line_reader_new (memory_file_new c) d capacity"
  have "reader_ok ?lr" using assms by (simp add: reader_ok_def line_reader_new_def)
  moreover have "memory.pending ?lr = c"
    by (simp add: memory.pending_def unread_def memory.rest_def line_reader_new_def memory_file_new_def)
  moreover have "lr_delimiter ?lr = d" by (simp add: line_reader_new_def)
  ultimately show ?thesis
    using memory.read_lines_split [of ?lr "[]"] by (simp add: concat_split_lines)
qed

theorem line_reader_lines_witness:
  "\<exists>lr. read_lines memory_ops (line_reader_new (memory_file_new [1, 10, 2]) 10 2) [] =
      Some (Inr [[1, 10], [2]], lr)"
  using line_reader_lines [of 2 "[1, 10, 2]" 10]
  by (simp add: split_lines.simps first_line_def after_line_def)

text \<open>A call after \<^verbatim>\<open>end_of_file\<close> is not idempotent: the buffer was resized to its capacity before
  the read that found the end, and its old bytes are delivered again. For the file "a" newline and
  a capacity of two, the third call returns the first line a second time.\<close>

theorem line_reader_stale_after_eof:
  "\<exists>lr lr' lr''. read_line memory_ops (line_reader_new (memory_file_new [97, 10]) 10 2) = Some (Inr ([97, 10], False), lr) \<and>
     read_line memory_ops lr = Some (Inr ([], True), lr') \<and>
     read_line memory_ops lr' = Some (Inr ([97, 10], False), lr'')"
  by (simp add: read_line_def read_line_loop.simps line_reader_new_def memory_file_new_def memory_ops_def
      mf_read_eq scan_line_spec first_line_def after_line_def resize_def overwrite_def)

end
