(* ===== verification/Lower_Bound.thy ===== *)
theory Lower_Bound
  imports Trunk_Prelude
begin

text \<open>
  \<^verbatim>\<open>std::lower_bound\<close>, which \<^verbatim>\<open>db/sstable.cc\<close> and \<^verbatim>\<open>util/embed-data.cc\<close> search with: halving a range
  by the test "the element is less than the key". The test may have no defined value.
\<close>

function lower_bound_loop :: "('a \<Rightarrow> bool option) \<Rightarrow> 'a list \<Rightarrow> nat \<Rightarrow> nat \<Rightarrow> nat option" where
  "lower_bound_loop less_key xs first len =
     (if len = 0 then Some first
      else let half = len div 2; middle = first + half
           in case less_key (xs ! middle) of
                None \<Rightarrow> None
              | Some True \<Rightarrow> lower_bound_loop less_key xs (middle + 1) (len - half - 1)
              | Some False \<Rightarrow> lower_bound_loop less_key xs first half)"
  by pat_completeness auto
termination
  by (relation "measure (\<lambda>(p, xs, first, len). len)") auto

declare lower_bound_loop.simps [simp del]

definition lower_bound :: "('a \<Rightarrow> bool option) \<Rightarrow> 'a list \<Rightarrow> nat option" where
  "lower_bound less_key xs = lower_bound_loop less_key xs 0 (length xs)"

lemma lower_bound_loop_spec:
  assumes "\<And>i. i < length xs \<Longrightarrow> less_key (xs ! i) = Some (P (xs ! i))"
    and mono: "\<And>i j. i \<le> j \<Longrightarrow> j < length xs \<Longrightarrow> P (xs ! j) \<Longrightarrow> P (xs ! i)"
    and "first + len \<le> length xs"
    and "\<And>i. i < first \<Longrightarrow> P (xs ! i)"
    and "\<And>i. first + len \<le> i \<Longrightarrow> i < length xs \<Longrightarrow> \<not> P (xs ! i)"
  shows "\<exists>k. lower_bound_loop less_key xs first len = Some k \<and> k \<le> length xs \<and>
    (\<forall>i < k. P (xs ! i)) \<and> (\<forall>i. k \<le> i \<and> i < length xs \<longrightarrow> \<not> P (xs ! i))"
  using assms(3-)
proof (induction len arbitrary: first rule: less_induct)
  case (less len)
  show ?case
  proof (cases "len = 0")
    case True
    with less.prems show ?thesis by (simp add: lower_bound_loop.simps [of less_key])
  next
    case False
    let ?half = "len div 2"
    let ?mid = "first + ?half"
    have mid: "?mid < length xs" using False less.prems(1) by linarith
    show ?thesis
    proof (cases "P (xs ! ?mid)")
      case True
      have "P (xs ! i)" if "i < ?mid + 1" for i using that mono [of i ?mid] mid True by simp
      moreover have "?mid + 1 + (len - ?half - 1) = first + len" using False by linarith
      ultimately have "\<exists>k. lower_bound_loop less_key xs (?mid + 1) (len - ?half - 1) = Some k \<and> k \<le> length xs \<and>
          (\<forall>i < k. P (xs ! i)) \<and> (\<forall>i. k \<le> i \<and> i < length xs \<longrightarrow> \<not> P (xs ! i))"
        using False less.prems by (intro less.IH) auto
      with True False assms(1) [OF mid] show ?thesis
        by (simp add: lower_bound_loop.simps [of less_key xs first] Let_def)
    next
      case nP: False
      have "\<not> P (xs ! i)" if "?mid \<le> i" "i < length xs" for i using that mono [of ?mid i] nP by auto
      then have "\<exists>k. lower_bound_loop less_key xs first ?half = Some k \<and> k \<le> length xs \<and>
          (\<forall>i < k. P (xs ! i)) \<and> (\<forall>i. k \<le> i \<and> i < length xs \<longrightarrow> \<not> P (xs ! i))"
        using False less.prems by (intro less.IH) auto
      with nP False assms(1) [OF mid] show ?thesis
        by (simp add: lower_bound_loop.simps [of less_key xs first] Let_def)
    qed
  qed
qed

lemma lower_bound_spec:
  assumes "\<And>i. i < length xs \<Longrightarrow> less_key (xs ! i) = Some (P (xs ! i))"
    and "\<And>i j. i \<le> j \<Longrightarrow> j < length xs \<Longrightarrow> P (xs ! j) \<Longrightarrow> P (xs ! i)"
  obtains k where "lower_bound less_key xs = Some k" and "k \<le> length xs"
    and "\<And>i. i < k \<Longrightarrow> P (xs ! i)" and "\<And>i. k \<le> i \<Longrightarrow> i < length xs \<Longrightarrow> \<not> P (xs ! i)"
  using lower_bound_loop_spec [of xs less_key P 0 "length xs"] assms unfolding lower_bound_def by auto

end
