(* ===== verification/SSTable.thy ===== *)
theory SSTable
  imports Lower_Bound Memory_File
begin

text \<open>
  \<^verbatim>\<open>db/sstable.h\<close> and \<^verbatim>\<open>db/sstable.cc\<close>: the writer and the reader of sorted string tables over any
  \<^verbatim>\<open>io::File\<close>. The file is, in this order, the entries (sizes, key, value), one index record of 16
  bytes per block, the last key of every block, and a trailer of 8 bytes.

  Signed integers of the source are \<open>int\<close> here; where an \<^verbatim>\<open>int32_t\<close> or \<^verbatim>\<open>int64_t\<close> expression would
  overflow the result is \<open>None\<close>. \<open>None\<close> also stands for reading an indeterminate buffer, a span that leaves
  its buffer, the exception of a vector of negative size, and a seek that never ends.
\<close>

text \<open>\<^verbatim>\<open>load_little_s32\<close>, \<^verbatim>\<open>load_little_s64\<close> at an offset of a buffer, and the stores.\<close>

definition load_s32 :: "bytes \<Rightarrow> nat \<Rightarrow> int" where
  "load_s32 buf i = sint (load_little (take 4 (drop i buf)) :: u32)"

definition load_s64 :: "bytes \<Rightarrow> nat \<Rightarrow> int" where
  "load_s64 buf i = sint (load_little (take 8 (drop i buf)) :: u64)"

definition store_s32 :: "int \<Rightarrow> bytes" where
  "store_s32 i = store_little 4 (word_of_int i :: u32)"

definition store_s64 :: "int \<Rightarrow> bytes" where
  "store_s64 i = store_little 8 (word_of_int i :: u64)"

section \<open>The builder\<close>

record builder_block =
  bb_offset :: int
  bb_size :: int
  bb_last :: bytes

record 'f sstable_builder =
  bd_file :: 'f
  bd_block_size :: int
  bd_flush_size :: nat
  bd_buffer :: bytes
  bd_blocks :: "builder_block list"

definition builder_new :: "'f \<Rightarrow> int \<Rightarrow> nat \<Rightarrow> 'f sstable_builder" where
  "builder_new f block_size flush_size =
     \<lparr>bd_file = f, bd_block_size = block_size, bd_flush_size = flush_size, bd_buffer = [], bd_blocks = []\<rparr>"

text \<open>\<^verbatim>\<open>flush\<close> does not look at the number of bytes that \<^verbatim>\<open>write\<close> took.\<close>

definition builder_flush :: "'f file_ops \<Rightarrow> 'f sstable_builder \<Rightarrow> errc option \<times> 'f sstable_builder" where
  "builder_flush ops b =
     (case write_op ops (bd_file b) (bd_buffer b) of
        (Inl ec, f) \<Rightarrow> (Some ec, b\<lparr>bd_file := f\<rparr>)
      | (Inr _, f) \<Rightarrow> (None, b\<lparr>bd_file := f, bd_buffer := []\<rparr>))"

definition flush_if_full :: "'f file_ops \<Rightarrow> 'f sstable_builder \<Rightarrow> errc option \<times> 'f sstable_builder" where
  "flush_if_full ops b =
     (if length (bd_buffer b) \<ge> bd_flush_size b then builder_flush ops b else (None, b))"

text \<open>The block list after an entry: a new first block, a new block, or a longer last block.\<close>

definition add_block :: "int \<Rightarrow> builder_block list \<Rightarrow> bytes \<Rightarrow> int \<Rightarrow> builder_block list option" where
  "add_block block_size blocks key entry_size =
     (if blocks = [] then Some [\<lparr>bb_offset = 0, bb_size = entry_size, bb_last = key\<rparr>]
      else let back = last blocks
           in if \<not> int32_ok (bb_size back + entry_size) then None
              else if bb_size back + entry_size > block_size then
                let block_offset = bb_offset back + bb_size back
                in if \<not> int64_ok block_offset then None
                   else Some (blocks @ [\<lparr>bb_offset = block_offset, bb_size = entry_size, bb_last = key\<rparr>])
              else Some (butlast blocks @ [back\<lparr>bb_size := bb_size back + entry_size, bb_last := key\<rparr>]))"

definition builder_add ::
    "'f file_ops \<Rightarrow> 'f sstable_builder \<Rightarrow> bytes \<Rightarrow> bytes \<Rightarrow> (errc option \<times> 'f sstable_builder) option" where
  "builder_add ops b key val =
     (let size = length (bd_buffer b);
          entry_size = 8 + length key + length val
      in if \<not> int32_ok (int entry_size) then None
         else
           let buf0 = resize (size + entry_size) 0 (bd_buffer b);
               buf1 = overwrite size (store_s32 (int (length key))) buf0;
               buf2 = overwrite (size + 4) (store_s32 (int (length val))) buf1;
               buf3 = overwrite (size + 8) key buf2;
               buf4 = overwrite (size + 8 + length key) val buf3
           in case add_block (bd_block_size b) (bd_blocks b) key (int entry_size) of
                None \<Rightarrow> None
              | Some blocks \<Rightarrow> Some (flush_if_full ops (b\<lparr>bd_buffer := buf4, bd_blocks := blocks\<rparr>)))"

fun finish_index :: "'f file_ops \<Rightarrow> 'f sstable_builder \<Rightarrow> builder_block list \<Rightarrow> errc option \<times> 'f sstable_builder" where
  "finish_index ops b [] = (None, b)"
| "finish_index ops b (block # blocks) =
     (let size = length (bd_buffer b);
          buf0 = resize (size + 16) 0 (bd_buffer b);
          buf1 = overwrite size (store_s64 (bb_offset block)) buf0;
          buf2 = overwrite (size + 8) (store_s32 (bb_size block)) buf1;
          buf3 = overwrite (size + 12) (store_s32 (int (length (bb_last block)))) buf2
      in case flush_if_full ops (b\<lparr>bd_buffer := buf3\<rparr>) of
           (Some ec, b') \<Rightarrow> (Some ec, b')
         | (None, b') \<Rightarrow> finish_index ops b' blocks)"

fun finish_keys ::
    "'f file_ops \<Rightarrow> 'f sstable_builder \<Rightarrow> u32 \<Rightarrow> builder_block list \<Rightarrow> (errc + u32) \<times> 'f sstable_builder" where
  "finish_keys ops b keys_size [] = (Inr keys_size, b)"
| "finish_keys ops b keys_size (block # blocks) =
     (let size = length (bd_buffer b);
          buf0 = resize (size + length (bb_last block)) 0 (bd_buffer b);
          buf1 = overwrite size (bb_last block) buf0
      in case flush_if_full ops (b\<lparr>bd_buffer := buf1\<rparr>) of
           (Some ec, b') \<Rightarrow> (Inl ec, b')
         | (None, b') \<Rightarrow> finish_keys ops b' (keys_size + of_nat (length (bb_last block))) blocks)"

definition builder_finish :: "'f file_ops \<Rightarrow> 'f sstable_builder \<Rightarrow> errc option \<times> 'f sstable_builder" where
  "builder_finish ops b =
     (case finish_index ops b (bd_blocks b) of
        (Some ec, b1) \<Rightarrow> (Some ec, b1)
      | (None, b1) \<Rightarrow>
          (case finish_keys ops b1 0 (bd_blocks b) of
             (Inl ec, b2) \<Rightarrow> (Some ec, b2)
           | (Inr keys_size, b2) \<Rightarrow>
               let size = length (bd_buffer b2);
                   buf0 = resize (size + 8) 0 (bd_buffer b2);
                   buf1 = overwrite size (store_s32 (int (length (bd_blocks b)))) buf0;
                   buf2 = overwrite (size + 4) (store_little 4 keys_size) buf1
               in builder_flush ops (b2\<lparr>bd_buffer := buf2\<rparr>)))"

section \<open>The reader\<close>

definition max_block_size :: int where
  "max_block_size = 16777216"

record table_block =
  tb_offset :: int
  tb_size :: int

text \<open>A key is a span of the keys buffer; \<open>None\<close> is a span that leaves it.\<close>

record sstable =
  st_blocks :: "table_block list"
  st_keys :: "bytes option list"

definition span_of :: "bytes \<Rightarrow> nat \<Rightarrow> int \<Rightarrow> bytes option" where
  "span_of buf i n =
     (if 0 \<le> n \<and> i + nat n \<le> length buf then Some (take (nat n) (drop i buf)) else None)"

text \<open>The loop of \<^verbatim>\<open>init\<close>; \<open>keys_offset\<close> is a \<^verbatim>\<open>size_t\<close>.\<close>

fun init_loop :: "bytes \<Rightarrow> bytes \<Rightarrow> nat \<Rightarrow> nat \<Rightarrow> u64 \<Rightarrow> sstable \<Rightarrow> errc + sstable" where
  "init_loop blocks_buffer keys_buffer index 0 keys_offset st = Inr st"
| "init_loop blocks_buffer keys_buffer index (Suc left) keys_offset st =
     (let block = \<lparr>tb_offset = load_s64 blocks_buffer (index * 16),
                   tb_size = load_s32 blocks_buffer (index * 16 + 8)\<rparr>;
          key_size = load_s32 blocks_buffer (index * 16 + 12);
          st' = \<lparr>st_blocks = st_blocks st @ [block],
                 st_keys = st_keys st @ [span_of keys_buffer (unat keys_offset) key_size]\<rparr>;
          keys_offset' = keys_offset + word_of_int key_size
      in if tb_size block \<le> 0 \<or> tb_size block > max_block_size then Inl Bad_message
         else if keys_offset' > of_nat (length keys_buffer) then Inl No_buffer_space
         else init_loop blocks_buffer keys_buffer (Suc index) left keys_offset' st')"

text \<open>\<^verbatim>\<open>init\<close> of a table that was just constructed. The error code of the read of the trailer is not
  looked at: a trailer that was not read is indeterminate.\<close>

definition sstable_init :: "'f file_ops \<Rightarrow> 'f \<Rightarrow> ((errc + sstable) \<times> 'f) option" where
  "sstable_init ops f0 =
     (case size_op ops f0 of
        (Inl ec, f1) \<Rightarrow> Some (Inl ec, f1)
      | (Inr file_size, f1) \<Rightarrow>
          if file_size < 8 then Some (Inl No_message, f1)
          else case pread_op ops f1 (file_size - 8) 8 of
            (Inl ec, f2) \<Rightarrow> None
          | (Inr trailer, f2) \<Rightarrow>
              if length trailer \<noteq> 8 then None
              else
                let num_blocks = load_s32 trailer 0;
                    keys_size = load_s32 trailer 4
                in if \<not> (int32_ok (num_blocks * 16) \<and> int32_ok (num_blocks * 16 + keys_size) \<and>
                          int32_ok (num_blocks * 16 + keys_size + 8)) then None
                   else if file_size < num_blocks * 16 + keys_size + 8 then Some (Inl No_buffer_space, f2)
                   else if num_blocks < 0 then None
                   else case pread_op ops f2 (file_size - (num_blocks * 16 + keys_size + 8)) (nat (num_blocks * 16)) of
                     (Inl ec, f3) \<Rightarrow> Some (Inl ec, f3)
                   | (Inr xs, f3) \<Rightarrow>
                       let blocks_buffer = overwrite 0 xs (replicate (nat (num_blocks * 16)) 0)
                       in if keys_size < 0 then None
                          else case pread_op ops f3 (file_size - (keys_size + 8)) (nat keys_size) of
                            (Inl ec, f4) \<Rightarrow> Some (Inl ec, f4)
                          | (Inr ys, f4) \<Rightarrow>
                              let keys_buffer = overwrite 0 ys (replicate (nat keys_size) 0)
                              in Some (init_loop blocks_buffer keys_buffer 0 (nat num_blocks) 0
                                         \<lparr>st_blocks = [], st_keys = []\<rparr>, f4))"

section \<open>The iterator\<close>

record iterator =
  it_block :: nat
  it_buffer :: bytes
  it_offset :: nat

definition iterator_new :: iterator where
  "iterator_new = \<lparr>it_block = 0, it_buffer = [], it_offset = 0\<rparr>"

definition it_read :: "'f file_ops \<Rightarrow> sstable \<Rightarrow> 'f \<Rightarrow> iterator \<Rightarrow> errc option \<times> 'f \<times> iterator" where
  "it_read ops st f it =
     (let block = st_blocks st ! it_block it;
          buf = resize (nat (tb_size block)) 0 (it_buffer it)
      in case pread_op ops f (tb_offset block) (length buf) of
           (Inl ec, f') \<Rightarrow> (Some ec, f', it\<lparr>it_buffer := buf\<rparr>)
         | (Inr xs, f') \<Rightarrow> (None, f', it\<lparr>it_buffer := overwrite 0 xs buf\<rparr>))"

definition it_start :: "'f file_ops \<Rightarrow> sstable \<Rightarrow> 'f \<Rightarrow> iterator \<Rightarrow> errc option \<times> 'f \<times> iterator" where
  "it_start ops st f it =
     (if st_blocks st = [] then (Some No_message_available, f, it)
      else it_read ops st f (it\<lparr>it_block := 0, it_offset := 0\<rparr>))"

definition it_next :: "'f file_ops \<Rightarrow> sstable \<Rightarrow> 'f \<Rightarrow> iterator \<Rightarrow> errc option \<times> 'f \<times> iterator" where
  "it_next ops st f it =
     (if it_offset it + 8 > length (it_buffer it) then (Some No_buffer_space, f, it)
      else
        let key_size = load_s32 (it_buffer it) (it_offset it);
            value_size = load_s32 (it_buffer it) (it_offset it + 4);
            offset = nat ((int (it_offset it) + 8 + key_size + value_size) mod 2 ^ 64)
        in if offset > length (it_buffer it) then (Some No_buffer_space, f, it)
           else if offset = length (it_buffer it) then
             (if it_block it + 1 = length (st_blocks st)
              then (Some No_message_available, f, it\<lparr>it_block := it_block it + 1, it_offset := offset\<rparr>)
              else it_read ops st f (it\<lparr>it_block := it_block it + 1, it_offset := 0\<rparr>))
           else (None, f, it\<lparr>it_offset := offset\<rparr>))"

definition it_key :: "iterator \<Rightarrow> bytes option" where
  "it_key it =
     (if it_offset it + 4 > length (it_buffer it) then None
      else let key_size = load_s32 (it_buffer it) (it_offset it)
           in span_of (it_buffer it) (it_offset it + 8) key_size)"

definition it_value :: "iterator \<Rightarrow> bytes option" where
  "it_value it =
     (if it_offset it + 8 > length (it_buffer it) then None
      else let key_size = load_s32 (it_buffer it) (it_offset it);
               value_size = load_s32 (it_buffer it) (it_offset it + 4)
           in if key_size < 0 then None
              else span_of (it_buffer it) (it_offset it + 8 + nat key_size) value_size)"

partial_function (option) seek_loop ::
    "'f file_ops \<Rightarrow> sstable \<Rightarrow> bytes \<Rightarrow> 'f \<Rightarrow> iterator \<Rightarrow> (errc option \<times> 'f \<times> iterator) option" where
  "seek_loop ops st key f it =
     (case it_key it of
        None \<Rightarrow> None
      | Some k \<Rightarrow>
          if k < key then
            (case it_next ops st f it of
               (Some ec, f', it') \<Rightarrow> Some (Some ec, f', it')
             | (None, f', it') \<Rightarrow> seek_loop ops st key f' it')
          else Some (None, f, it))"

definition it_seek ::
    "'f file_ops \<Rightarrow> sstable \<Rightarrow> bytes \<Rightarrow> 'f \<Rightarrow> iterator \<Rightarrow> (errc option \<times> 'f \<times> iterator) option" where
  "it_seek ops st key f it =
     (case lower_bound (map_option (\<lambda>k. k < key)) (st_keys st) of
        None \<Rightarrow> None
      | Some i \<Rightarrow>
          if i = length (st_keys st) then Some (Some No_message_available, f, it)
          else case it_read ops st f (it\<lparr>it_block := i, it_offset := 0\<rparr>) of
                 (Some ec, f', it') \<Rightarrow> Some (Some ec, f', it')
               | (None, f', it') \<Rightarrow> seek_loop ops st key f' it')"

definition sstable_lookup :: "'f file_ops \<Rightarrow> sstable \<Rightarrow> 'f \<Rightarrow> bytes \<Rightarrow> ((errc + bytes) \<times> 'f) option" where
  "sstable_lookup ops st f key =
     (case it_seek ops st key f iterator_new of
        None \<Rightarrow> None
      | Some (Some ec, f', it) \<Rightarrow> Some (Inl ec, f')
      | Some (None, f', it) \<Rightarrow>
          (case it_key it of
             None \<Rightarrow> None
           | Some k \<Rightarrow>
               if k \<noteq> key then Some (Inl No_message_available, f')
               else (case it_value it of None \<Rightarrow> None | Some v \<Rightarrow> Some (Inr v, f'))))"

end
