(* ===== verification/SSTable_Builder.thy ===== *)
theory SSTable_Builder
  imports SSTable
begin

text \<open>
  What \<^verbatim>\<open>SSTableBuilder\<close> writes: the format of a table as a function of the grouping of its entries
  into blocks, and the proof that \<^verbatim>\<open>add\<close> and \<^verbatim>\<open>finish\<close>, with whatever flushes in between, leave exactly
  those bytes in a file that was empty.
\<close>

type_synonym table_entry = "bytes \<times> bytes"

section \<open>The format\<close>

definition entry_bytes :: "table_entry \<Rightarrow> bytes" where
  "entry_bytes e = store_s32 (int (length (fst e))) @ store_s32 (int (length (snd e))) @ fst e @ snd e"

definition data_of :: "table_entry list \<Rightarrow> bytes" where
  "data_of es = concat (map entry_bytes es)"

primrec blocks_from :: "int \<Rightarrow> table_entry list list \<Rightarrow> builder_block list" where
  "blocks_from off [] = []"
| "blocks_from off (g # gs) =
     \<lparr>bb_offset = off, bb_size = int (length (data_of g)), bb_last = fst (last g)\<rparr> #
     blocks_from (off + int (length (data_of g))) gs"

definition index_bytes :: "builder_block \<Rightarrow> bytes" where
  "index_bytes b = store_s64 (bb_offset b) @ store_s32 (bb_size b) @ store_s32 (int (length (bb_last b)))"

definition keys_of :: "table_entry list list \<Rightarrow> bytes list" where
  "keys_of gs = map (\<lambda>g. fst (last g)) gs"

definition index_of_groups :: "table_entry list list \<Rightarrow> bytes" where
  "index_of_groups gs = concat (map index_bytes (blocks_from 0 gs))"

definition table_bytes :: "table_entry list list \<Rightarrow> bytes" where
  "table_bytes gs =
     data_of (concat gs) @ index_of_groups gs @ concat (keys_of gs) @
     store_s32 (int (length gs)) @ store_s32 (int (length (concat (keys_of gs))))"

text \<open>The grouping that \<^verbatim>\<open>add\<close> makes.\<close>

definition regroup :: "int \<Rightarrow> table_entry list list \<Rightarrow> table_entry \<Rightarrow> table_entry list list" where
  "regroup block_size gs e =
     (if gs = [] \<or> int (length (data_of (last gs)) + length (entry_bytes e)) > block_size then gs @ [[e]]
      else butlast gs @ [last gs @ [e]])"

definition groups_ok :: "table_entry list list \<Rightarrow> bool" where
  "groups_ok gs \<longleftrightarrow> (\<forall>g \<in> set gs. g \<noteq> [] \<and> int (length (data_of g)) \<le> max_block_size)"

definition entry_ok :: "table_entry \<Rightarrow> bool" where
  "entry_ok e \<longleftrightarrow> 8 + int (length (fst e)) + int (length (snd e)) \<le> max_block_size"

lemma length_stores [simp]: "length (store_s32 i) = 4" "length (store_s64 i) = 8"
  by (simp_all add: store_s32_def store_s64_def)

lemma length_entry_bytes [simp]: "length (entry_bytes e) = 8 + length (fst e) + length (snd e)"
  by (simp add: entry_bytes_def)

lemma data_of_simps [simp]:
  "data_of [] = []" "data_of (e # es) = entry_bytes e @ data_of es" "data_of (xs @ ys) = data_of xs @ data_of ys"
  by (simp_all add: data_of_def)

lemma length_index_bytes [simp]: "length (index_bytes b) = 16"
  by (simp add: index_bytes_def)

lemma blocks_from_append:
  "blocks_from off (gs @ hs) =
     blocks_from off gs @ blocks_from (off + int (length (data_of (concat gs)))) hs"
  by (induction gs arbitrary: off) (auto simp: algebra_simps)

lemma length_blocks_from [simp]: "length (blocks_from off gs) = length gs"
  by (induction gs arbitrary: off) auto

lemma lasts_of_blocks: "map bb_last (blocks_from off gs) = keys_of gs"
  by (induction gs arbitrary: off) (auto simp: keys_of_def)

lemma regroup_concat: "concat (regroup block_size gs e) = concat gs @ [e]"
  by (cases gs rule: rev_cases) (auto simp: regroup_def)

lemma regroup_ok:
  assumes "groups_ok gs" and "entry_ok e" and "block_size \<le> max_block_size"
  shows "groups_ok (regroup block_size gs e)"
  using assms by (cases gs rule: rev_cases) (auto simp: groups_ok_def regroup_def entry_ok_def)

lemma add_block_regroup:
  assumes "groups_ok gs" and "entry_ok e" and "int (length (data_of (concat gs))) < 2 ^ 63"
  shows "add_block block_size (blocks_from 0 gs) (fst e) (int (length (entry_bytes e))) =
    Some (blocks_from 0 (regroup block_size gs e))"
proof (cases gs rule: rev_cases)
  case Nil
  then show ?thesis by (simp add: add_block_def regroup_def)
next
  case (snoc gs0 g)
  let ?off = "int (length (data_of (concat gs0)))" and ?n = "int (length (data_of g))"
  have n: "?n \<le> max_block_size" and e: "int (length (entry_bytes e)) \<le> max_block_size"
    using assms(1,2) by (auto simp: snoc groups_ok_def entry_ok_def)
  have ok: "int32_ok (?n + int (length (entry_bytes e)))" using n e by (simp add: int32_ok_def max_block_size_def)
  have ok64: "int64_ok (?off + ?n)" using assms(3) by (simp add: snoc int64_ok_def)
  show ?thesis using ok ok64
    by (simp add: snoc add_block_def blocks_from_append Let_def regroup_def del: length_entry_bytes)
qed

section \<open>Building a table\<close>

text \<open>A caller that adds entries until one fails, then finishes.\<close>

primrec add_entries ::
    "'f file_ops \<Rightarrow> 'f sstable_builder \<Rightarrow> table_entry list \<Rightarrow> (errc option \<times> 'f sstable_builder) option" where
  "add_entries ops b [] = Some (None, b)"
| "add_entries ops b (e # es) =
     (case builder_add ops b (fst e) (snd e) of
        None \<Rightarrow> None
      | Some (Some ec, b') \<Rightarrow> Some (Some ec, b')
      | Some (None, b') \<Rightarrow> add_entries ops b' es)"

definition build_table ::
    "'f file_ops \<Rightarrow> 'f \<Rightarrow> int \<Rightarrow> nat \<Rightarrow> table_entry list \<Rightarrow> (errc option \<times> 'f) option" where
  "build_table ops f block_size flush_size es =
     (case add_entries ops (builder_new f block_size flush_size) es of
        None \<Rightarrow> None
      | Some (Some ec, b) \<Rightarrow> Some (Some ec, bd_file b)
      | Some (None, b) \<Rightarrow> (case builder_finish ops b of (ec, b') \<Rightarrow> Some (ec, bd_file b')))"

section \<open>Buffering and flushing\<close>

lemma overwrite_pieces:
  "n = length xs + length ys \<Longrightarrow>
   overwrite (length zs + length xs) ys (overwrite (length zs) xs (zs @ replicate n a)) = zs @ xs @ ys"
  by (simp add: overwrite_def)

lemma overwrite_into_pad:
  "overwrite (length zs) xs (zs @ replicate n a) = zs @ xs @ replicate (n - length xs) a"
  by (simp add: overwrite_def)

definition same_options :: "'f sstable_builder \<Rightarrow> 'f sstable_builder \<Rightarrow> bool" where
  "same_options b b' \<longleftrightarrow> bd_block_size b' = bd_block_size b \<and> bd_flush_size b' = bd_flush_size b \<and>
     bd_blocks b' = bd_blocks b"

context full_file
begin

definition stream :: "'f sstable_builder \<Rightarrow> bytes" where
  "stream b = contents (bd_file b) @ bd_buffer b"

definition at_end :: "'f sstable_builder \<Rightarrow> bool" where
  "at_end b \<longleftrightarrow> pos (bd_file b) = length (contents (bd_file b))"

lemma builder_flush_stream:
  assumes "at_end b"
  obtains b' where "builder_flush ops b = (None, b')" and "stream b' = stream b" and "at_end b'"
    and "same_options b b'" and "bd_buffer b' = []"
proof -
  obtain f' where "write_op ops (bd_file b) (bd_buffer b) = (Inr (length (bd_buffer b)), f')"
    and "contents f' = contents (bd_file b) @ bd_buffer b" and "pos f' = length (contents f')"
    using assms unfolding at_end_def by (rule write_at_end)
  then show thesis
    by (intro that [of "b\<lparr>bd_file := f', bd_buffer := []\<rparr>"])
      (simp_all add: builder_flush_def stream_def at_end_def same_options_def)
qed

lemma flush_if_full_stream:
  assumes "at_end b"
  obtains b' where "flush_if_full ops b = (None, b')" and "stream b' = stream b" and "at_end b'"
    and "same_options b b'"
proof (cases "length (bd_buffer b) \<ge> bd_flush_size b")
  case True
  from assms show thesis
    by (rule builder_flush_stream) (rule that, use True in \<open>simp_all add: flush_if_full_def\<close>)
next
  case False
  with assms show thesis by (intro that [of b]) (simp_all add: flush_if_full_def same_options_def)
qed

lemma builder_add_stream:
  assumes "at_end b" and "bd_blocks b = blocks_from 0 gs" and "groups_ok gs" and "entry_ok e"
    and "int (length (data_of (concat gs))) < 2 ^ 63"
  obtains b' where "builder_add ops b (fst e) (snd e) = Some (None, b')"
    and "stream b' = stream b @ entry_bytes e" and "at_end b'"
    and "bd_blocks b' = blocks_from 0 (regroup (bd_block_size b) gs e)"
    and "bd_block_size b' = bd_block_size b" and "bd_flush_size b' = bd_flush_size b"
proof -
  let ?b = "b\<lparr>bd_buffer := bd_buffer b @ entry_bytes e, bd_blocks := blocks_from 0 (regroup (bd_block_size b) gs e)\<rparr>"
  have "at_end ?b" using assms(1) by (simp add: at_end_def)
  then obtain b' where f: "flush_if_full ops ?b = (None, b')" "stream b' = stream ?b" "at_end b'" "same_options ?b b'"
    by (rule flush_if_full_stream)
  have ok: "int32_ok (8 + int (length (fst e)) + int (length (snd e)))"
    using assms(4) by (simp add: entry_ok_def int32_ok_def max_block_size_def)
  have "builder_add ops b (fst e) (snd e) = Some (flush_if_full ops ?b)"
    using add_block_regroup [OF assms(3-5), of "bd_block_size b"] ok
    by (simp add: builder_add_def Let_def assms(2) overwrite_def resize_def entry_bytes_def add.assoc)
  with f show thesis by (intro that [of b']) (simp_all add: stream_def same_options_def)
qed

lemma finish_index_stream:
  assumes "at_end b"
  obtains b' where "finish_index ops b blocks = (None, b')"
    and "stream b' = stream b @ concat (map index_bytes blocks)" and "at_end b'" and "same_options b b'"
  using assms
proof (induction blocks arbitrary: b thesis)
  case Nil
  then show ?case by (simp add: same_options_def)
next
  case (Cons block blocks)
  let ?b = "b\<lparr>bd_buffer := bd_buffer b @ index_bytes block\<rparr>"
  have "at_end ?b" using Cons.prems(2) by (simp add: at_end_def)
  then obtain b1 where f: "flush_if_full ops ?b = (None, b1)" "stream b1 = stream ?b" "at_end b1" "same_options ?b b1"
    by (rule flush_if_full_stream)
  obtain b2 where g: "finish_index ops b1 blocks = (None, b2)"
    "stream b2 = stream b1 @ concat (map index_bytes blocks)" "at_end b2" "same_options b1 b2"
    using Cons.IH f(3) by blast
  have "finish_index ops b (block # blocks) = (None, b2)"
    using f(1) g(1) by (simp add: Let_def overwrite_def resize_def index_bytes_def)
  with f g show ?case by (intro Cons.prems(1) [of b2]) (simp_all add: stream_def same_options_def)
qed

lemma finish_keys_stream:
  assumes "at_end b"
  obtains b' where "finish_keys ops b keys_size blocks =
      (Inr (keys_size + of_nat (length (concat (map bb_last blocks)))), b')"
    and "stream b' = stream b @ concat (map bb_last blocks)" and "at_end b'" and "same_options b b'"
  using assms
proof (induction blocks arbitrary: b keys_size thesis)
  case Nil
  then show ?case by (simp add: same_options_def)
next
  case (Cons block blocks)
  let ?b = "b\<lparr>bd_buffer := bd_buffer b @ bb_last block\<rparr>"
  let ?k = "keys_size + of_nat (length (bb_last block))"
  have "at_end ?b" using Cons.prems(2) by (simp add: at_end_def)
  then obtain b1 where f: "flush_if_full ops ?b = (None, b1)" "stream b1 = stream ?b" "at_end b1" "same_options ?b b1"
    by (rule flush_if_full_stream)
  obtain b2 where g: "finish_keys ops b1 ?k blocks = (Inr (?k + of_nat (length (concat (map bb_last blocks)))), b2)"
    "stream b2 = stream b1 @ concat (map bb_last blocks)" "at_end b2" "same_options b1 b2"
    using Cons.IH f(3) by blast
  have "finish_keys ops b keys_size (block # blocks) = (Inr (?k + of_nat (length (concat (map bb_last blocks)))), b2)"
    using f(1) g(1) by (simp add: Let_def overwrite_def resize_def)
  with f g show ?case by (intro Cons.prems(1) [of b2]) (simp_all add: stream_def same_options_def add.assoc)
qed

lemma builder_finish_stream:
  assumes "at_end b" and "bd_blocks b = blocks_from 0 gs" and "stream b = data_of (concat gs)"
  obtains b' where "builder_finish ops b = (None, b')" and "contents (bd_file b') = table_bytes gs"
proof -
  obtain b1 where i: "finish_index ops b (bd_blocks b) = (None, b1)"
    "stream b1 = stream b @ concat (map index_bytes (bd_blocks b))" "at_end b1" "same_options b b1"
    using assms(1) by (rule finish_index_stream)
  let ?k = "of_nat (length (concat (keys_of gs))) :: u32"
  obtain b2 where k: "finish_keys ops b1 0 (bd_blocks b) = (Inr ?k, b2)"
    "stream b2 = stream b1 @ concat (keys_of gs)" "at_end b2" "same_options b1 b2"
    using finish_keys_stream [OF i(3), of 0 "bd_blocks b"] by (auto simp: assms(2) lasts_of_blocks)
  let ?t = "store_s32 (int (length gs)) @ store_little 4 ?k"
  let ?b = "b2\<lparr>bd_buffer := bd_buffer b2 @ ?t\<rparr>"
  have "at_end ?b" using k(3) by (simp add: at_end_def)
  then obtain b3 where f: "builder_flush ops ?b = (None, b3)" "stream b3 = stream ?b" "bd_buffer b3 = []"
    by (rule builder_flush_stream)
  have "builder_finish ops b = (None, b3)"
    using i(1) k(1) f(1)
    by (simp add: builder_finish_def Let_def overwrite_def resize_def assms(2) i(4) [unfolded same_options_def])
  moreover have "contents (bd_file b3) = table_bytes gs"
    using f(2,3) k(2) i(2) assms(2,3)
    by (simp add: stream_def table_bytes_def index_of_groups_def store_s32_def)
  ultimately show thesis by (rule that)
qed

lemma add_entries_stream:
  assumes "at_end b" and "bd_blocks b = blocks_from 0 gs" and "groups_ok gs"
    and "\<forall>e \<in> set es. entry_ok e" and "bd_block_size b \<le> max_block_size"
    and "int (length (data_of (concat gs @ es))) < 2 ^ 63"
  obtains b' gs' where "add_entries ops b es = Some (None, b')" and "stream b' = stream b @ data_of es"
    and "at_end b'" and "bd_blocks b' = blocks_from 0 gs'" and "groups_ok gs'" and "concat gs' = concat gs @ es"
  using assms
proof (induction es arbitrary: b gs thesis)
  case Nil
  then show ?case by simp
next
  case (Cons e es)
  let ?gs = "regroup (bd_block_size b) gs e"
  have "int (length (data_of (concat gs))) < 2 ^ 63" using Cons.prems(7) by simp
  moreover have e: "entry_ok e" using Cons.prems(5) by simp
  ultimately obtain b1 where a: "builder_add ops b (fst e) (snd e) = Some (None, b1)"
    "stream b1 = stream b @ entry_bytes e" "at_end b1" "bd_blocks b1 = blocks_from 0 ?gs"
    "bd_block_size b1 = bd_block_size b"
    using builder_add_stream [OF Cons.prems(2-4)] by metis
  have "groups_ok ?gs" by (rule regroup_ok) fact+
  then obtain b' gs' where "add_entries ops b1 es = Some (None, b')" "stream b' = stream b1 @ data_of es"
    "at_end b'" "bd_blocks b' = blocks_from 0 gs'" "groups_ok gs'" "concat gs' = concat ?gs @ es"
    using Cons.IH [OF _ a(3,4)] Cons.prems(5-7) a(5) by (auto simp: regroup_concat)
  with a show ?case by (intro Cons.prems(1) [of b' gs']) (simp_all add: regroup_concat)
qed

lemma build_table_bytes:
  assumes "contents f = []" and "pos f = 0" and "\<forall>e \<in> set es. entry_ok e" and "block_size \<le> max_block_size"
    and "int (length (data_of es)) < 2 ^ 63"
  obtains f' gs where "build_table ops f block_size flush_size es = Some (None, f')"
    and "contents f' = table_bytes gs" and "groups_ok gs" and "concat gs = es"
proof -
  let ?b = "builder_new f block_size flush_size"
  have "at_end ?b" "bd_blocks ?b = blocks_from 0 []" "groups_ok []" "bd_block_size ?b \<le> max_block_size"
    "int (length (data_of (concat [] @ es))) < 2 ^ 63"
    using assms by (simp_all add: builder_new_def at_end_def groups_ok_def)
  with assms(3) obtain b' gs where a: "add_entries ops ?b es = Some (None, b')" "stream b' = stream ?b @ data_of es"
    "at_end b'" "bd_blocks b' = blocks_from 0 gs" "groups_ok gs" "concat gs = concat [] @ es"
    using add_entries_stream [of ?b "[]" es] by metis
  have "stream b' = data_of (concat gs)" using a(2,6) assms(1) by (simp add: stream_def builder_new_def)
  with a(3,4) obtain b'' where "builder_finish ops b' = (None, b'')" "contents (bd_file b'') = table_bytes gs"
    by (rule builder_finish_stream)
  with a show thesis by (intro that [of "bd_file b''" gs]) (simp_all add: build_table_def)
qed

end

end
