(* ===== verification/SSTable_Reader.thy ===== *)
theory SSTable_Reader
  imports SSTable_Builder
begin

text \<open>
  \<^verbatim>\<open>SSTable\<close> and its iterator read back what the builder wrote: \<^verbatim>\<open>init\<close> recovers the block list and the
  block keys, the iterator walks the entries in order, and \<^verbatim>\<open>lookup\<close> is the lookup in the association
  list of entries.
\<close>

section \<open>Walking a table\<close>

text \<open>A caller that reads all entries: \<^verbatim>\<open>start\<close>, then \<^verbatim>\<open>key\<close>, \<^verbatim>\<open>value\<close> and \<^verbatim>\<open>next\<close> until an error, which
  is returned with the entries.\<close>

partial_function (option) scan_loop ::
    "'f file_ops \<Rightarrow> sstable \<Rightarrow> 'f \<Rightarrow> iterator \<Rightarrow> table_entry list \<Rightarrow> (table_entry list \<times> errc \<times> 'f) option" where
  "scan_loop ops st f it acc =
     (case it_key it of
        None \<Rightarrow> None
      | Some k \<Rightarrow>
          (case it_value it of
             None \<Rightarrow> None
           | Some v \<Rightarrow>
               (case it_next ops st f it of
                  (Some ec, f', it') \<Rightarrow> Some (acc @ [(k, v)], ec, f')
                | (None, f', it') \<Rightarrow> scan_loop ops st f' it' (acc @ [(k, v)]))))"

definition scan_table :: "'f file_ops \<Rightarrow> sstable \<Rightarrow> 'f \<Rightarrow> (table_entry list \<times> errc \<times> 'f) option" where
  "scan_table ops st f =
     (case it_start ops st f iterator_new of
        (Some ec, f', it) \<Rightarrow> Some ([], ec, f')
      | (None, f', it) \<Rightarrow> scan_loop ops st f' it [])"

section \<open>Reading fields back\<close>

lemma load_s32_at: "int32_ok i \<Longrightarrow> n = length xs \<Longrightarrow> load_s32 (xs @ store_s32 i @ ys) n = i"
  by (simp add: load_s32_def store_s32_def load_store_little_full sint_u32)

lemma load_s64_at: "int64_ok i \<Longrightarrow> n = length xs \<Longrightarrow> load_s64 (xs @ store_s64 i @ ys) n = i"
  by (simp add: load_s64_def store_s64_def load_store_little_full sint_u64)

section \<open>The index\<close>

definition table_blocks :: "int \<Rightarrow> table_entry list list \<Rightarrow> table_block list" where
  "table_blocks off gs = map (\<lambda>b. \<lparr>tb_offset = bb_offset b, tb_size = bb_size b\<rparr>) (blocks_from off gs)"

definition table_of :: "table_entry list list \<Rightarrow> sstable" where
  "table_of gs = \<lparr>st_blocks = table_blocks 0 gs, st_keys = map Some (keys_of gs)\<rparr>"

text \<open>The limits of the format: what \<^verbatim>\<open>init\<close> computes in 32 bits stays in 32 bits.\<close>

definition table_fits :: "table_entry list list \<Rightarrow> bool" where
  "table_fits gs \<longleftrightarrow> int (16 * length gs + length (concat (keys_of gs)) + 8) < 2 ^ 31 \<and>
     int (length (data_of (concat gs))) < 2 ^ 62"

lemma data_pos: "g \<noteq> [] \<Longrightarrow> 0 < length (data_of g)"
  by (cases g) auto

lemma load_index_bytes:
  assumes "int64_ok (bb_offset b)" and "int32_ok (bb_size b)" and "int32_ok (int (length (bb_last b)))" and "p = length xs"
  shows "load_s64 (xs @ index_bytes b @ ys) p = bb_offset b" and "load_s32 (xs @ index_bytes b @ ys) (p + 8) = bb_size b"
    and "load_s32 (xs @ index_bytes b @ ys) (p + 12) = int (length (bb_last b))"
proof -
  show "load_s64 (xs @ index_bytes b @ ys) p = bb_offset b"
    using load_s64_at [OF assms(1,4)] by (simp add: index_bytes_def)
  show "load_s32 (xs @ index_bytes b @ ys) (p + 8) = bb_size b"
    using load_s32_at [OF assms(2), of "p + 8" "xs @ store_s64 (bb_offset b)"] assms(4) by (simp add: index_bytes_def)
  show "load_s32 (xs @ index_bytes b @ ys) (p + 12) = int (length (bb_last b))"
    using load_s32_at [OF assms(3), of "p + 12" "xs @ store_s64 (bb_offset b) @ store_s32 (bb_size b)"] assms(4)
    by (simp add: index_bytes_def)
qed

lemma init_loop_table:
  assumes "groups_ok gs" and "0 \<le> off" and "off + int (length (data_of (concat gs))) < 2 ^ 63"
    and "int (length kpre + length (concat (keys_of gs))) < 2 ^ 31"
    and "index = length bpre"
  shows "init_loop (concat (map index_bytes bpre) @ concat (map index_bytes (blocks_from off gs)))
      (kpre @ concat (keys_of gs)) index (length gs) (of_nat (length kpre)) st =
    Inr \<lparr>st_blocks = st_blocks st @ table_blocks off gs, st_keys = st_keys st @ map Some (keys_of gs)\<rparr>"
  using assms
proof (induction gs arbitrary: off kpre bpre st index)
  case Nil
  then show ?case by (simp add: table_blocks_def keys_of_def)
next
  case (Cons g gs)
  let ?key = "fst (last g)" and ?n = "int (length (data_of g))"
  let ?b = "\<lparr>bb_offset = off, bb_size = ?n, bb_last = ?key\<rparr>"
  let ?pre = "concat (map index_bytes bpre)"
  let ?rest = "concat (map index_bytes (blocks_from (off + ?n) gs))"
  let ?buf = "?pre @ index_bytes ?b @ ?rest"
  let ?keys = "kpre @ ?key @ concat (keys_of gs)"
  have len: "length ?pre = index * 16" using Cons.prems(5) by (induction bpre arbitrary: index) auto
  have g: "g \<noteq> []" "?n \<le> max_block_size" and gs: "groups_ok gs" using Cons.prems(1) by (auto simp: groups_ok_def)
  have klen: "int (length kpre + length ?key + length (concat (keys_of gs))) < 2 ^ 31"
    using Cons.prems(4) by (simp add: keys_of_def)
  have k_ok: "int32_ok (int (length ?key))" using klen by (simp add: int32_ok_def)
  have off_ok: "int64_ok off" using Cons.prems(2,3) by (simp add: int64_ok_def)
  have n_ok: "int32_ok ?n" using g by (simp add: int32_ok_def max_block_size_def)
  have "bb_offset ?b = off" "bb_size ?b = ?n" "bb_last ?b = ?key" by simp_all
  note loads = load_index_bytes [of ?b, unfolded this, OF off_ok n_ok k_ok len [symmetric], of ?rest]
  have off64: "unat (of_nat (length kpre) :: u64) = length kpre"
    using klen by (intro unat_of_nat_small) simp
  have span: "span_of ?keys (length kpre) (int (length ?key)) = Some ?key" by (simp add: span_of_def)
  have sum: "of_nat (length kpre) + word_of_int (int (length ?key)) = (of_nat (length (kpre @ ?key)) :: u64)" by simp
  have le: "(of_nat (length (kpre @ ?key)) :: u64) \<le> of_nat (length ?keys)"
    using klen by (subst word_le_nat_alt) (simp add: unat_of_nat_small del: of_nat_add)
  have ih: "init_loop (concat (map index_bytes (bpre @ [?b])) @ concat (map index_bytes (blocks_from (off + ?n) gs)))
      ((kpre @ ?key) @ concat (keys_of gs)) (Suc index) (length gs) (of_nat (length (kpre @ ?key)))
      \<lparr>st_blocks = st_blocks st @ [\<lparr>tb_offset = off, tb_size = ?n\<rparr>], st_keys = st_keys st @ [Some ?key]\<rparr> =
    Inr \<lparr>st_blocks = st_blocks st @ table_blocks off (g # gs), st_keys = st_keys st @ map Some (keys_of (g # gs))\<rparr>"
    using Cons.prems klen gs by (subst Cons.IH) (simp_all add: table_blocks_def keys_of_def)
  have "init_loop ?buf ?keys index (Suc (length gs)) (of_nat (length kpre)) st =
      init_loop ?buf ?keys (Suc index) (length gs) (of_nat (length (kpre @ ?key)))
        \<lparr>st_blocks = st_blocks st @ [\<lparr>tb_offset = off, tb_size = ?n\<rparr>], st_keys = st_keys st @ [Some ?key]\<rparr>"
    using g data_pos [OF g(1)] le [folded not_less] unfolding init_loop.simps Let_def loads off64 span sum
    by simp
  with ih show ?case by (simp add: keys_of_def)
qed

context full_file
begin

lemma pread_contents:
  assumes "contents f = xs @ ys @ zs"
  obtains f' where "pread_op ops f (int (length xs)) (length ys) = (Inr ys, f')" and "contents f' = contents f"
  using pread_full [of f "length xs" "length ys"] assms by auto

lemma sstable_init_loop:
  assumes c: "contents f = table_bytes gs" and fits: "table_fits gs"
  obtains f' where "sstable_init ops f = Some (init_loop (index_of_groups gs) (concat (keys_of gs)) 0 (length gs) 0
      \<lparr>st_blocks = [], st_keys = []\<rparr>, f')" and "contents f' = contents f"
proof -
  let ?data = "data_of (concat gs)" and ?index = "index_of_groups gs" and ?keys = "concat (keys_of gs)"
  let ?nb = "int (length gs)" and ?ks = "int (length ?keys)"
  let ?trailer = "store_s32 ?nb @ store_s32 ?ks"
  have split: "contents f = ?data @ ?index @ ?keys @ ?trailer" by (simp add: c table_bytes_def)
  have ilen: "length ?index = length gs * 16"
  proof -
    have "length (concat (map index_bytes bs)) = length bs * 16" for bs by (induction bs) auto
    then show ?thesis by (simp add: index_of_groups_def)
  qed
  let ?fs = "int (length (contents f))"
  have fs: "?fs = int (length ?data) + ?nb * 16 + ?ks + 8" by (simp add: split ilen)
  have nb_ok: "int32_ok ?nb" and ks_ok: "int32_ok ?ks" and "int32_ok (?nb * 16)" "int32_ok (?nb * 16 + ?ks)"
    "int32_ok (?nb * 16 + ?ks + 8)" using fits by (simp_all add: table_fits_def int32_ok_def)
  have t0: "load_s32 ?trailer 0 = ?nb" using load_s32_at [OF nb_ok, of 0 "[]" "store_s32 ?ks"] by simp
  have t4: "load_s32 ?trailer 4 = ?ks" using load_s32_at [OF ks_ok, of 4 "store_s32 ?nb" "[]"] by simp
  obtain f1 where s: "size_op ops f = (Inr ?fs, f1)" "contents f1 = contents f" using size_full by blast
  obtain f2 where r2: "pread_op ops f1 (?fs - 8) 8 = (Inr ?trailer, f2)" "contents f2 = contents f"
    using pread_contents [of f1 "?data @ ?index @ ?keys" ?trailer "[]"] s(2) split by (auto simp: fs ilen)
  obtain f3 where r3: "pread_op ops f2 (?fs - (?nb * 16 + ?ks + 8)) (nat (?nb * 16)) = (Inr ?index, f3)" "contents f3 = contents f"
    using pread_contents [of f2 ?data ?index "?keys @ ?trailer"] r2(2) split by (auto simp: fs ilen nat_mult_distrib)
  obtain f4 where r4: "pread_op ops f3 (?fs - (?ks + 8)) (nat ?ks) = (Inr ?keys, f4)" "contents f4 = contents f"
    using pread_contents [of f3 "?data @ ?index" ?keys ?trailer] r3(2) split by (auto simp: fs ilen)
  have "\<not> ?fs < 8" "\<not> ?fs < ?nb * 16 + ?ks + 8" unfolding fs by simp_all
  moreover have "overwrite 0 ?index (replicate (nat (?nb * 16)) 0) = ?index"
    using ilen by (simp add: overwrite_def nat_mult_distrib)
  moreover have "overwrite 0 ?keys (replicate (nat ?ks) 0) = ?keys" by (simp add: overwrite_def)
  ultimately have "sstable_init ops f = Some (init_loop ?index ?keys 0 (length gs) 0 \<lparr>st_blocks = [], st_keys = []\<rparr>, f4)"
    using s(1) r2(1) r3(1) r4(1) t0 t4 \<open>int32_ok (?nb * 16)\<close> \<open>int32_ok (?nb * 16 + ?ks)\<close> \<open>int32_ok (?nb * 16 + ?ks + 8)\<close>
    unfolding sstable_init_def by (simp add: Let_def)
  then show thesis using r4(2) by (rule that)
qed

lemma sstable_init_table:
  assumes "contents f = table_bytes gs" and "groups_ok gs" and "table_fits gs"
  obtains f' where "sstable_init ops f = Some (Inr (table_of gs), f')" and "contents f' = contents f"
proof -
  have "init_loop (index_of_groups gs) (concat (keys_of gs)) 0 (length gs) 0 \<lparr>st_blocks = [], st_keys = []\<rparr> =
      Inr (table_of gs)"
    using init_loop_table [of gs 0 "[]" 0 "[]" "\<lparr>st_blocks = [], st_keys = []\<rparr>"] assms(2,3)
    by (simp add: index_of_groups_def table_of_def table_fits_def)
  with sstable_init_loop [OF assms(1,3)] that show thesis by metis
qed

end

section \<open>The iterator\<close>

text \<open>The iterator stands at the head of \<open>es\<close>: inside block \<open>it_block\<close>, after the entries \<open>es1\<close>
  of that block.\<close>

definition positioned :: "table_entry list list \<Rightarrow> iterator \<Rightarrow> table_entry list \<Rightarrow> bool" where
  "positioned gs it es \<longleftrightarrow>
     (\<exists>es1 es2. it_block it < length gs \<and> gs ! it_block it = es1 @ es2 \<and> es2 \<noteq> [] \<and>
        it_buffer it = data_of (gs ! it_block it) \<and> it_offset it = length (data_of es1) \<and>
        es = es2 @ concat (drop (Suc (it_block it)) gs))"

lemma blocks_from_nth:
  "i < length gs \<Longrightarrow> blocks_from off gs ! i =
     \<lparr>bb_offset = off + int (length (data_of (concat (take i gs)))), bb_size = int (length (data_of (gs ! i))),
      bb_last = fst (last (gs ! i))\<rparr>"
proof (induction gs arbitrary: off i)
  case (Cons g gs)
  then show ?case by (cases i) auto
qed simp

lemma entry_fields:
  assumes "length (data_of es1) + length (data_of (e # es2)) \<le> 2 ^ 30"
  defines "buf \<equiv> data_of (es1 @ e # es2)" and "i \<equiv> length (data_of es1)"
  shows "load_s32 buf i = int (length (fst e))" and "load_s32 buf (i + 4) = int (length (snd e))"
    and "span_of buf (i + 8) (int (length (fst e))) = Some (fst e)"
    and "span_of buf (i + 8 + length (fst e)) (int (length (snd e))) = Some (snd e)"
proof -
  let ?k = "int (length (fst e))" and ?v = "int (length (snd e))"
  have ok: "int32_ok ?k" "int32_ok ?v" using assms(1) by (simp_all add: int32_ok_def)
  have buf: "buf = data_of es1 @ store_s32 ?k @ store_s32 ?v @ fst e @ snd e @ data_of es2"
    by (simp add: buf_def entry_bytes_def)
  show "load_s32 buf i = ?k" unfolding buf by (rule load_s32_at [OF ok(1)]) (simp add: i_def)
  show "load_s32 buf (i + 4) = ?v"
    using load_s32_at [OF ok(2), of "i + 4" "data_of es1 @ store_s32 ?k"] unfolding buf by (simp add: i_def)
  show "span_of buf (i + 8) ?k = Some (fst e)"
    unfolding buf by (simp add: span_of_def i_def)
  show "span_of buf (i + 8 + length (fst e)) ?v = Some (snd e)"
    unfolding buf by (simp add: span_of_def i_def)
qed

lemma positionedE:
  assumes "positioned gs it es" and "groups_ok gs"
  obtains es1 e es2 where "it_block it < length gs" and "gs ! it_block it = es1 @ e # es2"
    and "it_buffer it = data_of (es1 @ e # es2)" and "it_offset it = length (data_of es1)"
    and "es = e # es2 @ concat (drop (Suc (it_block it)) gs)"
    and "length (data_of es1) + length (data_of (e # es2)) \<le> 2 ^ 30"
proof -
  obtain es1 es2 where p: "it_block it < length gs" "gs ! it_block it = es1 @ es2" "es2 \<noteq> []"
    "it_buffer it = data_of (gs ! it_block it)" "it_offset it = length (data_of es1)"
    "es = es2 @ concat (drop (Suc (it_block it)) gs)"
    using assms(1) unfolding positioned_def by blast
  obtain e es2' where e: "es2 = e # es2'" using p(3) by (cases es2) auto
  have "gs ! it_block it \<in> set gs" using p(1) by simp
  then have "int (length (data_of (gs ! it_block it))) \<le> max_block_size"
    using assms(2) unfolding groups_ok_def by blast
  then have "length (data_of es1) + length (data_of (e # es2')) \<le> 2 ^ 30"
    by (simp add: p(2) e max_block_size_def)
  then show thesis using p e by (intro that [of es1 e es2']) simp_all
qed

lemma positioned_nonempty: "positioned gs it es \<Longrightarrow> es \<noteq> []"
  by (auto simp: positioned_def)

lemma it_key_value:
  assumes "positioned gs it es" and "groups_ok gs"
  shows "it_key it = Some (fst (hd es))" and "it_value it = Some (snd (hd es))"
proof -
  obtain es1 e es2 where p: "it_buffer it = data_of (es1 @ e # es2)" "it_offset it = length (data_of es1)"
    "es = e # es2 @ concat (drop (Suc (it_block it)) gs)"
    and small: "length (data_of es1) + length (data_of (e # es2)) \<le> 2 ^ 30"
    using positionedE [OF assms] by metis
  note fields = entry_fields [OF small]
  have "length (data_of es1) + 8 \<le> length (data_of (es1 @ e # es2))" by simp
  then show "it_key it = Some (fst (hd es))" "it_value it = Some (snd (hd es))"
    unfolding it_key_def it_value_def p Let_def fields by (simp_all del: data_of_simps add: fields)
qed

context full_file
begin

lemma it_read_block:
  assumes "contents f = table_bytes gs" and "i < length gs" and "groups_ok gs"
    and "it_block it = i" and "it_offset it = 0"
  obtains f' it' where "it_read ops (table_of gs) f it = (None, f', it')" and "contents f' = contents f"
    and "positioned gs it' (concat (drop i gs))"
proof -
  let ?d = "data_of (gs ! i)" and ?pre = "data_of (concat (take i gs))"
  have cat: "concat gs = concat (take i gs) @ gs ! i @ concat (drop (Suc i) gs)"
    using assms(2) by (metis append_take_drop_id concat.simps(2) concat_append Cons_nth_drop_Suc)
  then have "contents f = ?pre @ ?d @ (data_of (concat (drop (Suc i) gs)) @ index_of_groups gs @ concat (keys_of gs) @
     store_s32 (int (length gs)) @ store_s32 (int (length (concat (keys_of gs)))))"
    by (simp add: assms(1) table_bytes_def)
  then obtain f' where r: "pread_op ops f (int (length ?pre)) (length ?d) = (Inr ?d, f')" "contents f' = contents f"
    by (rule pread_contents)
  have block: "st_blocks (table_of gs) ! it_block it = \<lparr>tb_offset = int (length ?pre), tb_size = int (length ?d)\<rparr>"
    using assms(2,4) by (simp add: table_of_def table_blocks_def blocks_from_nth)
  have "gs ! i \<noteq> []" using assms(2,3) by (simp add: groups_ok_def)
  moreover have "concat (drop i gs) = gs ! i @ concat (drop (Suc i) gs)"
    using assms(2) by (metis concat.simps(2) Cons_nth_drop_Suc)
  ultimately have "positioned gs (it\<lparr>it_buffer := ?d\<rparr>) (concat (drop i gs))"
    using assms(2,4,5) unfolding positioned_def by (intro exI [of _ "[]"] exI [of _ "gs ! i"]) simp
  then show thesis using r
    by (intro that [of f' "it\<lparr>it_buffer := ?d\<rparr>"]) (simp_all add: it_read_def block Let_def overwrite_def)
qed

lemma it_next_entry:
  assumes buf: "it_buffer it = data_of (es1 @ e # es2)" and off: "it_offset it = length (data_of es1)"
    and small: "length (data_of es1) + length (data_of (e # es2)) \<le> 2 ^ 30"
  shows "it_next ops (table_of gs) f it =
    (if es2 = [] then
       (if it_block it + 1 = length gs
        then (Some No_message_available, f, it\<lparr>it_block := it_block it + 1, it_offset := length (data_of (es1 @ [e]))\<rparr>)
        else it_read ops (table_of gs) f (it\<lparr>it_block := it_block it + 1, it_offset := 0\<rparr>))
     else (None, f, it\<lparr>it_offset := length (data_of (es1 @ [e]))\<rparr>))"
proof -
  let ?off = "length (data_of (es1 @ [e]))"
  have "int (it_offset it) + 8 + int (length (fst e)) + int (length (snd e)) = int ?off" by (simp add: off)
  moreover have "int ?off mod 2 ^ 64 = int ?off" using small by (intro mod_pos_pos_trivial) simp_all
  ultimately have o': "nat ((int (it_offset it) + 8 + int (length (fst e)) + int (length (snd e))) mod 2 ^ 64) = ?off"
    by simp
  have last: "?off = length (data_of (es1 @ e # es2)) \<longleftrightarrow> es2 = []" by (cases es2) auto
  show ?thesis
    unfolding it_next_def buf off Let_def entry_fields [OF small] o' [unfolded off] last [symmetric]
    by (simp add: table_of_def table_blocks_def)
qed

lemma it_next_positioned:
  assumes c: "contents f = table_bytes gs" and ok: "groups_ok gs" and pos: "positioned gs it es"
  obtains f' it' where "contents f' = contents f"
    and "it_next ops (table_of gs) f it = (if tl es = [] then Some No_message_available else None, f', it')"
    and "tl es \<noteq> [] \<longrightarrow> positioned gs it' (tl es)"
proof -
  obtain es1 e es2 where i: "it_block it < length gs" and g: "gs ! it_block it = es1 @ e # es2"
    and buf: "it_buffer it = data_of (es1 @ e # es2)" and off: "it_offset it = length (data_of es1)"
    and es: "es = e # es2 @ concat (drop (Suc (it_block it)) gs)"
    and small: "length (data_of es1) + length (data_of (e # es2)) \<le> 2 ^ 30"
    using positionedE [OF pos ok] by metis
  let ?off = "length (data_of (es1 @ [e]))"
  note nxt = it_next_entry [OF buf off small]
  show thesis
  proof (cases "es2 = []")
    case False
    have "positioned gs (it\<lparr>it_offset := ?off\<rparr>) (tl es)"
      using i g buf es False unfolding positioned_def
      by (intro exI [of _ "es1 @ [e]"] exI [of _ es2]) simp
    then show thesis using nxt False es by (intro that [of f]) simp_all
  next
    case True
    show thesis
    proof (cases "it_block it + 1 = length gs")
      case fin: True
      then show thesis using nxt True es by (intro that [of f]) simp_all
    next
      case False
      with i have i': "it_block it + 1 < length gs" by simp
      obtain f' it' where r: "it_read ops (table_of gs) f (it\<lparr>it_block := it_block it + 1, it_offset := 0\<rparr>) = (None, f', it')"
        "contents f' = contents f" "positioned gs it' (concat (drop (it_block it + 1) gs))"
        by (rule it_read_block [OF c i' ok, of "it\<lparr>it_block := it_block it + 1, it_offset := 0\<rparr>"]) simp_all
      have "tl es = concat (drop (it_block it + 1) gs)" using es True by simp
      then show thesis using r nxt True False positioned_nonempty [OF r(3)]
        by (intro that [of f' it']) simp_all
    qed
  qed
qed

lemma seek_loop_positioned:
  assumes "groups_ok gs" and "contents f = table_bytes gs" and "positioned gs it es"
  obtains f' it' where "contents f' = contents f"
    and "seek_loop ops (table_of gs) key f it =
      Some (if dropWhile (\<lambda>e. fst e < key) es = [] then Some No_message_available else None, f', it')"
    and "dropWhile (\<lambda>e. fst e < key) es \<noteq> [] \<longrightarrow> positioned gs it' (dropWhile (\<lambda>e. fst e < key) es)"
  using assms(2,3)
proof (induction es arbitrary: f it thesis)
  case Nil
  then show ?case using positioned_nonempty by blast
next
  case (Cons e es)
  note key = it_key_value(1) [OF Cons.prems(3) assms(1)]
  note unf = seek_loop.simps [of ops "table_of gs" key f it]
  show ?case
  proof (cases "fst e < key")
    case False
    with Cons.prems(3) key unf show ?thesis by (intro Cons.prems(1) [of f it]) simp_all
  next
    case True
    obtain f1 it1 where n: "contents f1 = contents f"
      "it_next ops (table_of gs) f it = (if es = [] then Some No_message_available else None, f1, it1)"
      "es \<noteq> [] \<longrightarrow> positioned gs it1 es"
      using it_next_positioned [OF Cons.prems(2) assms(1) Cons.prems(3)] by auto
    show ?thesis
    proof (cases "es = []")
      case nil: True
      with n key unf True show ?thesis by (intro Cons.prems(1) [of f1 it1]) simp_all
    next
      case ne: False
      with n Cons.prems(2) have "contents f1 = table_bytes gs" "positioned gs it1 es" by simp_all
      then obtain f' it' where "contents f' = contents f1"
        "seek_loop ops (table_of gs) key f1 it1 =
          Some (if dropWhile (\<lambda>e. fst e < key) es = [] then Some No_message_available else None, f', it')"
        "dropWhile (\<lambda>e. fst e < key) es \<noteq> [] \<longrightarrow> positioned gs it' (dropWhile (\<lambda>e. fst e < key) es)"
        using Cons.IH [of f1 it1] by blast
      with n key unf True ne show ?thesis by (intro Cons.prems(1) [of f' it']) simp_all
    qed
  qed
qed

end

section \<open>Sorted tables\<close>

lemma groups_last:
  assumes "groups_ok gs" and "i < length gs"
  shows "keys_of gs ! i = fst (last (gs ! i))" and "gs ! i \<noteq> []"
  using assms by (auto simp: keys_of_def groups_ok_def)

text \<open>All entries of the blocks before \<open>i\<close> are at most the key of a block at or after them.\<close>

lemma entry_le_block_key:
  assumes "sorted (map fst (concat gs))" and "groups_ok gs" and "i \<le> j" and "j < length gs" and "e \<in> set (gs ! i)"
  shows "fst e \<le> keys_of gs ! j"
proof -
  have "gs = take j gs @ gs ! j # drop (Suc j) gs" using assms(4) by (simp add: id_take_nth_drop)
  then have cat: "concat gs = concat (take j gs) @ gs ! j @ concat (drop (Suc j) gs)"
    by (metis concat.simps(2) concat_append)
  have ne: "gs ! j \<noteq> []" and key: "keys_of gs ! j = fst (last (gs ! j))" using groups_last assms(2,4) by blast+
  have srt: "sorted (map fst (concat (take j gs) @ gs ! j))" using assms(1) by (simp add: cat sorted_append)
  show ?thesis
  proof (cases "i = j")
    case True
    have "sorted (map fst (butlast (gs ! j) @ [last (gs ! j)]))" using srt ne by (simp add: sorted_append)
    moreover have "e \<in> set (butlast (gs ! j) @ [last (gs ! j)])" using assms(5) True ne by simp
    ultimately show ?thesis unfolding key by (auto simp: sorted_append)
  next
    case False
    then have "gs ! i \<in> set (take j gs)" using assms(3,4) by (auto simp: in_set_conv_nth intro!: exI [of _ i])
    then have "e \<in> set (concat (take j gs))" using assms(5) by auto
    moreover have "last (gs ! j) \<in> set (gs ! j)" using ne by simp
    ultimately show ?thesis using srt unfolding key by (auto simp: sorted_append)
  qed
qed

lemma dropWhile_skip_blocks:
  assumes "sorted (map fst (concat gs))" and "groups_ok gs" and "k \<le> length gs"
    and "\<And>i. i < k \<Longrightarrow> keys_of gs ! i < key"
  shows "dropWhile (\<lambda>e. fst e < key) (concat gs) = dropWhile (\<lambda>e. fst e < key) (concat (drop k gs))"
proof -
  have "fst e < key" if e: "e \<in> set (concat (take k gs))" for e
  proof -
    obtain g where "g \<in> set (take k gs)" "e \<in> set g" using e by auto
    then obtain i where "i < k" "i < length gs" "gs ! i = g" by (auto simp: in_set_conv_nth)
    with entry_le_block_key [OF assms(1,2), of i i e] assms(4) [of i] \<open>e \<in> set g\<close> show ?thesis by fastforce
  qed
  then have "dropWhile (\<lambda>e. fst e < key) (concat (take k gs) @ concat (drop k gs)) =
      dropWhile (\<lambda>e. fst e < key) (concat (drop k gs))"
    by (rule dropWhile_append2)
  then show ?thesis by (metis append_take_drop_id concat_append)
qed

lemma map_of_dropWhile:
  assumes "sorted (map fst es)"
  shows "map_of es key = (case dropWhile (\<lambda>e. fst e < key) es of [] \<Rightarrow> None
    | e # _ \<Rightarrow> if fst e = key then Some (snd e) else None)"
  using assms
proof (induction es)
  case (Cons e es)
  have "map_of es key = None" if "key < fst e"
  proof -
    have "key \<notin> fst ` set es" using Cons.prems that by force
    then show ?thesis by (simp add: map_of_eq_None_iff)
  qed
  with Cons show ?case by (cases e) (auto simp: not_less)
qed simp

context full_file
begin

lemma it_seek_table:
  assumes ok: "groups_ok gs" and c: "contents f = table_bytes gs" and srt: "sorted (map fst (concat gs))"
  obtains f' it' where "contents f' = contents f"
    and "it_seek ops (table_of gs) key f it =
      Some (if dropWhile (\<lambda>e. fst e < key) (concat gs) = [] then Some No_message_available else None, f', it')"
    and "dropWhile (\<lambda>e. fst e < key) (concat gs) \<noteq> [] \<longrightarrow>
      positioned gs it' (dropWhile (\<lambda>e. fst e < key) (concat gs))"
proof -
  let ?keys = "map Some (keys_of gs)" and ?less = "\<lambda>k. case k of None \<Rightarrow> False | Some k \<Rightarrow> k < key"
  have len: "length (keys_of gs) = length gs" by (simp add: keys_of_def)
  have mono: "keys_of gs ! i \<le> keys_of gs ! j" if "i \<le> j" "j < length gs" for i j
    using entry_le_block_key [OF srt ok that, of "last (gs ! i)"] groups_last [OF ok, of i] that by simp
  obtain k where lb: "lower_bound (map_option (\<lambda>k. k < key)) ?keys = Some k" and k: "k \<le> length ?keys"
    and below: "\<And>i. i < k \<Longrightarrow> ?less (?keys ! i)" and above: "\<And>i. k \<le> i \<Longrightarrow> i < length ?keys \<Longrightarrow> \<not> ?less (?keys ! i)"
  proof (rule lower_bound_spec [of ?keys "map_option (\<lambda>k. k < key)" ?less])
    fix i j assume "i \<le> j" "j < length ?keys" "?less (?keys ! j)"
    then show "?less (?keys ! i)" using mono [of i j] by (simp add: len order_le_less_trans)
  qed (use that in auto)
  have "keys_of gs ! i < key" if "i < k" for i using below [OF that] that k by simp
  then have skip: "dropWhile (\<lambda>e. fst e < key) (concat gs) = dropWhile (\<lambda>e. fst e < key) (concat (drop k gs))"
    using dropWhile_skip_blocks [OF srt ok, of k key] k len by simp
  show thesis
  proof (cases "k = length gs")
    case True
    with lb skip len show thesis by (intro that [of f it]) (simp_all add: it_seek_def table_of_def)
  next
    case False
    with k len have k': "k < length gs" by simp
    obtain f1 it1 where r: "it_read ops (table_of gs) f (it\<lparr>it_block := k, it_offset := 0\<rparr>) = (None, f1, it1)"
      "contents f1 = contents f" "positioned gs it1 (concat (drop k gs))"
      by (rule it_read_block [OF c k' ok, of "it\<lparr>it_block := k, it_offset := 0\<rparr>"]) simp_all
    from r(2) c have "contents f1 = table_bytes gs" by simp
    with ok obtain f' it' where s: "contents f' = contents f1"
      "seek_loop ops (table_of gs) key f1 it1 = Some (if dropWhile (\<lambda>e. fst e < key) (concat (drop k gs)) = []
         then Some No_message_available else None, f', it')"
      "dropWhile (\<lambda>e. fst e < key) (concat (drop k gs)) \<noteq> [] \<longrightarrow>
         positioned gs it' (dropWhile (\<lambda>e. fst e < key) (concat (drop k gs)))"
      using seek_loop_positioned [OF ok _ r(3)] by metis
    have "it_seek ops (table_of gs) key f it = seek_loop ops (table_of gs) key f1 it1"
      using lb r(1) k' len by (simp add: it_seek_def table_of_def)
    with s r(2) skip show thesis by (intro that [of f' it']) simp_all
  qed
qed

lemma sstable_lookup_table:
  assumes ok: "groups_ok gs" and c: "contents f = table_bytes gs" and srt: "sorted (map fst (concat gs))"
  obtains f' where "contents f' = contents f"
    and "sstable_lookup ops (table_of gs) f key =
      Some (case map_of (concat gs) key of None \<Rightarrow> Inl No_message_available | Some v \<Rightarrow> Inr v, f')"
proof -
  let ?es = "dropWhile (\<lambda>e. fst e < key) (concat gs)"
  obtain f' it' where s: "contents f' = contents f"
    "it_seek ops (table_of gs) key f iterator_new = Some (if ?es = [] then Some No_message_available else None, f', it')"
    "?es \<noteq> [] \<longrightarrow> positioned gs it' ?es"
    using assms by (rule it_seek_table)
  show thesis
  proof (cases ?es)
    case Nil
    with s map_of_dropWhile [OF srt, of key] show thesis by (intro that [of f']) (simp_all add: sstable_lookup_def)
  next
    case (Cons e es)
    then have "positioned gs it' (e # es)" using s(3) by simp
    note kv = it_key_value [OF this ok]
    from Cons s kv map_of_dropWhile [OF srt, of key] show thesis
      by (intro that [of f']) (simp_all add: sstable_lookup_def)
  qed
qed

lemma scan_loop_positioned:
  assumes "groups_ok gs" and "contents f = table_bytes gs" and "positioned gs it es"
  shows "\<exists>f'. scan_loop ops (table_of gs) f it acc = Some (acc @ es, No_message_available, f')"
  using assms(2,3)
proof (induction es arbitrary: f it acc)
  case Nil
  then show ?case using positioned_nonempty by blast
next
  case (Cons e es)
  note kv = it_key_value [OF Cons.prems(2) assms(1)]
  obtain f1 it1 where n: "contents f1 = contents f"
    "it_next ops (table_of gs) f it = (if es = [] then Some No_message_available else None, f1, it1)"
    "es \<noteq> [] \<longrightarrow> positioned gs it1 es"
    using it_next_positioned [OF Cons.prems(1) assms(1) Cons.prems(2)] by auto
  show ?case
  proof (cases "es = []")
    case True
    with n kv show ?thesis by (simp add: scan_loop.simps [of ops "table_of gs" f it])
  next
    case False
    with n Cons.prems(1) Cons.IH [of f1 it1 "acc @ [e]"] kv show ?thesis
      by (simp add: scan_loop.simps [of ops "table_of gs" f it])
  qed
qed

lemma scan_table_entries:
  assumes ok: "groups_ok gs" and c: "contents f = table_bytes gs"
  shows "\<exists>f'. scan_table ops (table_of gs) f = Some (concat gs, No_message_available, f')"
proof (cases "gs = []")
  case True
  then show ?thesis by (simp add: scan_table_def it_start_def table_of_def table_blocks_def)
next
  case False
  obtain f1 it1 where r: "it_read ops (table_of gs) f (iterator_new\<lparr>it_block := 0, it_offset := 0\<rparr>) = (None, f1, it1)"
    "contents f1 = contents f" "positioned gs it1 (concat (drop 0 gs))"
    by (rule it_read_block [OF c _ ok, of 0 "iterator_new\<lparr>it_block := 0, it_offset := 0\<rparr>"]) (use False in auto)
  have "st_blocks (table_of gs) \<noteq> []" using False by (simp add: table_of_def table_blocks_def) (metis length_blocks_from length_0_conv)
  moreover have "\<exists>f'. scan_loop ops (table_of gs) f1 it1 [] = Some ([] @ concat (drop 0 gs), No_message_available, f')"
    by (rule scan_loop_positioned [OF ok]) (use r c in simp_all)
  ultimately show ?thesis using r(1) by (simp add: scan_table_def it_start_def)
qed

end

section \<open>From entries to files and back\<close>

text \<open>The limits under which the format can represent a list of entries.\<close>

definition entries_fit :: "table_entry list \<Rightarrow> bool" where
  "entries_fit es \<longleftrightarrow> (\<forall>e \<in> set es. entry_ok e) \<and>
     16 * int (length es) + (\<Sum>e\<leftarrow>es. int (length (fst e))) + 8 < 2 ^ 31"

lemma data_length_bound:
  assumes "\<forall>e \<in> set es. entry_ok e"
  shows "int (length (data_of es)) \<le> max_block_size * int (length es)"
  using assms by (induction es) (auto simp: entry_ok_def algebra_simps)

lemma keys_length_bound:
  assumes "groups_ok gs"
  shows "length gs \<le> length (concat gs)"
    and "int (length (concat (keys_of gs))) \<le> (\<Sum>e\<leftarrow>concat gs. int (length (fst e)))"
proof -
  have nn: "0 \<le> (\<Sum>e\<leftarrow>ys. int (length (fst e)))" for ys :: "table_entry list"
    by (rule sum_list_nonneg) auto
  have one: "1 \<le> length g \<and> int (length (fst (last g))) \<le> (\<Sum>e\<leftarrow>g. int (length (fst e)))" if "g \<noteq> []" for g :: "table_entry list"
    using that by (cases g rule: rev_cases) (auto simp: nn)
  show "length gs \<le> length (concat gs)"
    using assms by (induction gs) (auto simp: groups_ok_def dest: one [THEN conjunct1])
  show "int (length (concat (keys_of gs))) \<le> (\<Sum>e\<leftarrow>concat gs. int (length (fst e)))"
    using assms
  proof (induction gs)
    case (Cons g gs)
    then have "g \<noteq> []" "groups_ok gs" by (auto simp: groups_ok_def)
    with Cons.IH one [of g] show ?case by (simp add: keys_of_def)
  qed (simp add: keys_of_def)
qed

lemma entries_fit_table:
  assumes "entries_fit es" and "groups_ok gs" and "concat gs = es"
  shows "table_fits gs" and "int (length (data_of es)) < 2 ^ 63"
proof -
  have "0 \<le> (\<Sum>e\<leftarrow>es. int (length (fst e)))" by (rule sum_list_nonneg) auto
  then have "int (length es) \<le> 2 ^ 27" using assms(1) by (simp add: entries_fit_def)
  then have "int (length (data_of es)) < 2 ^ 62"
    using data_length_bound [of es] assms(1) by (simp add: entries_fit_def max_block_size_def)
  moreover have "int (16 * length gs + length (concat (keys_of gs)) + 8) < 2 ^ 31"
    using keys_length_bound [OF assms(2)] assms(1,3) by (simp add: entries_fit_def)
  ultimately show "table_fits gs" "int (length (data_of es)) < 2 ^ 63" using assms(3) by (simp_all add: table_fits_def)
qed

context full_file
begin

lemma build_and_init:
  assumes "entries_fit es" and "block_size \<le> max_block_size" and "contents f0 = []" and "pos f0 = 0"
  obtains f gs f' where "build_table ops f0 block_size flush_size es = Some (None, f)"
    and "sstable_init ops f = Some (Inr (table_of gs), f')" and "contents f' = table_bytes gs"
    and "groups_ok gs" and "concat gs = es"
proof -
  have ok: "\<forall>e \<in> set es. entry_ok e" and size: "int (length (data_of es)) < 2 ^ 63"
    using assms(1) entries_fit_table(2) [of es "map (\<lambda>e. [e]) es"]
    by (auto simp: entries_fit_def groups_ok_def entry_ok_def)
  obtain f gs where b: "build_table ops f0 block_size flush_size es = Some (None, f)"
    "contents f = table_bytes gs" "groups_ok gs" "concat gs = es"
    using build_table_bytes [OF assms(3,4) ok assms(2) size] by blast
  have "table_fits gs" using assms(1) b(3,4) by (rule entries_fit_table)
  with b(2,3) obtain f' where "sstable_init ops f = Some (Inr (table_of gs), f')" "contents f' = contents f"
    by (rule sstable_init_table)
  with b show thesis by (intro that [of f gs f']) simp_all
qed

lemma lookup_built:
  assumes "entries_fit es" and "sorted (map fst es)" and "block_size \<le> max_block_size" and "contents f0 = []" and "pos f0 = 0"
  shows "\<exists>f st f' f''. build_table ops f0 block_size flush_size es = Some (None, f) \<and> sstable_init ops f = Some (Inr st, f') \<and>
    sstable_lookup ops st f' key = Some (case map_of es key of Some v \<Rightarrow> Inr v | None \<Rightarrow> Inl No_message_available, f'')"
proof -
  obtain f gs f' where b: "build_table ops f0 block_size flush_size es = Some (None, f)"
    "sstable_init ops f = Some (Inr (table_of gs), f')" "contents f' = table_bytes gs" "groups_ok gs" "concat gs = es"
    using assms(1,3-5) by (rule build_and_init)
  obtain f'' where "sstable_lookup ops (table_of gs) f' key =
      Some (case map_of es key of None \<Rightarrow> Inl No_message_available | Some v \<Rightarrow> Inr v, f'')"
    using sstable_lookup_table [OF b(4,3)] b(5) assms(2) by metis
  with b(1,2) show ?thesis by blast
qed

lemma scan_built:
  assumes "entries_fit es" and "block_size \<le> max_block_size" and "contents f0 = []" and "pos f0 = 0"
  shows "\<exists>f st f' f''. build_table ops f0 block_size flush_size es = Some (None, f) \<and> sstable_init ops f = Some (Inr st, f') \<and>
    scan_table ops st f' = Some (es, No_message_available, f'')"
proof -
  obtain f gs f' where b: "build_table ops f0 block_size flush_size es = Some (None, f)"
    "sstable_init ops f = Some (Inr (table_of gs), f')" "contents f' = table_bytes gs" "groups_ok gs" "concat gs = es"
    using assms by (rule build_and_init)
  with scan_table_entries [OF b(4,3)] show ?thesis by blast
qed

end

text \<open>C2. End to end: build a table in an empty memory file from sorted entries within the limits of the
  format, for any block size up to 16 MiB and any flush size, then open it. Building and opening succeed,
  and \<^verbatim>\<open>lookup\<close> of any key returns the value of the first entry with that key, or
  \<^verbatim>\<open>no_message_available\<close> when there is none; it always returns.\<close>

theorem sstable_lookup_built:
  assumes "entries_fit es" and "sorted (map fst es)" and "block_size \<le> max_block_size"
  shows "\<exists>f st f' f''. build_table memory_ops (memory_file_new []) block_size flush_size es = Some (None, f) \<and>
    sstable_init memory_ops f = Some (Inr st, f') \<and>
    sstable_lookup memory_ops st f' key =
      Some (case map_of es key of Some v \<Rightarrow> Inr v | None \<Rightarrow> Inl No_message_available, f'')"
  by (rule memory.lookup_built [OF assms]) (simp_all add: memory_file_new_def)

theorem sstable_lookup_built_witness:
  "\<exists>f st f' f''. build_table memory_ops (memory_file_new []) 4096 65536 [([97], [1]), ([98], [2])] = Some (None, f) \<and>
    sstable_init memory_ops f = Some (Inr st, f') \<and> sstable_lookup memory_ops st f' [98] = Some (Inr [2], f'')"
  using sstable_lookup_built [of "[([97], [1]), ([98], [2])]" 4096 65536 "[98]"]
  by (simp add: entries_fit_def entry_ok_def max_block_size_def)

text \<open>C3. Iterating over a built table with \<^verbatim>\<open>start\<close> and \<^verbatim>\<open>next\<close> yields exactly the entries that were added, in
  the order in which they were added, and ends with \<^verbatim>\<open>no_message_available\<close>. The entries need not be
  sorted for this.\<close>

theorem sstable_scan_built:
  assumes "entries_fit es" and "block_size \<le> max_block_size"
  shows "\<exists>f st f' f''. build_table memory_ops (memory_file_new []) block_size flush_size es = Some (None, f) \<and>
    sstable_init memory_ops f = Some (Inr st, f') \<and>
    scan_table memory_ops st f' = Some (es, No_message_available, f'')"
  by (rule memory.scan_built [OF assms]) (simp_all add: memory_file_new_def)

theorem sstable_scan_built_witness:
  "\<exists>f st f' f''. build_table memory_ops (memory_file_new []) 10 1 [([98], [2]), ([97], [1])] = Some (None, f) \<and>
    sstable_init memory_ops f = Some (Inr st, f') \<and>
    scan_table memory_ops st f' = Some ([([98], [2]), ([97], [1])], No_message_available, f'')"
  using sstable_scan_built [of "[([98], [2]), ([97], [1])]" 10 1]
  by (simp add: entries_fit_def entry_ok_def max_block_size_def)

text \<open>C22. The builder accepts what the reader refuses: a table whose only entry has more than 16 MiB is
  built without an error, and \<^verbatim>\<open>init\<close> answers \<^verbatim>\<open>bad_message\<close>.\<close>

theorem sstable_large_entry_unreadable:
  assumes "max_block_size < 8 + int (length k) + int (length v)"
    and "8 + int (length k) + int (length v) < 2 ^ 31 - 24"
  shows "\<exists>f f'. build_table memory_ops (memory_file_new []) block_size flush_size [(k, v)] = Some (None, f) \<and>
    sstable_init memory_ops f = Some (Inl Bad_message, f')"
proof -
  let ?n = "8 + int (length k) + int (length v)" and ?gs = "[[(k, v)]]"
  let ?b = "builder_new (memory_file_new []) block_size flush_size"
  let ?b1 = "?b\<lparr>bd_buffer := entry_bytes (k, v), bd_blocks := blocks_from 0 ?gs\<rparr>"
  have n32: "int32_ok ?n" using assms(2) by (simp add: int32_ok_def)
  have "memory.at_end ?b1" by (simp add: memory.at_end_def builder_new_def memory_file_new_def)
  then obtain b2 where f: "flush_if_full memory_ops ?b1 = (None, b2)" "memory.stream b2 = memory.stream ?b1"
    "memory.at_end b2" "same_options ?b1 b2" by (rule memory.flush_if_full_stream)
  have add: "builder_add memory_ops ?b k v = Some (None, b2)"
    using n32 f(1) by (simp add: builder_add_def Let_def builder_new_def add_block_def overwrite_def resize_def
        entry_bytes_def add.assoc)
  have "bd_blocks b2 = blocks_from 0 ?gs" using f(4) by (simp add: same_options_def)
  moreover have "memory.stream b2 = data_of (concat ?gs)"
    using f(2) by (simp add: memory.stream_def builder_new_def memory_file_new_def)
  ultimately obtain b3 where fin: "builder_finish memory_ops b2 = (None, b3)" "content (bd_file b3) = table_bytes ?gs"
    by (rule memory.builder_finish_stream [OF f(3)])
  have "table_fits ?gs" using assms(2) by (simp add: table_fits_def keys_of_def)
  with fin(2) obtain f' where i: "sstable_init memory_ops (bd_file b3) = Some (init_loop (index_of_groups ?gs)
      (concat (keys_of ?gs)) 0 (length ?gs) 0 \<lparr>st_blocks = [], st_keys = []\<rparr>, f')"
    by (rule memory.sstable_init_loop)
  have "load_s32 (index_of_groups ?gs) 8 = ?n"
    using load_s32_at [OF n32, of 8 "store_s64 0" "store_s32 (int (length k))"]
    by (simp add: index_of_groups_def index_bytes_def)
  then have "init_loop (index_of_groups ?gs) (concat (keys_of ?gs)) 0 (length ?gs) 0 \<lparr>st_blocks = [], st_keys = []\<rparr> =
      Inl Bad_message" using assms(1) by (simp add: Let_def)
  with i add fin(1) show ?thesis by (simp add: build_table_def)
qed

theorem sstable_large_entry_unreadable_witness:
  "\<exists>f f'. build_table memory_ops (memory_file_new []) 4096 65536 [([], replicate 16777216 0)] = Some (None, f) \<and>
    sstable_init memory_ops f = Some (Inl Bad_message, f')"
  by (rule sstable_large_entry_unreadable) (simp_all only: length_replicate max_block_size_def, simp_all)

end
