(* ===== verification/Security.thy ===== *)
theory Security
  imports Trunk_Prelude
begin

text \<open>
  \<^verbatim>\<open>security/key.cc\<close> and \<^verbatim>\<open>security/keystore.cc\<close>. BoringSSL is a parameter, the record \<open>crypto\<close>:
  \<^verbatim>\<open>EVP_AEAD_CTX_seal\<close>, \<^verbatim>\<open>EVP_AEAD_CTX_open\<close> (for ChaCha20-Poly1305, no associated data) and
  \<^verbatim>\<open>CRYPTO_chacha_20\<close>. The opening function is given what the output buffer held and returns what it
  holds afterwards, because the callers decrypt straight into a message that is being assembled.

  The predicate \<open>aead_laws\<close> states what the code relies on: sealing adds 16 bytes, opening what was sealed
  under the same key and nonce succeeds and writes the plaintext and nothing else, and the output
  buffer keeps its length. Nothing is assumed of what a failed opening leaves in the buffer.
\<close>

record crypto =
  seal_op :: "bytes \<Rightarrow> bytes \<Rightarrow> bytes \<Rightarrow> bytes"
  open_op :: "bytes \<Rightarrow> bytes \<Rightarrow> bytes \<Rightarrow> bytes \<Rightarrow> nat option \<times> bytes"
  chacha_op :: "bytes \<Rightarrow> bytes \<Rightarrow> u32 \<Rightarrow> bytes \<Rightarrow> bytes"

definition encrypt_overhead :: nat where
  "encrypt_overhead = 16"

record security_key =
  key_array :: bytes
  key_fp :: u64

definition compute_fingerprint :: "crypto \<Rightarrow> bytes \<Rightarrow> u64" where
  "compute_fingerprint cr array =
     load_little (chacha_op cr array (replicate 12 0) 0 (replicate 8 0))"

definition key_new :: "crypto \<Rightarrow> bytes \<Rightarrow> security_key" where
  "key_new cr array = \<lparr>key_array = array, key_fp = compute_fingerprint cr array\<rparr>"

definition key_encrypt :: "crypto \<Rightarrow> security_key \<Rightarrow> bytes \<Rightarrow> bytes \<Rightarrow> bytes" where
  "key_encrypt cr key nonce plain = seal_op cr (key_array key) nonce plain"

text \<open>\<^verbatim>\<open>Key::decrypt\<close>: the size of the plaintext, \<open>None\<close> for the maximal \<^verbatim>\<open>size_t\<close>, and the new output
  buffer.\<close>

definition key_decrypt :: "crypto \<Rightarrow> security_key \<Rightarrow> bytes \<Rightarrow> bytes \<Rightarrow> bytes \<Rightarrow> nat option \<times> bytes" where
  "key_decrypt cr key nonce sealed out = open_op cr (key_array key) nonce sealed out"

definition key_equal :: "security_key \<Rightarrow> security_key \<Rightarrow> bool" where
  "key_equal a b \<longleftrightarrow> key_array a = key_array b"

section \<open>The key store\<close>

type_synonym keystore = "u64 \<rightharpoonup> security_key list"

definition slot :: "keystore \<Rightarrow> u64 \<Rightarrow> security_key list" where
  "slot ks fp = (case ks fp of None \<Rightarrow> [] | Some keys \<Rightarrow> keys)"

definition keystore_add :: "keystore \<Rightarrow> security_key \<Rightarrow> keystore" where
  "keystore_add ks key =
     (let keys = slot ks (key_fp key)
      in if list_ex (\<lambda>k. key_equal k key) keys then ks(key_fp key \<mapsto> keys)
         else ks(key_fp key \<mapsto> keys @ [key]))"

definition keystore_find :: "keystore \<Rightarrow> u64 \<Rightarrow> security_key list" where
  "keystore_find ks fp = (case ks fp of None \<Rightarrow> [] | Some keys \<Rightarrow> keys)"

definition keystore_ok :: "crypto \<Rightarrow> keystore \<Rightarrow> bool" where
  "keystore_ok cr ks \<longleftrightarrow> (\<forall>fp. distinct (keystore_find ks fp) \<and>
     (\<forall>k \<in> set (keystore_find ks fp). key_fp k = fp \<and> k = key_new cr (key_array k)))"

lemma key_new_eqI: "key_array a = key_array b \<Longrightarrow> a = key_new cr (key_array a) \<Longrightarrow> b = key_new cr (key_array b) \<Longrightarrow> a = b"
  by metis

lemma keystore_add_find:
  assumes "keystore_ok cr ks" and "key = key_new cr array"
  shows "keystore_find (keystore_add ks key) fp =
    (if fp = key_fp key \<and> key \<notin> set (keystore_find ks fp) then keystore_find ks fp @ [key] else keystore_find ks fp)"
proof -
  have "list_ex (\<lambda>k. key_equal k key) (keystore_find ks (key_fp key)) \<longleftrightarrow> key \<in> set (keystore_find ks (key_fp key))"
  proof
    assume "list_ex (\<lambda>k. key_equal k key) (keystore_find ks (key_fp key))"
    then obtain k where k: "k \<in> set (keystore_find ks (key_fp key))" "key_array k = key_array key"
      by (auto simp: list_ex_iff key_equal_def)
    have "k = key_new cr (key_array k)" using assms(1) k(1) by (auto simp: keystore_ok_def)
    moreover have "key = key_new cr (key_array key)" using assms(2) by (simp add: key_new_def)
    ultimately have "k = key" using k(2) by metis
    with k(1) show "key \<in> set (keystore_find ks (key_fp key))" by simp
  qed (auto simp: list_ex_iff key_equal_def)
  then show ?thesis
    by (auto simp: keystore_add_def keystore_find_def slot_def Let_def)
qed

lemma keystore_add_ok:
  assumes "keystore_ok cr ks"
  shows "keystore_ok cr (keystore_add ks (key_new cr array))"
proof -
  let ?key = "key_new cr array"
  have "?key = key_new cr (key_array ?key)" by (simp add: key_new_def)
  then show ?thesis
    using assms unfolding keystore_ok_def keystore_add_find [OF assms refl] by auto
qed

text \<open>A key store filled by \<^verbatim>\<open>add\<close> finds, under a fingerprint, exactly the added keys with that
  fingerprint, each once (two keys may share a fingerprint), whatever the order and repetition of
  the additions.\<close>

theorem keystore_find_added:
  defines "store \<equiv> \<lambda>cr arrays. foldl (\<lambda>ks a. keystore_add ks (key_new cr a)) Map.empty arrays"
  shows "distinct (keystore_find (store cr arrays) fp) \<and>
    set (keystore_find (store cr arrays) fp) = {key_new cr a | a. a \<in> set arrays \<and> compute_fingerprint cr a = fp}"
proof -
  have "keystore_ok cr (store cr arrays) \<and>
      (\<forall>fp. set (keystore_find (store cr arrays) fp) = {key_new cr a | a. a \<in> set arrays \<and> compute_fingerprint cr a = fp})"
  proof (induction arrays rule: rev_induct)
    case Nil
    then show ?case by (simp add: store_def keystore_ok_def keystore_find_def)
  next
    case (snoc a arrays)
    let ?ks = "store cr arrays"
    have s: "store cr (arrays @ [a]) = keystore_add ?ks (key_new cr a)" by (simp add: store_def)
    have ok: "keystore_ok cr ?ks" using snoc by blast
    have "set (keystore_find (keystore_add ?ks (key_new cr a)) fp) =
        {key_new cr x | x. x \<in> set (arrays @ [a]) \<and> compute_fingerprint cr x = fp}" for fp
      using snoc unfolding keystore_add_find [OF ok refl] by (auto simp: key_new_def)
    with keystore_add_ok [OF ok] show ?case unfolding s by blast
  qed
  then show ?thesis by (auto simp: keystore_ok_def)
qed

section \<open>What the callers rely on\<close>

definition aead_laws :: "crypto \<Rightarrow> bool" where
  "aead_laws cr \<longleftrightarrow>
     (\<forall>k n p. length (seal_op cr k n p) = length p + encrypt_overhead) \<and>
     (\<forall>k n p out. length out = length p + encrypt_overhead \<longrightarrow>
        open_op cr k n (seal_op cr k n p) out = (Some (length p), p @ drop (length p) out)) \<and>
     (\<forall>k n c out. length (snd (open_op cr k n c out)) = length out)"

lemma decrypt_encrypt:
  "aead_laws cr \<Longrightarrow> length out = length p + encrypt_overhead \<Longrightarrow>
   key_decrypt cr key nonce (key_encrypt cr key nonce p) out = (Some (length p), p @ drop (length p) out)"
  by (simp add: key_decrypt_def key_encrypt_def aead_laws_def)

lemma encrypt_length: "aead_laws cr \<Longrightarrow> length (key_encrypt cr key nonce p) = length p + encrypt_overhead"
  by (simp add: key_encrypt_def aead_laws_def)

text \<open>A cipher that keeps the laws, for concrete runs: it appends sixteen zero bytes, and a failed
  opening clears its output.\<close>

definition plain_crypto :: crypto where
  "plain_crypto = \<lparr>seal_op = \<lambda>k n p. p @ replicate 16 0,
     open_op = \<lambda>k n c out. (let m = length c - 16 in
       if 16 \<le> length c \<and> drop m c = replicate 16 0 \<and> length out = length c
       then (Some m, take m c @ drop m out) else (None, replicate (length out) 0)),
     chacha_op = \<lambda>k n i c. take (length c) (k @ replicate (length c) 0)\<rparr>"

lemma plain_crypto_laws: "aead_laws plain_crypto"
  by (auto simp: aead_laws_def plain_crypto_def encrypt_overhead_def Let_def)

end
