(* ===== verification/Rpc_Wire.thy ===== *)
theory Rpc_Wire
  imports Security
begin

text \<open>
  \<^verbatim>\<open>net/rpc/wire-structs.h\<close>, \<^verbatim>\<open>net/rpc/operation-key.h\<close> and the loop that cuts a message into sealed
  datagrams, which \<^verbatim>\<open>net/rpc/client.cc\<close> (constructor of \<^verbatim>\<open>Operation\<close>) and \<^verbatim>\<open>net/rpc/server.cc\<close> (\<^verbatim>\<open>pack\<close>)
  share up to the last byte of the nonce.

  \<^verbatim>\<open>boost::icl::interval_set\<close>, in which both sides record what has arrived, is a parameter: the record
  \<open>interval_ops\<close>, with \<open>interval_laws\<close> for its documented meaning as a set of numbers.
\<close>

record wire_header =
  wh_fp :: u64
  wh_id :: u64
  wh_offset :: u16
  wh_unused :: u16
  wh_flags :: u32

definition flag_partial :: u32 where
  "flag_partial = 1"

type_synonym operation_key = "u64 \<times> u64"

definition header_bytes :: "wire_header \<Rightarrow> bytes" where
  "header_bytes h = store_little 8 (wh_fp h) @ store_little 8 (wh_id h) @ store_little 2 (wh_offset h) @
     store_little 2 (wh_unused h) @ store_little 4 (wh_flags h)"

definition header_of :: "bytes \<Rightarrow> wire_header" where
  "header_of d = \<lparr>wh_fp = load_little (take 8 d), wh_id = load_little (take 8 (drop 8 d)),
     wh_offset = load_little (take 2 (drop 16 d)), wh_unused = load_little (take 2 (drop 18 d)),
     wh_flags = load_little (take 4 (drop 20 d))\<rparr>"

definition header_size :: nat where
  "header_size = 24"

text \<open>The nonce: request id, offset, a zero byte, and 0 for requests or 1 for responses.\<close>

definition wire_nonce :: "u8 \<Rightarrow> u64 \<Rightarrow> u16 \<Rightarrow> bytes" where
  "wire_nonce dir rid offset = store_little 8 rid @ store_little 2 offset @ [0, dir]"

text \<open>One datagram: the buffer of the loop body for \<open>offset\<close>.\<close>

definition fragment_size :: "nat \<Rightarrow> bytes \<Rightarrow> nat \<Rightarrow> nat" where
  "fragment_size frag msg offset = min (length msg - offset) frag"

definition fragment ::
    "crypto \<Rightarrow> security_key \<Rightarrow> u64 \<Rightarrow> u64 \<Rightarrow> u8 \<Rightarrow> nat \<Rightarrow> bytes \<Rightarrow> nat \<Rightarrow> bytes" where
  "fragment cr key fp rid dir frag msg offset =
     (let size = fragment_size frag msg offset;
          offset16 = of_nat offset;
          header = \<lparr>wh_fp = fp, wh_id = rid, wh_offset = offset16, wh_unused = 0,
            wh_flags = (if offset + size < length msg then flag_partial else 0)\<rparr>
      in header_bytes header @ key_encrypt cr key (wire_nonce dir rid offset16) (take size (drop offset msg)))"

text \<open>The loop; it never ends when the fragment size is 0 and the message is not empty.\<close>

partial_function (option) pack_loop ::
    "crypto \<Rightarrow> security_key \<Rightarrow> u64 \<Rightarrow> u64 \<Rightarrow> u8 \<Rightarrow> nat \<Rightarrow> bytes \<Rightarrow> nat \<Rightarrow> bytes list \<Rightarrow> bytes list option" where
  "pack_loop cr key fp rid dir frag msg offset buffers =
     (let buffers' = buffers @ [fragment cr key fp rid dir frag msg offset];
          offset' = offset + fragment_size frag msg offset
      in if offset' < length msg then pack_loop cr key fp rid dir frag msg offset' buffers'
         else Some buffers')"

section \<open>Headers\<close>

lemma length_header_bytes [simp]: "length (header_bytes h) = 24"
  by (simp add: header_bytes_def)

lemma length_wire_nonce [simp]: "length (wire_nonce dir rid offset) = 12"
  by (simp add: wire_nonce_def)

lemma header_of_bytes [simp]: "header_of (header_bytes h @ body) = h"
  by (cases h) (simp add: header_of_def header_bytes_def load_store_little_full)

section \<open>Fragments\<close>

text \<open>The offsets at which the loop cuts.\<close>

function offsets :: "nat \<Rightarrow> nat \<Rightarrow> nat \<Rightarrow> nat list" where
  "offsets frag n k = k # (if 0 < frag \<and> k + frag < n then offsets frag n (k + frag) else [])"
  by pat_completeness auto
termination
  by (relation "measure (\<lambda>(frag, n, k). n - k)") auto

declare offsets.simps [simp del]

lemma pack_loop_offsets:
  assumes "0 < frag"
  shows "k \<le> length msg \<Longrightarrow> pack_loop cr key fp rid dir frag msg k buffers =
    Some (buffers @ map (fragment cr key fp rid dir frag msg) (offsets frag (length msg) k))"
proof (induction "length msg - k" arbitrary: k buffers rule: less_induct)
  case less
  note unf = pack_loop.simps [of cr key fp rid dir frag msg k] offsets.simps [of frag "length msg" k]
  show ?case
  proof (cases "k + frag < length msg")
    case True
    then have s: "k + fragment_size frag msg k = k + frag" by (simp add: fragment_size_def)
    have "length msg - (k + frag) < length msg - k" "k + frag \<le> length msg" using True assms by simp_all
    from less.hyps [OF this, of "buffers @ [fragment cr key fp rid dir frag msg k]"] True assms
    show ?thesis unfolding unf Let_def s by simp
  next
    case False
    then have s: "k + fragment_size frag msg k = length msg" using less.prems by (simp add: fragment_size_def)
    show ?thesis using False unfolding unf Let_def s by simp
  qed
qed

text \<open>The pieces cover the message, and the piece that ends at its end is the one without the
  \<^verbatim>\<open>partial\<close> flag.\<close>

definition piece :: "nat \<Rightarrow> bytes \<Rightarrow> nat \<Rightarrow> nat set" where
  "piece frag msg k = {k ..< k + fragment_size frag msg k}"

lemma offsets_le: "j \<in> set (offsets frag n k) \<Longrightarrow> k \<le> n \<Longrightarrow> k \<le> j \<and> j \<le> n \<and> (j < n \<or> j = k)"
proof (induction frag n k rule: offsets.induct)
  case (1 frag n k)
  then show ?case by (auto simp: offsets.simps [of frag n k] split: if_splits)
qed

lemma offsets_cover:
  "0 < frag \<Longrightarrow> k \<le> length msg \<Longrightarrow> (\<Union>j \<in> set (offsets frag (length msg) k). piece frag msg j) = {k ..< length msg}"
proof (induction "length msg - k" arbitrary: k rule: less_induct)
  case less
  show ?case
  proof (cases "k + frag < length msg")
    case True
    then have "piece frag msg k = {k ..< k + frag}" by (simp add: piece_def fragment_size_def)
    with less.hyps [of "k + frag"] less.prems True show ?thesis
      by (simp add: offsets.simps [of frag _ k]) (auto simp: ivl_disj_un)
  next
    case False
    then show ?thesis using less.prems by (simp add: offsets.simps [of frag _ k] piece_def fragment_size_def)
  qed
qed

lemma offsets_last: "0 < frag \<Longrightarrow> k \<le> length msg \<Longrightarrow>
  \<exists>j \<in> set (offsets frag (length msg) k). j + fragment_size frag msg j = length msg"
proof (induction "length msg - k" arbitrary: k rule: less_induct)
  case less
  show ?case
  proof (cases "k + frag < length msg")
    case True
    with less.hyps [of "k + frag"] less.prems show ?thesis by (simp add: offsets.simps [of frag _ k])
  next
    case False
    then show ?thesis using less.prems by (simp add: offsets.simps [of frag _ k] fragment_size_def)
  qed
qed

section \<open>Recording what arrived\<close>

record 'i interval_ops =
  iv_empty :: 'i
  iv_add :: "'i \<Rightarrow> nat \<Rightarrow> nat \<Rightarrow> 'i"
  iv_contains :: "'i \<Rightarrow> nat \<Rightarrow> nat \<Rightarrow> bool"

definition interval_laws :: "'i interval_ops \<Rightarrow> ('i \<Rightarrow> nat set) \<Rightarrow> bool" where
  "interval_laws iv cover \<longleftrightarrow> cover (iv_empty iv) = {} \<and>
     (\<forall>s a b. cover (iv_add iv s a b) = cover s \<union> {a ..< b}) \<and>
     (\<forall>s a b. iv_contains iv s a b \<longleftrightarrow> {a ..< b} \<subseteq> cover s)"

text \<open>An instance for concrete runs: the list of the numbers.\<close>

definition list_intervals :: "nat list interval_ops" where
  "list_intervals = \<lparr>iv_empty = [], iv_add = \<lambda>s a b. s @ [a ..< b],
     iv_contains = \<lambda>s a b. length (filter (\<lambda>i. a \<le> i \<and> i < b) (remdups s)) = b - a\<rparr>"

lemma list_intervals_laws: "interval_laws list_intervals set"
proof -
  have "length (filter (\<lambda>i. a \<le> i \<and> i < b) (remdups s)) = b - a \<longleftrightarrow> {a ..< b} \<subseteq> set s" for s :: "nat list" and a b
  proof -
    have "length (filter (\<lambda>i. a \<le> i \<and> i < b) (remdups s)) = card (set s \<inter> {a ..< b})"
      by (subst distinct_card [symmetric]) (auto intro!: arg_cong [of _ _ card])
    also have "\<dots> = b - a \<longleftrightarrow> set s \<inter> {a ..< b} = {a ..< b}"
      using card_subset_eq [of "{a ..< b}" "set s \<inter> {a ..< b}"] by auto
    finally show ?thesis by auto
  qed
  then show ?thesis by (auto simp: interval_laws_def list_intervals_def)
qed

definition size_max :: nat where
  "size_max = 2 ^ 64 - 1"

text \<open>The state of an assembly after the pieces at the offsets \<open>K\<close> have arrived: the buffer agrees with
  the message on them, and the total size is known when the last piece is among them.\<close>

definition assembled :: "nat \<Rightarrow> bytes \<Rightarrow> nat set \<Rightarrow> bytes \<Rightarrow> nat set \<Rightarrow> nat \<Rightarrow> bool" where
  "assembled frag msg K buf cover sz \<longleftrightarrow>
     K \<subseteq> set (offsets frag (length msg) 0) \<and> cover = (\<Union>k \<in> K. piece frag msg k) \<and>
     (\<forall>i \<in> cover. i < length buf \<and> buf ! i = msg ! i) \<and>
     sz = (if \<exists>k \<in> K. k + fragment_size frag msg k = length msg then length msg else size_max)"

lemma assembled_init: "assembled frag msg {} [] {} size_max"
  by (simp add: assembled_def)

text \<open>Making room and writing a decrypted piece.\<close>

definition room :: "nat \<Rightarrow> bytes \<Rightarrow> bytes" where
  "room n buf = (if length buf < n then resize n 0 buf else buf)"

lemma piece_written:
  assumes "k + n \<le> length msg" and "k + n + 16 \<le> length buf" and "i < length buf"
  shows "overwrite k (take n (drop k msg) @ drop n (take (n + 16) (drop k buf))) buf ! i = (if k \<le> i \<and> i < k + n then msg ! i else buf ! i)"
proof -
  let ?new = "take n (drop k msg) @ drop n (take (n + 16) (drop k buf))"
  have len: "length (take n (drop k msg)) = n" "length ?new = n + 16" using assms(1,2) by simp_all
  have "?new ! (i - k) = (if i < k + n then msg ! i else buf ! i)" if "k \<le> i" "i < k + n + 16"
    using that assms len(1) by (auto simp: nth_append)
  moreover have "overwrite k ?new buf ! i = (if k \<le> i \<and> i < k + length ?new then ?new ! (i - k) else buf ! i)"
    using assms(2,3) len(2) by (intro nth_overwrite) simp_all
  ultimately show ?thesis using len(2) by auto
qed

lemma assembled_step:
  fixes frag msg k
  assumes a: "assembled frag msg K buf cover sz" and k: "k \<in> set (offsets frag (length msg) 0)"
  defines "n \<equiv> fragment_size frag msg k"
  defines "buf1 \<equiv> room (k + n + 16) buf"
  defines "old \<equiv> take (n + 16) (drop k buf1)"
  shows "assembled frag msg (insert k K) (overwrite k (take n (drop k msg) @ drop n old) buf1)
    (cover \<union> {k ..< k + n}) (if k + n = length msg then length msg else sz)"
proof -
  have kn: "k + n \<le> length msg" using offsets_le [OF k] by (auto simp: n_def fragment_size_def)
  let ?new = "take n (drop k msg) @ drop n old"
  have b1: "length buf \<le> length buf1" "k + n + 16 \<le> length buf1" by (auto simp: buf1_def room_def)
  have lnew: "length ?new = n + 16" using kn b1 by (simp add: old_def)
  have keep: "buf1 ! i = buf ! i" if "i < length buf" for i
    using that by (auto simp: buf1_def room_def resize_def nth_append)
  have nth: "overwrite k ?new buf1 ! i = (if k \<le> i \<and> i < k + n then msg ! i else buf1 ! i)" if "i < length buf1" for i
    using piece_written [OF kn b1(2) that] by (simp add: old_def)
  have len: "length (overwrite k ?new buf1) = length buf1" using lnew b1 by (intro length_overwrite) simp
  have K: "K \<subseteq> set (offsets frag (length msg) 0)" and c: "cover = (\<Union>k \<in> K. piece frag msg k)"
    and b: "\<And>i. i \<in> cover \<Longrightarrow> i < length buf \<and> buf ! i = msg ! i"
    and sz: "sz = (if \<exists>k \<in> K. k + fragment_size frag msg k = length msg then length msg else size_max)"
    using a unfolding assembled_def by blast+
  have "i < length (overwrite k ?new buf1) \<and> overwrite k ?new buf1 ! i = msg ! i" if "i \<in> cover \<union> {k ..< k + n}" for i
  proof -
    have i: "i < length buf1" using that b [of i] b1 by auto
    show ?thesis using that b [of i] keep [of i] unfolding len nth [OF i] by (auto simp: i)
  qed
  moreover have "cover \<union> {k ..< k + n} = (\<Union>j \<in> insert k K. piece frag msg j)"
    unfolding c n_def by (auto simp: piece_def)
  moreover have "(if k + n = length msg then length msg else sz) =
      (if \<exists>j \<in> insert k K. j + fragment_size frag msg j = length msg then length msg else size_max)"
    unfolding sz n_def by simp
  ultimately show ?thesis using K k unfolding assembled_def by blast
qed

lemma assembled_complete_iff:
  assumes "assembled frag msg K buf cover sz" and "length msg < size_max"
  shows "{0 ..< sz} \<subseteq> cover \<Longrightarrow> sz = length msg \<and> take sz buf = msg"
    and "0 < frag \<Longrightarrow> K = set (offsets frag (length msg) 0) \<Longrightarrow> {0 ..< sz} \<subseteq> cover"
proof -
  have sub: "i < length msg" if i: "i \<in> cover" for i
  proof -
    obtain k where "k \<in> set (offsets frag (length msg) 0)" "i \<in> piece frag msg k"
      using assms(1) i by (auto simp: assembled_def)
    with offsets_le [of k frag "length msg" 0] show ?thesis by (auto simp: piece_def fragment_size_def)
  qed
  show "sz = length msg \<and> take sz buf = msg" if c: "{0 ..< sz} \<subseteq> cover"
  proof -
    have sz: "sz = length msg"
    proof (rule ccontr)
      assume "sz \<noteq> length msg"
      then have "sz = size_max" using assms(1) by (auto simp: assembled_def split: if_splits)
      then have "length msg \<in> cover" using c assms(2) by auto
      with sub show False by blast
    qed
    have at: "i < length buf \<and> buf ! i = msg ! i" if "i < length msg" for i
      using c sz assms(1) that by (auto simp: assembled_def)
    then have "length msg \<le> length buf" by (metis not_le_imp_less order_less_irrefl)
    with at sz show ?thesis by (intro conjI nth_equalityI) auto
  qed
  show "{0 ..< sz} \<subseteq> cover" if "0 < frag" "K = set (offsets frag (length msg) 0)"
    using assms(1) offsets_cover [OF that(1), of 0 msg] offsets_last [OF that(1), of 0 msg] that(2)
    by (auto simp: assembled_def)
qed

end
