(* ===== verification/Rpc_Client.thy ===== *)
theory Rpc_Client
  imports Rpc_Wire "HOL-Library.Monad_Syntax"
begin

text \<open>
  \<^verbatim>\<open>util/fibonacci-sequence.h\<close> and \<^verbatim>\<open>net/rpc/client.cc\<close>: the life of a client operation. An operation is
  kept alive by the handlers that hold a reference to it: one for each datagram being sent and one
  for the retry timer. Its destructor runs when the last of them is gone and calls the callback.

  A waiting timer is armed, or has expired with its handler queued (it can no longer be cancelled),
  or has been cancelled with its handler queued. Durations are 64-bit counts of nanoseconds, and the
  Fibonacci sequence of the pauses is one of \<^verbatim>\<open>int\<close>: where a sum or a product leaves its type, a send is \<open>None\<close>.
\<close>

section \<open>Fibonacci sequence\<close>

record fibonacci =
  fib_a :: int
  fib_b :: int

definition fib_reset :: fibonacci where
  "fib_reset = \<lparr>fib_a = 1, fib_b = 1\<rparr>"

definition fib_next :: "fibonacci \<Rightarrow> fibonacci option" where
  "fib_next s = map_option (\<lambda>b. \<lparr>fib_a = fib_b s, fib_b = b\<rparr>) (checked_int32 (fib_b s + fib_a s))"

section \<open>State\<close>

datatype wait_timer = Idle | Armed | Expired | Cancelled

record ('e, 'i) client_op =
  co_endpoint :: 'e
  co_key :: security_key
  co_id :: u64
  co_buffers :: "bytes list"
  co_timeout :: int
  co_retry :: int
  co_sequence :: fibonacci
  co_finished :: bool
  co_detached :: bool
  co_result :: "errc option"
  co_response :: bytes
  co_intervals :: 'i
  co_size :: nat
  co_sends :: nat
  co_timer :: wait_timer

text \<open>\<^verbatim>\<open>Options\<close> and \<^verbatim>\<open>RequestOptions\<close>, with their default values; the zero key is that of the key store.\<close>

record client_options =
  clo_num_channels :: nat
  clo_fragment_size :: nat
  clo_buffer_size :: nat

definition client_options_default :: client_options where
  "client_options_default = \<lparr>clo_num_channels = 1, clo_fragment_size = 1024, clo_buffer_size = 2048\<rparr>"

record request_options =
  rqo_key :: security_key
  rqo_timeout :: int
  rqo_retry :: int

definition request_options_default :: "security_key \<Rightarrow> request_options" where
  "request_options_default zero = \<lparr>rqo_key = zero, rqo_timeout = 2 * 10 ^ 9, rqo_retry = 200 * 10 ^ 6\<rparr>"

record ('e, 'i, 'g) rpc_client =
  cl_channels :: nat
  cl_channel :: nat
  cl_fragment_size :: nat
  cl_buffer_size :: nat
  cl_operations :: "operation_key \<rightharpoonup> ('e, 'i) client_op"
  cl_gen :: 'g

text \<open>A datagram to send: channel, destination, bytes.\<close>

type_synonym 'e datagram = "nat \<times> 'e \<times> bytes"

section \<open>Operations\<close>

definition cancel_timer :: "wait_timer \<Rightarrow> wait_timer" where
  "cancel_timer t = (if t = Armed then Cancelled else t)"

definition op_abort :: "('e, 'i) client_op \<Rightarrow> errc \<Rightarrow> ('e, 'i) client_op" where
  "op_abort op ec =
     (if co_finished op then op
      else op\<lparr>co_finished := True, co_result := Some ec, co_timer := cancel_timer (co_timer op)\<rparr>)"

text \<open>\<^verbatim>\<open>send\<close>: the buffers handed to the socket and the new state.\<close>

definition op_send :: "('e, 'i) client_op \<Rightarrow> (bytes list \<times> ('e, 'i) client_op) option" where
  "op_send op =
     (if co_timeout op \<le> 0 then Some ([], op_abort op Timed_out)
      else do {
        pause \<leftarrow> checked_int64 (co_retry op * fib_a (co_sequence op));
        let wait_period = min pause (co_timeout op);
        sequence \<leftarrow> fib_next (co_sequence op);
        timeout \<leftarrow> checked_int64 (co_timeout op - wait_period);
        Some (co_buffers op,
          op\<lparr>co_sends := co_sends op + length (co_buffers op), co_sequence := sequence, co_timeout := timeout,
             co_timer := Armed\<rparr>)
      })"

definition op_unpack :: "crypto \<Rightarrow> 'i interval_ops \<Rightarrow> ('e, 'i) client_op \<Rightarrow> bytes \<Rightarrow> ('e, 'i) client_op" where
  "op_unpack cr iv op d =
     (if co_finished op then op
      else
        let header = header_of d;
            offset = unat (wh_offset header);
            body = drop header_size d;
            response = room (offset + length body) (co_response op);
            nonce = wire_nonce 1 (wh_id header) (wh_offset header);
            (decrypt_result, out) =
              key_decrypt cr (co_key op) nonce body (take (length body) (drop offset response));
            response' = overwrite offset out response
        in case decrypt_result of
             None \<Rightarrow> op\<lparr>co_response := response'\<rparr>
           | Some n \<Rightarrow>
               let intervals = iv_add iv (co_intervals op) offset (offset + n);
                   sz = (if wh_flags header AND flag_partial = 0 then offset + n else co_size op);
                   op' = op\<lparr>co_response := response', co_intervals := intervals, co_size := sz\<rparr>
               in if iv_contains iv intervals 0 sz
                  then op'\<lparr>co_finished := True, co_result := None, co_timer := cancel_timer (co_timer op')\<rparr>
                  else op')"

text \<open>The constructor: a request id that no operation under this key has, and the datagrams.\<close>

partial_function (option) draw_id ::
    "('g \<Rightarrow> u64 \<times> 'g) \<Rightarrow> 'g \<Rightarrow> (operation_key \<rightharpoonup> ('e, 'i) client_op) \<Rightarrow> u64 \<Rightarrow> (u64 \<times> 'g) option" where
  "draw_id uniform gen ops fp =
     (case uniform gen of (rid, gen') \<Rightarrow>
        if ops (fp, rid) = None then Some (rid, gen') else draw_id uniform gen' ops fp)"

definition op_new ::
    "crypto \<Rightarrow> 'i interval_ops \<Rightarrow> nat \<Rightarrow> 'e \<Rightarrow> security_key \<Rightarrow> u64 \<Rightarrow> bytes \<Rightarrow> int \<Rightarrow> int \<Rightarrow> ('e, 'i) client_op option" where
  "op_new cr iv frag endpoint key rid request timeout retry =
     map_option (\<lambda>buffers.
       \<lparr>co_endpoint = endpoint, co_key = key, co_id = rid, co_buffers = buffers, co_timeout = timeout, co_retry = retry,
        co_sequence = fib_reset, co_finished = False, co_detached = False, co_result = Some Bad_address,
        co_response = [], co_intervals = iv_empty iv, co_size = size_max, co_sends = 0, co_timer = Idle\<rparr>)
       (pack_loop cr key (key_fp key) rid 0 frag request 0 [])"

text \<open>\<^verbatim>\<open>Client::request\<close>: the method follows the request, after a zero byte unless the request is empty.\<close>

definition request_message :: "bytes \<Rightarrow> bytes \<Rightarrow> bytes" where
  "request_message method request = (if request \<noteq> [] then request @ [0] else request) @ method"

definition client_new :: "client_options \<Rightarrow> 'g \<Rightarrow> ('e, 'i, 'g) rpc_client" where
  "client_new options gen =
     \<lparr>cl_channels = clo_num_channels options, cl_channel = 0, cl_fragment_size = clo_fragment_size options,
      cl_buffer_size = clo_buffer_size options, cl_operations = Map.empty, cl_gen = gen\<rparr>"

definition next_channel :: "('e, 'i, 'g) rpc_client \<Rightarrow> nat" where
  "next_channel cl = (if cl_channel cl + 1 = cl_channels cl then 0 else cl_channel cl + 1)"

text \<open>\<^verbatim>\<open>send\<close> for the operation under a key, with the choice of the channel.\<close>

definition client_send ::
    "('e, 'i, 'g) rpc_client \<Rightarrow> operation_key \<Rightarrow> ('e, 'i) client_op \<Rightarrow> ('e datagram list \<times> ('e, 'i, 'g) rpc_client) option" where
  "client_send cl k op = do {
     (bufs, op') \<leftarrow> op_send op;
     let cl' = cl\<lparr>cl_operations := (cl_operations cl)(k \<mapsto> op')\<rparr>;
     Some (map (\<lambda>b. (cl_channel cl, co_endpoint op, b)) bufs,
       if co_timeout op \<le> 0 then cl' else cl'\<lparr>cl_channel := next_channel cl\<rparr>)
   }"

text \<open>The destructor: what the callback is given. It runs when no handler refers to the operation.\<close>

definition op_destroy :: "('e, 'i) client_op \<Rightarrow> errc + bytes" where
  "op_destroy op =
     (case co_result op of Some ec \<Rightarrow> Inl ec | None \<Rightarrow> Inr (resize (co_size op) 0 (co_response op)))"

definition op_released :: "('e, 'i) client_op \<Rightarrow> bool" where
  "op_released op \<longleftrightarrow> co_sends op = 0 \<and> co_timer op = Idle"

definition client_settle ::
    "operation_key \<Rightarrow> ('e, 'i, 'g) rpc_client \<Rightarrow> (errc + bytes) option \<times> ('e, 'i, 'g) rpc_client" where
  "client_settle k cl =
     (case cl_operations cl k of
        Some op \<Rightarrow>
          if op_released op then (Some (op_destroy op), cl\<lparr>cl_operations := (cl_operations cl)(k := None)\<rparr>)
          else (None, cl)
      | None \<Rightarrow> (None, cl))"

definition client_request ::
    "crypto \<Rightarrow> 'i interval_ops \<Rightarrow> ('g \<Rightarrow> u64 \<times> 'g) \<Rightarrow> ('e, 'i, 'g) rpc_client \<Rightarrow> 'e \<Rightarrow> bytes \<Rightarrow> bytes \<Rightarrow>
     request_options \<Rightarrow>
     ('e datagram list \<times> operation_key \<times> (errc + bytes) option \<times> ('e, 'i, 'g) rpc_client) option" where
  "client_request cr iv uniform cl endpoint method request options = do {
     (rid, gen) \<leftarrow> draw_id uniform (cl_gen cl) (cl_operations cl) (key_fp (rqo_key options));
     op \<leftarrow> op_new cr iv (cl_fragment_size cl) endpoint (rqo_key options) rid (request_message method request)
       (rqo_timeout options) (rqo_retry options);
     let k = (key_fp (rqo_key options), rid);
     (ds, cl') \<leftarrow> client_send (cl\<lparr>cl_gen := gen\<rparr>) k op;
     let (res, cl'') = client_settle k cl';
     Some (ds, k, res, cl'')
   }"

definition client_dispatch ::
    "crypto \<Rightarrow> 'i interval_ops \<Rightarrow> ('e, 'i, 'g) rpc_client \<Rightarrow> bytes \<Rightarrow> ('e, 'i, 'g) rpc_client" where
  "client_dispatch cr iv cl d =
     (if length d < header_size then cl
      else
        let k = (wh_fp (header_of d), wh_id (header_of d))
        in case cl_operations cl k of
             None \<Rightarrow> cl
           | Some op \<Rightarrow> cl\<lparr>cl_operations := (cl_operations cl)(k \<mapsto> op_unpack cr iv op d)\<rparr>)"

text \<open>The handlers of the retry timer and of a finished send, each of which gives up its reference.\<close>

definition client_wait_handler ::
    "('e, 'i, 'g) rpc_client \<Rightarrow> operation_key \<Rightarrow> errc option \<Rightarrow>
     ('e datagram list \<times> (errc + bytes) option \<times> ('e, 'i, 'g) rpc_client) option" where
  "client_wait_handler cl k ec =
     (case cl_operations cl k of
        None \<Rightarrow> Some ([], None, cl)
      | Some op0 \<Rightarrow> do {
          let op = op0\<lparr>co_timer := Idle\<rparr>;
          (ds, cl') \<leftarrow>
            (case ec of
               Some e \<Rightarrow>
                 Some ([], cl\<lparr>cl_operations := (cl_operations cl)(k \<mapsto>
                    (if e \<noteq> Operation_canceled then op_abort op e else op))\<rparr>)
             | None \<Rightarrow> client_send cl k op);
          let (res, cl'') = client_settle k cl';
          Some (ds, res, cl'')
        })"

definition client_sent ::
    "('e, 'i, 'g) rpc_client \<Rightarrow> operation_key \<Rightarrow> (errc + bytes) option \<times> ('e, 'i, 'g) rpc_client" where
  "client_sent cl k =
     (case cl_operations cl k of
        None \<Rightarrow> (None, cl)
      | Some op \<Rightarrow>
          client_settle k (cl\<lparr>cl_operations := (cl_operations cl)(k \<mapsto> op\<lparr>co_sends := co_sends op - 1\<rparr>)\<rparr>))"

section \<open>Receiving a response\<close>

lemma flag_partial_test:
  "((if b then flag_partial else 0) AND flag_partial = 0) \<longleftrightarrow> \<not> b"
  by (simp add: flag_partial_def)

lemma fragment_split:
  fixes cr key fp rid dir frag msg k
  defines "d \<equiv> fragment cr key fp rid dir frag msg k" and "n \<equiv> fragment_size frag msg k"
  shows "wh_fp (header_of d) = fp" and "wh_id (header_of d) = rid" and "wh_offset (header_of d) = of_nat k"
    and "drop header_size d = key_encrypt cr key (wire_nonce dir rid (of_nat k)) (take n (drop k msg))"
    and "wh_flags (header_of d) AND flag_partial = 0 \<longleftrightarrow> \<not> k + n < length msg"
    and "header_size \<le> length d"
  unfolding d_def n_def fragment_def Let_def by (simp_all add: header_size_def flag_partial_def)

lemma small_offset: "k \<in> set (offsets frag n 0) \<Longrightarrow> n \<le> 2 ^ 16 \<Longrightarrow> unat (of_nat k :: u16) = k"
  using offsets_le [of k frag n 0] by (intro unat_of_nat_small) auto

lemma decrypt_fragment:
  fixes cr key rid dir frag msg k
  defines "n \<equiv> fragment_size frag msg k"
  defines "body \<equiv> key_encrypt cr key (wire_nonce dir rid (of_nat k)) (take n (drop k msg))"
  assumes laws: "aead_laws cr" and k: "k \<in> set (offsets frag (length msg) 0)" and l: "length out = length body"
  shows "length body = n + 16"
    and "key_decrypt cr key (wire_nonce dir rid (of_nat k)) body out = (Some n, take n (drop k msg) @ drop n out)"
proof -
  have tn: "length (take n (drop k msg)) = n"
    using offsets_le [OF k] by (auto simp: n_def fragment_size_def)
  show len: "length body = n + 16" 
    unfolding body_def encrypt_length [OF laws] tn encrypt_overhead_def ..
  show "key_decrypt cr key (wire_nonce dir rid (of_nat k)) body out = (Some n, take n (drop k msg) @ drop n out)"
    using decrypt_encrypt [OF laws, of out "take n (drop k msg)" key "wire_nonce dir rid (of_nat k)"] l len
    unfolding body_def [symmetric] tn by (simp add: encrypt_overhead_def)
qed

definition op_assembled :: "('i \<Rightarrow> nat set) \<Rightarrow> nat \<Rightarrow> bytes \<Rightarrow> nat set \<Rightarrow> ('e, 'i) client_op \<Rightarrow> bool" where
  "op_assembled cover frag msg K op \<longleftrightarrow>
     assembled frag msg K (co_response op) (cover (co_intervals op)) (co_size op) \<and>
     (co_finished op \<longleftrightarrow> {0 ..< co_size op} \<subseteq> cover (co_intervals op)) \<and>
     (co_finished op \<longrightarrow> co_result op = None)"

lemma op_unpack_fragment:
  assumes aead: "aead_laws cr" and iv: "interval_laws iv cover" and len: "length msg \<le> 2 ^ 16"
    and inv: "op_assembled cover frag msg K op" and nf: "\<not> co_finished op"
    and k: "k \<in> set (offsets frag (length msg) 0)"
  shows "op_assembled cover frag msg (insert k K)
    (op_unpack cr iv op (fragment cr (co_key op) fp rid 1 frag msg k))"
proof -
  let ?n = "fragment_size frag msg k"
  let ?d = "fragment cr (co_key op) fp rid 1 frag msg k"
  note fs = fragment_split [of cr "co_key op" fp rid 1 frag msg k]
  let ?body = "key_encrypt cr (co_key op) (wire_nonce 1 rid (of_nat k)) (take ?n (drop k msg))"
  have off: "unat (of_nat k :: u16) = k" using small_offset k len by blast
  let ?buf = "room (k + ?n + 16) (co_response op)"
  let ?old = "take (?n + 16) (drop k ?buf)"
  have blen: "length ?body = ?n + 16"
    by (rule decrypt_fragment(1) [OF aead k, of "?body"]) simp
  have lold: "length ?old = length ?body" unfolding blen by (auto simp: room_def)
  have dec: "key_decrypt cr (co_key op) (wire_nonce 1 rid (of_nat k)) ?body ?old =
      (Some ?n, take ?n (drop k msg) @ drop ?n ?old)"
    by (rule decrypt_fragment(2) [OF aead k lold])
  have kn: "k + ?n \<le> length msg" using offsets_le [OF k] by (auto simp: fragment_size_def)
  let ?sz = "if k + ?n = length msg then length msg else co_size op"
  let ?iv = "iv_add iv (co_intervals op) k (k + ?n)"
  let ?op = "op\<lparr>co_response := overwrite k (take ?n (drop k msg) @ drop ?n ?old) ?buf, co_intervals := ?iv, co_size := ?sz\<rparr>"
  have eq: "op_unpack cr iv op ?d =
      (if iv_contains iv ?iv 0 ?sz
       then ?op\<lparr>co_finished := True, co_result := None, co_timer := cancel_timer (co_timer ?op)\<rparr> else ?op)"
    using nf kn unfolding op_unpack_def Let_def fs off blen dec
    by (simp add: add.assoc [symmetric] dec)
  have cov: "cover ?iv = cover (co_intervals op) \<union> {k ..< k + ?n}" using iv by (simp add: interval_laws_def)
  have "assembled frag msg (insert k K) (overwrite k (take ?n (drop k msg) @ drop ?n ?old) ?buf) (cover ?iv) ?sz"
    unfolding cov by (rule assembled_step) (use inv k in \<open>simp_all add: op_assembled_def\<close>)
  moreover have "iv_contains iv ?iv 0 ?sz \<longleftrightarrow> {0 ..< ?sz} \<subseteq> cover ?iv" using iv by (simp add: interval_laws_def)
  ultimately show ?thesis unfolding eq op_assembled_def using nf by simp
qed

lemma op_unpack_key [simp]: "co_key (op_unpack cr iv op d) = co_key op"
  by (simp add: op_unpack_def Let_def split: prod.split option.split)

lemma op_unpack_all:
  fixes fp rid
  assumes aead: "aead_laws cr" and iv: "interval_laws iv cover" and len: "length msg \<le> 2 ^ 16"
    and "op_assembled cover frag msg K op" and "set ks \<subseteq> set (offsets frag (length msg) 0)"
  defines "op' \<equiv> foldl (op_unpack cr iv) op (map (fragment cr (co_key op) fp rid 1 frag msg) ks)"
  shows "\<exists>K'. op_assembled cover frag msg K' op' \<and> K \<subseteq> K' \<and> (co_finished op' \<or> set ks \<subseteq> K')"
  using assms(4,5) unfolding op'_def
proof (induction ks arbitrary: op K)
  case (Cons k ks)
  let ?op = "op_unpack cr iv op (fragment cr (co_key op) fp rid 1 frag msg k)"
  show ?case
  proof (cases "co_finished op")
    case True
    have fin: "foldl (op_unpack cr iv) op ds = op" for ds using True by (induction ds) (simp_all add: op_unpack_def)
    show ?thesis unfolding fin using Cons.prems(1) True by blast
  next
    case False
    from Cons.prems(2) have k: "k \<in> set (offsets frag (length msg) 0)"
      and ks: "set ks \<subseteq> set (offsets frag (length msg) 0)" by auto
    have "op_assembled cover frag msg (insert k K) ?op"
      by (rule op_unpack_fragment [OF aead iv len Cons.prems(1) False k])
    from Cons.IH [OF this ks] obtain K' where "op_assembled cover frag msg K'
        (foldl (op_unpack cr iv) ?op (map (fragment cr (co_key op) fp rid 1 frag msg) ks))"
      "insert k K \<subseteq> K'" "co_finished (foldl (op_unpack cr iv) ?op (map (fragment cr (co_key op) fp rid 1 frag msg) ks)) \<or> set ks \<subseteq> K'"
      by auto
    then show ?thesis by (intro exI [of _ K']) auto
  qed
qed auto

lemma op_assembled_result:
  assumes "op_assembled cover frag msg K op" and "length msg \<le> 2 ^ 16" and "co_finished op"
  shows "op_destroy op = Inr msg"
proof -
  have "length msg < size_max" using assms(2) by (simp add: size_max_def)
  then have "co_size op = length msg \<and> take (co_size op) (co_response op) = msg"
    using assms assembled_complete_iff(1) by (auto simp: op_assembled_def)
  moreover have "length msg \<le> length (co_response op)"
    using calculation by (metis min.cobounded1 length_take)
  ultimately show ?thesis using assms(1,3) by (auto simp: op_assembled_def op_destroy_def resize_def)
qed

lemma pack_loop_all:
  "0 < frag \<Longrightarrow> pack_loop cr key fp rid dir frag msg 0 [] =
    Some (map (fragment cr key fp rid dir frag msg) (offsets frag (length msg) 0))"
  using pack_loop_offsets [of frag 0 msg cr key fp rid dir "[]"] by simp

lemma pack_loop_SomeE:
  assumes "0 < frag" and "pack_loop cr key fp rid dir frag msg 0 [] = Some buffers" and "set ds \<subseteq> set buffers"
  obtains ks where "ds = map (fragment cr key fp rid dir frag msg) ks"
    and "set ks \<subseteq> set (offsets frag (length msg) 0)"
proof -
  let ?f = "fragment cr key fp rid dir frag msg"
  have "set ds \<subseteq> ?f ` set (offsets frag (length msg) 0)"
    using assms pack_loop_all [OF assms(1), of cr key fp rid dir msg] by auto
  then have "ds \<in> lists (?f ` set (offsets frag (length msg) 0))" by (simp add: lists_eq_set)
  then have "ds \<in> map ?f ` lists (set (offsets frag (length msg) 0))" by (simp add: lists_image)
  then show thesis using that by (auto simp: lists_eq_set)
qed

lemma pack_loop_offsets_all:
  assumes "0 < frag" and "pack_loop cr key fp rid dir frag msg 0 [] = Some buffers" and "length msg \<le> 2 ^ 16"
    and "set (map (fragment cr key fp rid dir frag msg) ks) = set buffers" and "set ks \<subseteq> set (offsets frag (length msg) 0)"
  shows "set ks = set (offsets frag (length msg) 0)"
proof -
  let ?f = "fragment cr key fp rid dir frag msg"
  have at: "unat (wh_offset (header_of (?f k))) = k" if "k \<in> set (offsets frag (length msg) 0)" for k
    using small_offset [OF that assms(3)] by (simp add: fragment_split)
  have "?f ` set ks = ?f ` set (offsets frag (length msg) 0)"
    using assms(1,2,4) pack_loop_all [OF assms(1), of cr key fp rid dir msg] by auto
  moreover have "inj_on ?f (set (offsets frag (length msg) 0))" using at by (metis inj_onI)
  ultimately show ?thesis using assms(5) by (simp add: inj_on_image_eq_iff)
qed

lemma op_new_assembled:
  assumes "op_new cr iv cfrag endpoint key rid request timeout retry = Some op" and "interval_laws iv cover"
  shows "op_assembled cover frag msg {} op" and "co_key op = key"
  using assms assembled_init [of frag msg]
  by (auto simp: op_new_def op_assembled_def interval_laws_def size_max_def)

lemma op_reassembles:
  assumes "aead_laws cr" and "interval_laws iv cover" and "length msg \<le> 2 ^ 16" and "0 < frag"
    and "op_assembled cover frag msg {} op" and "co_key op = key"
    and "pack_loop cr key fp rid 1 frag msg 0 [] = Some buffers" and "set ds \<subseteq> set buffers"
  shows "let op' = foldl (op_unpack cr iv) op ds in
    (set ds = set buffers \<longrightarrow> co_finished op') \<and> (co_finished op' \<longrightarrow> op_destroy op' = Inr msg)"
proof -
  obtain ks where ds: "ds = map (fragment cr key fp rid 1 frag msg) ks" and ks: "set ks \<subseteq> set (offsets frag (length msg) 0)"
    using pack_loop_SomeE [OF assms(4,7,8)] .
  let ?op = "foldl (op_unpack cr iv) op ds"
  obtain K where K: "op_assembled cover frag msg K ?op" "co_finished ?op \<or> set ks \<subseteq> K"
    using op_unpack_all [OF assms(1-3,5) ks, of fp rid] unfolding assms(6) ds by blast
  have "co_finished ?op" if all: "set ds = set buffers"
  proof -
    have "set ks = set (offsets frag (length msg) 0)"
      using pack_loop_offsets_all [OF assms(4,7,3) _ ks] all unfolding ds by blast
    then have "co_finished ?op \<or> K = set (offsets frag (length msg) 0)"
      using K unfolding op_assembled_def assembled_def by blast
    moreover have "length msg < size_max" using assms(3) by (simp add: size_max_def)
    ultimately show ?thesis
      using K(1) assembled_complete_iff(2) [OF _ _ assms(4)] unfolding op_assembled_def by blast
  qed
  with op_assembled_result [OF K(1) assms(3)] show ?thesis by (simp add: Let_def)
qed

lemma client_reassembles_aux:
  assumes "aead_laws cr" and "interval_laws iv cover" and "length msg \<le> 2 ^ 16" and "0 < frag"
    and "op_new cr iv cfrag endpoint key rid request timeout retry = Some op"
    and "pack_loop cr key fp rid 1 frag msg 0 [] = Some buffers" and "set ds \<subseteq> set buffers"
  shows "let op' = foldl (op_unpack cr iv) op ds in
    (set ds = set buffers \<longrightarrow> co_finished op') \<and> (co_finished op' \<longrightarrow> op_destroy op' = Inr msg)"
  by (rule op_reassembles [OF assms(1-4) op_new_assembled [OF assms(5,2)] assms(6,7)])

lemma client_response:
  assumes "aead_laws cr" and "interval_laws iv cover" and "length msg \<le> 2 ^ 16" and "0 < frag"
    and "op_new cr iv cfrag endpoint key rid request timeout retry = Some op"
    and "pack_loop cr key fp rid 1 frag msg 0 [] = Some buffers" and "set ds = set buffers"
  shows "op_destroy (foldl (op_unpack cr iv) op ds) = Inr msg"
  using client_reassembles_aux [OF assms(1-6), of ds] assms(7) by (simp add: Let_def)

text \<open>A response of at most 64 KiB arrives intact: if the datagrams that reach a new client operation are
  ones that the packing loop made for that response, in any order and with any repetition, then
  the operation finishes exactly with that response once each of them has arrived, and it never
  finishes with anything else before.\<close>

theorem client_reassembles:
  assumes "aead_laws cr" and "interval_laws iv cover" and "length msg \<le> 2 ^ 16" and "0 < frag"
    and "op_new cr iv cfrag endpoint key rid request timeout retry = Some op"
    and "pack_loop cr key fp rid 1 frag msg 0 [] = Some buffers" and "set ds \<subseteq> set buffers"
  shows "let op' = foldl (op_unpack cr iv) op ds in
    (set ds = set buffers \<longrightarrow> co_finished op') \<and> (co_finished op' \<longrightarrow> op_destroy op' = Inr msg)"
  by (rule client_reassembles_aux) fact+

definition sample_op :: "int \<Rightarrow> int \<Rightarrow> (unit, nat list) client_op" where
  "sample_op timeout retry = the (op_new plain_crypto list_intervals 2 () (key_new plain_crypto [7]) 5 [9] timeout retry)"

lemma sample_op_new:
  "op_new plain_crypto list_intervals 2 () (key_new plain_crypto [7]) 5 [9] timeout retry = Some (sample_op timeout retry)"
  by (simp add: sample_op_def op_new_def pack_loop_all)

theorem client_reassembles_witness:
  "\<exists>op buffers. op_new plain_crypto list_intervals 2 () (key_new plain_crypto [7]) 5 [9] 10 1 = Some op \<and>
    pack_loop plain_crypto (key_new plain_crypto [7]) 3 5 1 2 [1, 2, 3] 0 [] = Some buffers \<and>
    op_destroy (foldl (op_unpack plain_crypto list_intervals) op (rev buffers)) = Inr [1, 2, 3]"
proof -
  let ?key = "key_new plain_crypto [7]"
  obtain op where op: "op_new plain_crypto list_intervals 2 () ?key 5 [9] 10 1 = Some op"
    by (auto simp: op_new_def pack_loop_all)
  obtain buffers where b: "pack_loop plain_crypto ?key 3 5 1 2 [1, 2, 3] 0 [] = Some buffers"
    by (auto simp: pack_loop_all)
  have "op_destroy (foldl (op_unpack plain_crypto list_intervals) op (rev buffers)) = Inr [1, 2, 3]"
    using client_reassembles [OF plain_crypto_laws list_intervals_laws _ _ op b, of "rev buffers"] by (simp add: Let_def)
  with op b show ?thesis by blast
qed

section \<open>The life of an operation\<close>

text \<open>What may happen to an operation: its timer expires, the queued handler of the timer runs (after an
  expiry, a cancellation or another error), a datagram has been sent, a datagram arrives.\<close>

inductive op_step :: "crypto \<Rightarrow> 'i interval_ops \<Rightarrow> ('e, 'i) client_op \<Rightarrow> ('e, 'i) client_op \<Rightarrow> bool"
  for cr :: crypto and iv :: "'i interval_ops" where
  expire: "co_timer op = Armed \<Longrightarrow> op_step cr iv op (op\<lparr>co_timer := Expired\<rparr>)"
| fire: "co_timer op = Expired \<Longrightarrow> op_send (op\<lparr>co_timer := Idle\<rparr>) = Some (bufs, op') \<Longrightarrow> op_step cr iv op op'"
| cancelled: "co_timer op = Cancelled \<Longrightarrow> op_step cr iv op (op\<lparr>co_timer := Idle\<rparr>)"
| failed: "co_timer op = Armed \<Longrightarrow> ec \<noteq> Operation_canceled \<Longrightarrow> ec \<noteq> Bad_address \<Longrightarrow>
    op_step cr iv op (op_abort (op\<lparr>co_timer := Idle\<rparr>) ec)"
| sent: "0 < co_sends op \<Longrightarrow> op_step cr iv op (op\<lparr>co_sends := co_sends op - 1\<rparr>)"
| arrive: "op_step cr iv op (op_unpack cr iv op d)"

definition op_alive :: "('e, 'i) client_op \<Rightarrow> bool" where
  "op_alive op \<longleftrightarrow> (co_finished op \<or> co_timer op \<in> {Armed, Expired}) \<and>
     (co_timer op = Cancelled \<longrightarrow> co_finished op) \<and> (co_finished op \<longrightarrow> co_result op \<noteq> Some Bad_address)"

lemma op_send_cases:
  assumes "op_send op = Some (bufs, op')"
  obtains (timed_out) "co_timeout op \<le> 0" and "bufs = []" and "op' = op_abort op Timed_out"
  | (sent) sequence where "0 < co_timeout op" and "bufs = co_buffers op" and "fib_next (co_sequence op) = Some sequence"
      and "op' = op\<lparr>co_sends := co_sends op + length (co_buffers op), co_sequence := sequence,
        co_timeout := co_timeout op - min (co_retry op * fib_a (co_sequence op)) (co_timeout op), co_timer := Armed\<rparr>"
  using assms by (cases "co_timeout op \<le> 0") (auto simp: op_send_def Let_def split: bind_splits)

lemma op_send_alive:
  assumes "op_send op = Some (bufs, op')" and "co_timer op = Idle" and "co_finished op \<longrightarrow> co_result op \<noteq> Some Bad_address"
  shows "op_alive op'"
  using assms(1) by (cases rule: op_send_cases)
    (use assms(2,3) in \<open>auto simp: op_abort_def op_alive_def cancel_timer_def\<close>)

lemma op_unpack_alive: "op_alive op \<Longrightarrow> op_alive (op_unpack cr iv op d)"
  by (auto simp: op_unpack_def op_alive_def Let_def cancel_timer_def split: prod.split option.split)

lemma op_step_alive: "op_step cr iv op op' \<Longrightarrow> op_alive op \<Longrightarrow> op_alive op'"
proof (induction rule: op_step.induct)
  case (fire op bufs op')
  then show ?case by (intro op_send_alive [OF fire(2)]) (auto simp: op_alive_def)
next
  case (arrive op d)
  then show ?case by (simp add: op_unpack_alive)
qed (auto simp: op_alive_def op_abort_def)

text \<open>C15. The callback always gets a real outcome: when the last reference to an operation is gone, the
  operation is finished, so that its destructor never reports the placeholder \<^verbatim>\<open>bad_address\<close> it was
  created with.\<close>

theorem client_callback_outcome:
  assumes "op_new cr iv frag endpoint key rid request timeout retry = Some op" and "op_send op = Some (bufs, op0)"
    and "(op_step cr iv)\<^sup>*\<^sup>* op0 op'" and "op_released op'"
  shows "co_finished op' \<and> op_destroy op' \<noteq> Inl Bad_address"
proof -
  have "op_alive op0" using assms(1) by (intro op_send_alive [OF assms(2)]) (auto simp: op_new_def)
  with assms(3) have "op_alive op'" by (induction rule: rtranclp_induct) (auto intro: op_step_alive)
  then show ?thesis using assms(4) by (auto simp: op_alive_def op_released_def op_destroy_def split: option.splits)
qed

theorem client_callback_outcome_witness:
  "\<exists>bufs op'. op_send (sample_op 0 1) = Some (bufs, op') \<and> op_destroy op' \<noteq> Inl Bad_address"
proof -
  let ?op = "op_abort (sample_op 0 1) Timed_out"
  have "op_send (sample_op 0 1) = Some ([], ?op)" "op_released ?op"
    by (simp_all add: op_released_def sample_op_def op_new_def pack_loop_all op_send_def op_abort_def cancel_timer_def)
  then show ?thesis using client_callback_outcome [OF sample_op_new, of 0 1 "[]" ?op ?op] by blast
qed

section \<open>Retries\<close>

text \<open>Expiry after expiry, with no answer: the waiting periods, and the operation at the end.\<close>

primrec unanswered :: "nat \<Rightarrow> ('e, 'i) client_op \<Rightarrow> (int list \<times> ('e, 'i) client_op) option" where
  "unanswered 0 op = Some ([], op)"
| "unanswered (Suc n) op =
     (if co_timer op = Armed then do {
        (bufs, op') \<leftarrow> op_send (op\<lparr>co_timer := Idle\<rparr>);
        (ps, op'') \<leftarrow> unanswered n op';
        Some ((co_timeout op - co_timeout op') # ps, op'')
      }
      else Some ([], op))"

text \<open>The sequence over the integers. The one of the source follows it up to its 44th successor.\<close>

primrec fib_at :: "nat \<Rightarrow> fibonacci" where
  "fib_at 0 = fib_reset"
| "fib_at (Suc n) = \<lparr>fib_a = fib_b (fib_at n), fib_b = fib_b (fib_at n) + fib_a (fib_at n)\<rparr>"

lemma fib_at_pos: "0 < fib_a (fib_at n)" "fib_a (fib_at n) \<le> fib_b (fib_at n)"
  by (induction n) (auto simp: fib_reset_def)

lemma fib_at_mono: "m \<le> n \<Longrightarrow> fib_b (fib_at m) \<le> fib_b (fib_at n)"
  by (rule lift_Suc_mono_le [of "\<lambda>n. fib_b (fib_at n)"]) (simp_all add: less_imp_le [OF fib_at_pos(1)])

lemma fib_at_jump: "fib_at n = \<lparr>fib_a = a, fib_b = b\<rparr> \<Longrightarrow> fib_at (n + 11) = \<lparr>fib_a = 55 * a + 89 * b, fib_b = 89 * a + 144 * b\<rparr>"
  by (simp add: eval_nat_numeral)

lemma fib_at_44: "fib_b (fib_at 44) = 1836311903" and fib_at_45: "fib_b (fib_at (Suc 44)) = 2971215073"
proof -
  have "fib_at 0 = \<lparr>fib_a = 1, fib_b = 1\<rparr>" by (simp add: fib_reset_def)
  from fib_at_jump [OF fib_at_jump [OF fib_at_jump [OF fib_at_jump [OF this]]]]
  have "fib_at 44 = \<lparr>fib_a = 1134903170, fib_b = 1836311903\<rparr>" by simp
  then show "fib_b (fib_at 44) = 1836311903" "fib_b (fib_at (Suc 44)) = 2971215073" unfolding fib_at.simps by simp_all
qed

lemma fib_next_at: "fib_next (fib_at n) = (if n < 44 then Some (fib_at (Suc n)) else None)"
proof -
  have "int32_ok (fib_b (fib_at (Suc n))) \<longleftrightarrow> n < 44"
    using fib_at_mono [of "Suc n" 44] fib_at_mono [of "Suc 44" "Suc n"] fib_at_pos [of "Suc n"] fib_at_44 fib_at_45
    by (cases "n < 44") (simp_all add: int32_ok_def del: fib_at.simps)
  then show ?thesis by (simp add: fib_next_def checked_int32_def)
qed

text \<open>The pauses before the sequence is at \<open>n\<close> add up to \<open>fib_b (fib_at n) - 1\<close> times the first one. The product that is the
  next pause stays below the timeout as long as there is time left, and so in its type.\<close>

lemma op_send_unanswered:
  assumes "co_sequence op = fib_at n" and "0 \<le> co_retry op" and "co_retry op < 2 ^ 63" and "whole < 2 ^ 63"
    and "0 < co_timeout op" and "co_timeout op = whole - co_retry op * (fib_b (fib_at n) - 1)"
  shows "op_send op = (if n < 44 then Some (co_buffers op,
    op\<lparr>co_sends := co_sends op + length (co_buffers op), co_sequence := fib_at (Suc n),
       co_timeout := max 0 (whole - co_retry op * (fib_b (fib_at (Suc n)) - 1)), co_timer := Armed\<rparr>) else None)"
proof -
  let ?a = "fib_a (fib_at n)" and ?r = "co_retry op"
  have nn: "0 \<le> ?r * ?a" "0 \<le> ?r * (fib_b (fib_at n) - 1)" using assms(2) fib_at_pos [of n] by simp_all
  have fits: "?r * ?a < 2 ^ 63"
  proof (cases n)
    case 0
    then show ?thesis using assms(3) by (simp add: fib_reset_def)
  next
    case (Suc m)
    then have "?a \<le> fib_b (fib_at n) - 1" using fib_at_pos [of m] by simp
    then have "?r * ?a \<le> ?r * (fib_b (fib_at n) - 1)" using assms(2) by (rule mult_left_mono)
    then show ?thesis using assms(4-6) by linarith
  qed
  have "co_timeout op - min (?r * ?a) (co_timeout op) = max 0 (whole - ?r * (fib_b (fib_at (Suc n)) - 1))"
    unfolding assms(6) by (auto simp: algebra_simps min_def max_def)
  moreover have "int64_ok (?r * ?a)" "int64_ok (co_timeout op - min (?r * ?a) (co_timeout op))"
    using nn fits assms(4,5) unfolding int64_ok_def assms(6) by linarith+
  ultimately show ?thesis using assms(1,5) by (simp add: op_send_def fib_next_at Let_def)
qed

lemma unanswered_ends:
  assumes "n \<le> 44" and "0 < n" and "co_sequence op = fib_at n" and "co_timer op = Armed" and "\<not> co_finished op"
    and "0 \<le> co_retry op" and "co_retry op < 2 ^ 63" and "whole < 2 ^ 63"
    and "co_timeout op = max 0 (whole - co_retry op * (fib_b (fib_at n) - 1))" and "45 - n \<le> fuel"
  shows "if whole \<le> co_retry op * 1836311902
    then \<exists>ps op'. unanswered fuel op = Some (ps, op') \<and> co_timer op' = Idle \<and> co_result op' = Some Timed_out \<and> sum_list ps = co_timeout op
    else unanswered fuel op = None"
  using assms
proof (induction fuel arbitrary: n op)
  case (Suc fuel)
  let ?op = "op\<lparr>co_timer := Idle\<rparr>"
  have mono: "co_retry op * (fib_b (fib_at n) - 1) \<le> co_retry op * 1836311902"
    using Suc.prems(6) fib_at_mono [OF Suc.prems(1)] by (intro mult_left_mono) (simp_all add: fib_at_44)
  show ?case
  proof (cases "co_timeout op = 0")
    case True
    then have "unanswered (Suc fuel) op = Some ([0], op_abort ?op Timed_out)"
      using Suc.prems(4,5) by (cases fuel) (simp_all add: op_send_def op_abort_def cancel_timer_def)
    then show ?thesis using True Suc.prems(5,9) mono by (simp add: op_abort_def cancel_timer_def)
  next
    case False
    with Suc.prems(9) have t: "0 < co_timeout op" "co_timeout op = whole - co_retry op * (fib_b (fib_at n) - 1)" by auto
    have send: "op_send ?op = (if n < 44 then Some (co_buffers op, ?op\<lparr>co_sends := co_sends op + length (co_buffers op),
        co_sequence := fib_at (Suc n), co_timeout := max 0 (whole - co_retry op * (fib_b (fib_at (Suc n)) - 1)), co_timer := Armed\<rparr>) else None)"
      using op_send_unanswered [of ?op n whole] Suc.prems(3,6-8) t by (simp del: fib_at.simps)
    show ?thesis
    proof (cases "n < 44")
      case True
      define op' where "op' = ?op\<lparr>co_sends := co_sends op + length (co_buffers op), co_sequence := fib_at (Suc n),
        co_timeout := max 0 (whole - co_retry op * (fib_b (fib_at (Suc n)) - 1)), co_timer := Armed\<rparr>"
      have "op_send ?op = Some (co_buffers op, op')" using send True by (simp add: op'_def)
      moreover have o: "co_sequence op' = fib_at (Suc n)" "co_timer op' = Armed" "co_finished op' = co_finished op" "co_retry op' = co_retry op"
        "co_timeout op' = max 0 (whole - co_retry op * (fib_b (fib_at (Suc n)) - 1))" by (simp_all add: op'_def)
      moreover have "if whole \<le> co_retry op * 1836311902
        then \<exists>ps op''. unanswered fuel op' = Some (ps, op'') \<and> co_timer op'' = Idle \<and> co_result op'' = Some Timed_out \<and> sum_list ps = co_timeout op'
        else unanswered fuel op' = None"
        using Suc.IH [of "Suc n" op', unfolded o(3,4)] Suc.prems(5-8,10) True o(1,2,5) by (simp only: o(3,4)) auto
      ultimately show ?thesis using Suc.prems(4) by (auto split: if_splits)
    next
      case False
      with Suc.prems(1) have "n = 44" by simp
      with t send Suc.prems(4) show ?thesis by (simp add: fib_at_44)
    qed
  qed
qed simp

text \<open>C16. An operation that is never answered is retried with pauses that add up to its timeout, and then ends with
  \<^verbatim>\<open>timed_out\<close>, exactly when the timeout is at most 1836311902 times the first pause, \<^verbatim>\<open>initial_retry\<close>. Otherwise (in
  particular with a first pause of zero) the 45th attempt adds \<^verbatim>\<open>int\<close> values beyond their range, which is undefined.\<close>

theorem client_unanswered_times_out:
  assumes "op_new cr iv frag endpoint key rid request timeout retry = Some op"
    and "0 \<le> retry" and "retry < 2 ^ 63" and "0 < timeout" and "timeout < 2 ^ 63"
  shows "\<exists>op1. op_send op = Some (co_buffers op, op1) \<and>
    (if timeout \<le> retry * 1836311902
     then \<exists>ps op'. unanswered 44 op1 = Some (ps, op') \<and> co_timer op' = Idle \<and> co_result op' = Some Timed_out \<and>
       (timeout - co_timeout op1) + sum_list ps = timeout
     else unanswered 44 op1 = None)"
proof -
  have op: "co_timer op = Idle" "\<not> co_finished op" "co_retry op = retry" "co_timeout op = timeout" "co_sequence op = fib_at 0"
    using assms(1) by (auto simp: op_new_def)
  note send = op_send_unanswered [OF op(5), of timeout, unfolded op(3,4), OF assms(2,3,5,4)]
  define op1 where "op1 = op\<lparr>co_sends := co_sends op + length (co_buffers op), co_sequence := fib_at (Suc 0),
    co_timeout := max 0 (timeout - retry * (fib_b (fib_at (Suc 0)) - 1)), co_timer := Armed\<rparr>"
  have "op_send op = Some (co_buffers op, op1)" using send by (simp add: op1_def fib_reset_def)
  moreover have "if timeout \<le> retry * 1836311902
    then \<exists>ps op'. unanswered 44 op1 = Some (ps, op') \<and> co_timer op' = Idle \<and> co_result op' = Some Timed_out \<and> sum_list ps = co_timeout op1
    else unanswered 44 op1 = None"
    using unanswered_ends [of "Suc 0" op1 timeout 44] op assms(2-5) by (simp add: op1_def del: unanswered.simps)
  ultimately show ?thesis by (auto split: if_splits)
qed

theorem client_unanswered_times_out_witness:
  "(\<exists>op1 ps op'. op_send (sample_op 10 1) = Some (co_buffers (sample_op 10 1), op1) \<and> unanswered 44 op1 = Some (ps, op') \<and>
      co_result op' = Some Timed_out) \<and>
   (\<exists>op1. op_send (sample_op 10 0) = Some (co_buffers (sample_op 10 0), op1) \<and> unanswered 44 op1 = None)"
  using client_unanswered_times_out [OF sample_op_new, of 1 10] client_unanswered_times_out [OF sample_op_new, of 0 10]
  by (simp del: unanswered.simps) blast

end
