(* ===== verification/Rpc_Server.thy ===== *)
theory Rpc_Server
  imports Rpc_Client
begin

text \<open>
  \<^verbatim>\<open>net/rpc/server.cc\<close>: reassembly of requests, the split into request and method, dispatch to a handler,
  and the responses. A handler may call its callback at any later time: calling the handler is an
  effect here, and the callback is the operation \<open>sop_reply\<close>.
\<close>

record ('e, 'i) server_op =
  so_endpoint :: 'e
  so_fp :: u64
  so_id :: u64
  so_key :: "security_key option"
  so_request :: bytes
  so_intervals :: 'i
  so_size :: nat
  so_response :: bytes
  so_buffers :: "bytes list"
  so_keep_alive :: bool
  so_callbacks :: nat
  so_sends :: nat
  so_detached :: bool

datatype 'e effect = Send_to 'e bytes | Call bytes bytes security_key

record server_options =
  svo_fragment_size :: nat
  svo_buffer_size :: nat

definition server_options_default :: server_options where
  "server_options_default = \<lparr>svo_fragment_size = 1024, svo_buffer_size = 2048\<rparr>"

record ('e, 'i) rpc_server =
  sv_fragment_size :: nat
  sv_buffer_size :: nat
  sv_handlers :: "bytes list"
  sv_keystore :: keystore
  sv_operations :: "operation_key \<rightharpoonup> ('e, 'i) server_op"

definition server_handle :: "('e, 'i) rpc_server \<Rightarrow> bytes \<Rightarrow> ('e, 'i) rpc_server" where
  "server_handle sv name =
     (if name \<in> set (sv_handlers sv) then sv else sv\<lparr>sv_handlers := sv_handlers sv @ [name]\<rparr>)"

definition server_add_key :: "('e, 'i) rpc_server \<Rightarrow> security_key \<Rightarrow> ('e, 'i) rpc_server" where
  "server_add_key sv key = sv\<lparr>sv_keystore := keystore_add (sv_keystore sv) key\<rparr>"

text \<open>The names "ping" and "list" in ASCII.\<close>

definition ping_name :: bytes where
  "ping_name = [112, 105, 110, 103]"

definition list_name :: bytes where
  "list_name = [108, 105, 115, 116]"

definition server_new :: "server_options \<Rightarrow> security_key \<Rightarrow> ('e, 'i) rpc_server" where
  "server_new options zero =
     (let sv = \<lparr>sv_fragment_size = svo_fragment_size options, sv_buffer_size = svo_buffer_size options, sv_handlers = [], sv_keystore = Map.empty, sv_operations = Map.empty\<rparr>
      in server_add_key (server_handle (server_handle sv ping_name) list_name) zero)"

text \<open>The two handlers of the server itself: \<^verbatim>\<open>ping\<close> echoes, \<^verbatim>\<open>list\<close> has the sorted method names.\<close>

definition ping_handler :: "bytes \<Rightarrow> bytes" where
  "ping_handler request = request"

definition list_handler :: "('e, 'i) rpc_server \<Rightarrow> bytes list" where
  "list_handler sv = sort (sv_handlers sv)"

section \<open>Operations\<close>

definition sop_new :: "'i interval_ops \<Rightarrow> 'e \<Rightarrow> u64 \<Rightarrow> u64 \<Rightarrow> ('e, 'i) server_op" where
  "sop_new iv endpoint fp rid =
     \<lparr>so_endpoint = endpoint, so_fp = fp, so_id = rid, so_key = None, so_request = [],
      so_intervals = iv_empty iv, so_size = size_max, so_response = [], so_buffers = [],
      so_keep_alive = False, so_callbacks = 0, so_sends = 0, so_detached = False\<rparr>"

definition sop_respond :: "('e, 'i) server_op \<Rightarrow> 'e effect list \<times> ('e, 'i) server_op" where
  "sop_respond op =
     (map (Send_to (so_endpoint op)) (so_buffers op), op\<lparr>so_sends := so_sends op + length (so_buffers op)\<rparr>)"

text \<open>\<^verbatim>\<open>pack\<close>, from the callback of the handler, which gives up its reference.\<close>

definition sop_reply ::
    "crypto \<Rightarrow> nat \<Rightarrow> ('e, 'i) server_op \<Rightarrow> bytes \<Rightarrow> ('e effect list \<times> ('e, 'i) server_op) option" where
  "sop_reply cr frag op response =
     (case so_key op of
        None \<Rightarrow> None
      | Some key \<Rightarrow>
          (case pack_loop cr key (so_fp op) (so_id op) 1 frag response 0 (so_buffers op) of
             None \<Rightarrow> None
           | Some buffers \<Rightarrow>
               Some (sop_respond (op\<lparr>so_response := response, so_buffers := buffers,
                                    so_callbacks := so_callbacks op - 1\<rparr>))))"

text \<open>The scan for the method name: the position after the last zero byte before \<open>i\<close>, or 0.\<close>

fun method_start :: "bytes \<Rightarrow> nat \<Rightarrow> nat" where
  "method_start request 0 = 0"
| "method_start request (Suc i) = (if request ! i \<noteq> 0 then method_start request i else Suc i)"

definition sop_handle :: "bytes list \<Rightarrow> security_key \<Rightarrow> ('e, 'i) server_op \<Rightarrow> 'e effect list \<times> ('e, 'i) server_op" where
  "sop_handle handlers key op =
     (let request_end = method_start (so_request op) (so_size op);
          method = take (so_size op - request_end) (drop request_end (so_request op));
          request_end' = (if request_end \<noteq> 0 then request_end - 1 else request_end)
      in if method \<notin> set handlers then ([], op)
         else ([Call method (resize request_end' 0 (so_request op)) key],
               op\<lparr>so_request := [], so_callbacks := so_callbacks op + 1\<rparr>))"

text \<open>The keys tried in order; each attempt writes to the output.\<close>

fun try_keys :: "crypto \<Rightarrow> bytes \<Rightarrow> bytes \<Rightarrow> bytes \<Rightarrow> security_key list \<Rightarrow> (security_key \<times> nat) option \<times> bytes" where
  "try_keys cr nonce body out [] = (None, out)"
| "try_keys cr nonce body out (key # keys) =
     (case key_decrypt cr key nonce body out of
        (Some n, out') \<Rightarrow> (Some (key, n), out')
      | (None, out') \<Rightarrow> try_keys cr nonce body out' keys)"

definition sop_decrypt ::
    "crypto \<Rightarrow> keystore \<Rightarrow> ('e, 'i) server_op \<Rightarrow> wire_header \<Rightarrow> bytes \<Rightarrow> (security_key \<times> nat) option \<times> ('e, 'i) server_op" where
  "sop_decrypt cr ks op header body =
     (let offset = unat (wh_offset header);
          request = room (offset + length body) (so_request op);
          nonce = wire_nonce 0 (wh_id header) (wh_offset header);
          old = take (length body) (drop offset request)
      in case so_key op of
           Some key \<Rightarrow>
             (case key_decrypt cr key nonce body old of
                (r, out) \<Rightarrow> (map_option (Pair key) r, op\<lparr>so_request := overwrite offset out request\<rparr>))
         | None \<Rightarrow>
             (case try_keys cr nonce body old (keystore_find ks (wh_fp header)) of
                (None, out) \<Rightarrow> (None, op\<lparr>so_request := overwrite offset out request\<rparr>)
              | (Some (key, n), out) \<Rightarrow>
                  (Some (key, n), op\<lparr>so_request := overwrite offset out request, so_key := Some key,
                                     so_keep_alive := True\<rparr>)))"

definition sop_unpack ::
    "crypto \<Rightarrow> 'i interval_ops \<Rightarrow> keystore \<Rightarrow> bytes list \<Rightarrow> ('e, 'i) server_op \<Rightarrow> bytes \<Rightarrow> 'e effect list \<times> ('e, 'i) server_op" where
  "sop_unpack cr iv ks handlers op d =
     (let header = header_of d;
          offset = unat (wh_offset header);
          last = (wh_flags header AND flag_partial = 0)
      in case sop_decrypt cr ks op header (drop header_size d) of
           (None, op1) \<Rightarrow> ([], op1)
         | (Some (key, n), op1) \<Rightarrow>
             if iv_contains iv (so_intervals op1) 0 (so_size op1) then
               (if last then sop_respond op1 else ([], op1))
             else
               let op2 = op1\<lparr>so_intervals := iv_add iv (so_intervals op1) offset (offset + n),
                             so_size := (if last then offset + n else so_size op1)\<rparr>
               in if iv_contains iv (so_intervals op2) 0 (so_size op2) then sop_handle handlers key op2
                  else ([], op2))"

definition sop_released :: "('e, 'i) server_op \<Rightarrow> bool" where
  "sop_released op \<longleftrightarrow> \<not> so_keep_alive op \<and> so_callbacks op = 0 \<and> so_sends op = 0"

text \<open>The table after an operation changed: an operation without references is destroyed.\<close>

definition server_put ::
    "('e, 'i) rpc_server \<Rightarrow> operation_key \<Rightarrow> ('e, 'i) server_op \<Rightarrow> ('e, 'i) rpc_server" where
  "server_put sv k op =
     sv\<lparr>sv_operations := (sv_operations sv)(k := if sop_released op then None else Some op)\<rparr>"

definition server_dispatch ::
    "crypto \<Rightarrow> 'i interval_ops \<Rightarrow> ('e, 'i) rpc_server \<Rightarrow> 'e \<Rightarrow> bytes \<Rightarrow> 'e effect list \<times> ('e, 'i) rpc_server" where
  "server_dispatch cr iv sv endpoint d =
     (if length d < header_size then ([], sv)
      else
        let k = (wh_fp (header_of d), wh_id (header_of d));
            op = (case sv_operations sv k of
                    Some op \<Rightarrow> op\<lparr>so_endpoint := endpoint\<rparr>
                  | None \<Rightarrow> sop_new iv endpoint (fst k) (snd k));
            (effects, op') = sop_unpack cr iv (sv_keystore sv) (sv_handlers sv) op d
        in (effects, server_put sv k op'))"

definition server_reply ::
    "crypto \<Rightarrow> ('e, 'i) rpc_server \<Rightarrow> operation_key \<Rightarrow> bytes \<Rightarrow> ('e effect list \<times> ('e, 'i) rpc_server) option" where
  "server_reply cr sv k response =
     (case sv_operations sv k of
        None \<Rightarrow> None
      | Some op \<Rightarrow>
          map_option (\<lambda>(effects, op'). (effects, server_put sv k op')) (sop_reply cr (sv_fragment_size sv) op response))"

text \<open>The handlers of the keep-alive timer and of a finished send.\<close>

definition server_expire :: "('e, 'i) rpc_server \<Rightarrow> operation_key \<Rightarrow> ('e, 'i) rpc_server" where
  "server_expire sv k =
     (case sv_operations sv k of None \<Rightarrow> sv | Some op \<Rightarrow> server_put sv k (op\<lparr>so_keep_alive := False\<rparr>))"

definition server_sent :: "('e, 'i) rpc_server \<Rightarrow> operation_key \<Rightarrow> ('e, 'i) rpc_server" where
  "server_sent sv k =
     (case sv_operations sv k of None \<Rightarrow> sv | Some op \<Rightarrow> server_put sv k (op\<lparr>so_sends := so_sends op - 1\<rparr>))"

section \<open>Method and request\<close>

lemma method_start_split:
  assumes "0 \<notin> set name"
  shows "method_start (pre @ [0] @ name @ rest) (length pre + 1 + length name) = length pre + 1"
    and "method_start (name @ rest) (length name) = 0"
proof -
  have scan: "method_start (xs @ name @ rest) (length xs + length name) = method_start (xs @ name @ rest) (length xs)" for xs
    using assms
  proof (induction name arbitrary: rest rule: rev_induct)
    case (snoc b name)
    then have "(xs @ (name @ [b]) @ rest) ! (length xs + length name) \<noteq> 0" by (simp add: nth_append)
    with snoc.IH [of "b # rest"] snoc.prems show ?case by (simp del: append_assoc add: append_assoc [symmetric])
        (simp)
  qed simp
  show "method_start (name @ rest) (length name) = 0" using scan [of "[]"] by simp
  show "method_start (pre @ [0] @ name @ rest) (length pre + 1 + length name) = length pre + 1"
    using scan [of "pre @ [0]"] by (simp add: nth_append)
qed

lemma sop_handle_message:
  assumes "0 \<notin> set method" and "method \<in> set handlers"
    and "take (so_size op) (so_request op) = request_message method request" and "so_size op = length (request_message method request)"
  shows "sop_handle handlers key op =
    ([Call method request key], op\<lparr>so_request := [], so_callbacks := so_callbacks op + 1\<rparr>)"
proof -
  obtain rest where buf: "so_request op = request_message method request @ rest"
    using assms(3) by (metis append_take_drop_id)
  show ?thesis
  proof (cases "request = []")
    case True
    then have m: "request_message method request = method" by (simp add: request_message_def)
    show ?thesis using assms(2) method_start_split(2) [OF assms(1), of rest]
      unfolding sop_handle_def assms(4) buf m Let_def by (simp add: True resize_def)
  next
    case False
    then have m: "request_message method request = request @ [0] @ method" by (simp add: request_message_def)
    show ?thesis using assms(2) method_start_split(1) [OF assms(1), of request rest]
      unfolding sop_handle_def assms(4) buf m Let_def by (simp add: resize_def)
  qed
qed

section \<open>Receiving a request\<close>

text \<open>Datagram after datagram into one operation: all effects and the final state.\<close>

fun sop_unpack_all ::
    "crypto \<Rightarrow> 'i interval_ops \<Rightarrow> keystore \<Rightarrow> bytes list \<Rightarrow> ('e, 'i) server_op \<Rightarrow> bytes list \<Rightarrow> 'e effect list \<times> ('e, 'i) server_op" where
  "sop_unpack_all cr iv ks handlers op [] = ([], op)"
| "sop_unpack_all cr iv ks handlers op (d # ds) =
     (case sop_unpack cr iv ks handlers op d of (es, op') \<Rightarrow>
        case sop_unpack_all cr iv ks handlers op' ds of (es', op'') \<Rightarrow> (es @ es', op''))"

definition sop_waiting :: "('i \<Rightarrow> nat set) \<Rightarrow> security_key \<Rightarrow> nat \<Rightarrow> bytes \<Rightarrow> nat set \<Rightarrow> ('e, 'i) server_op \<Rightarrow> bool" where
  "sop_waiting cover key frag msg K op \<longleftrightarrow>
     assembled frag msg K (so_request op) (cover (so_intervals op)) (so_size op) \<and>
     \<not> {0 ..< so_size op} \<subseteq> cover (so_intervals op) \<and>
     (so_key op = None \<or> so_key op = Some key) \<and> so_buffers op = []"

definition sop_handled :: "('i \<Rightarrow> nat set) \<Rightarrow> security_key \<Rightarrow> ('e, 'i) server_op \<Rightarrow> bool" where
  "sop_handled cover key op \<longleftrightarrow>
     {0 ..< so_size op} \<subseteq> cover (so_intervals op) \<and> so_key op = Some key \<and> so_buffers op = []"

lemma sop_decrypt_fragment:
  fixes key fp rid
  assumes aead: "aead_laws cr" and len: "length msg \<le> 2 ^ 16" and k: "k \<in> set (offsets frag (length msg) 0)"
    and key: "so_key op = None \<or> so_key op = Some key" and ks: "keystore_find ks fp = [key]"
  defines "d \<equiv> fragment cr key fp rid 0 frag msg k" and "n \<equiv> fragment_size frag msg k"
  defines "buf \<equiv> room (k + n + 16) (so_request op)"
  shows "sop_decrypt cr ks op (header_of d) (drop header_size d) =
    (Some (key, n), op\<lparr>so_request := overwrite k (take n (drop k msg) @ drop n (take (n + 16) (drop k buf))) buf,
       so_key := Some key, so_keep_alive := (so_key op = None \<or> so_keep_alive op)\<rparr>)"
proof -
  note fs = fragment_split [of cr key fp rid 0 frag msg k, folded d_def n_def]
  let ?body = "key_encrypt cr key (wire_nonce 0 rid (of_nat k)) (take n (drop k msg))"
  have off: "unat (of_nat k :: u16) = k" using small_offset k len by blast
  have blen: "length ?body = n + 16"
    unfolding n_def by (rule decrypt_fragment(1) [OF aead k refl])
  let ?old = "take (n + 16) (drop k buf)"
  have lold: "length ?old = length ?body" unfolding blen by (auto simp: buf_def room_def)
  have dec: "key_decrypt cr key (wire_nonce 0 rid (of_nat k)) ?body ?old = (Some n, take n (drop k msg) @ drop n ?old)"
    using decrypt_fragment(2) [OF aead k lold [unfolded n_def]] unfolding n_def .
  show ?thesis
    using key unfolding sop_decrypt_def Let_def fs off blen add.assoc [symmetric] buf_def [symmetric] ks
    by (auto simp: dec)
qed

lemma sop_unpack_waiting:
  assumes aead: "aead_laws cr" and iv: "interval_laws iv cover" and len: "length msg \<le> 2 ^ 16"
    and ks: "keystore_find ks fp = [key]" and msg: "msg = request_message method request"
    and named: "0 \<notin> set method" "method \<in> set handlers"
    and inv: "sop_waiting cover key frag msg K op" and k: "k \<in> set (offsets frag (length msg) 0)"
  shows "let (es, op') = sop_unpack cr iv ks handlers op (fragment cr key fp rid 0 frag msg k) in
    es = [] \<and> sop_waiting cover key frag msg (insert k K) op' \<or>
    es = [Call method request key] \<and> sop_handled cover key op'"
proof -
  let ?n = "fragment_size frag msg k"
  let ?d = "fragment cr key fp rid 0 frag msg k"
  note fs = fragment_split [of cr key fp rid 0 frag msg k]
  have off: "unat (of_nat k :: u16) = k" using small_offset k len by blast
  have kn: "k + ?n \<le> length msg" using offsets_le [OF k] by (auto simp: fragment_size_def)
  have key: "so_key op = None \<or> so_key op = Some key" and bufs: "so_buffers op = []"
    and nc: "\<not> {0 ..< so_size op} \<subseteq> cover (so_intervals op)" using inv by (auto simp: sop_waiting_def)
  let ?buf = "room (k + ?n + 16) (so_request op)"
  let ?req = "overwrite k (take ?n (drop k msg) @ drop ?n (take (?n + 16) (drop k ?buf))) ?buf"
  let ?sz = "if k + ?n = length msg then length msg else so_size op"
  let ?iv = "iv_add iv (so_intervals op) k (k + ?n)"
  let ?op = "op\<lparr>so_request := ?req, so_key := Some key, so_keep_alive := (so_key op = None \<or> so_keep_alive op),
      so_intervals := ?iv, so_size := ?sz\<rparr>"
  have eq: "sop_unpack cr iv ks handlers op ?d =
      (if {0 ..< ?sz} \<subseteq> cover ?iv then sop_handle handlers key ?op else ([], ?op))"
    using nc kn iv unfolding sop_unpack_def Let_def sop_decrypt_fragment [OF aead len k key ks]
    unfolding fs off by (simp add: interval_laws_def)
  have asm: "assembled frag msg (insert k K) ?req (cover ?iv) ?sz"
  proof -
    have cov: "cover ?iv = cover (so_intervals op) \<union> {k ..< k + ?n}" using iv by (simp add: interval_laws_def)
    show ?thesis unfolding cov by (rule assembled_step) (use inv k in \<open>simp_all add: sop_waiting_def\<close>)
  qed
  show ?thesis
  proof (cases "{0 ..< ?sz} \<subseteq> cover ?iv")
    case True
    have "length msg < size_max" using len by (simp add: size_max_def)
    note full = assembled_complete_iff(1) [OF asm this True]
    have proj: "so_size ?op = ?sz" "so_request ?op = ?req" by simp_all
    have "so_size ?op = length msg" "take (so_size ?op) (so_request ?op) = msg"
      unfolding proj using full by blast+
    then have "sop_handle handlers key ?op = ([Call method request key], ?op\<lparr>so_request := [], so_callbacks := so_callbacks ?op + 1\<rparr>)"
      using named unfolding msg by (intro sop_handle_message) simp_all
    with True eq bufs show ?thesis by (simp add: sop_handled_def)
  next
    case False
    with eq asm bufs show ?thesis by (simp add: sop_waiting_def)
  qed
qed

lemma sop_unpack_handled:
  assumes aead: "aead_laws cr" and iv: "interval_laws iv cover" and len: "length msg \<le> 2 ^ 16"
    and ks: "keystore_find ks fp = [key]"
    and inv: "sop_handled cover key op" and k: "k \<in> set (offsets frag (length msg) 0)"
  shows "let (es, op') = sop_unpack cr iv ks handlers op (fragment cr key fp rid 0 frag msg k) in
    es = [] \<and> sop_handled cover key op'"
proof -
  have key: "so_key op = None \<or> so_key op = Some key" using inv by (simp add: sop_handled_def)
  show ?thesis using inv iv unfolding sop_unpack_def Let_def sop_decrypt_fragment [OF aead len k key ks]
    by (auto simp: sop_handled_def interval_laws_def sop_respond_def)
qed

lemma sop_unpack_all_handled:
  assumes "aead_laws cr" and "interval_laws iv cover" and "length msg \<le> 2 ^ 16" and "keystore_find ks fp = [key]"
    and "sop_handled cover key op" and "set js \<subseteq> set (offsets frag (length msg) 0)"
  shows "\<exists>op'. sop_unpack_all cr iv ks handlers op (map (fragment cr key fp rid 0 frag msg) js) = ([], op') \<and>
    sop_handled cover key op'"
  using assms(5,6)
proof (induction js arbitrary: op)
  case (Cons j js)
  then have j: "j \<in> set (offsets frag (length msg) 0)" and js: "set js \<subseteq> set (offsets frag (length msg) 0)" by auto
  obtain op1 where u: "sop_unpack cr iv ks handlers op (fragment cr key fp rid 0 frag msg j) = ([], op1)" "sop_handled cover key op1"
    using sop_unpack_handled [OF assms(1-4) Cons.prems(1) j, of handlers rid] by auto
  from Cons.IH [OF u(2) js] u(1) show ?case by auto
qed simp

lemma sop_unpack_all_waiting:
  assumes "aead_laws cr" and "interval_laws iv cover" and "length msg \<le> 2 ^ 16" and "keystore_find ks fp = [key]"
    and "msg = request_message method request" and "0 \<notin> set method" "method \<in> set handlers"
    and "sop_waiting cover key frag msg K op" and "set js \<subseteq> set (offsets frag (length msg) 0)"
  shows "\<exists>es op'. sop_unpack_all cr iv ks handlers op (map (fragment cr key fp rid 0 frag msg) js) = (es, op') \<and>
    (es = [Call method request key] \<and> sop_handled cover key op' \<or>
     es = [] \<and> sop_waiting cover key frag msg (K \<union> set js) op')"
  using assms(8,9)
proof (induction js arbitrary: op K)
  case (Cons j js)
  let ?d = "fragment cr key fp rid 0 frag msg"
  have j: "j \<in> set (offsets frag (length msg) 0)" and js: "set js \<subseteq> set (offsets frag (length msg) 0)"
    using Cons.prems(2) by auto
  obtain es op1 where u: "sop_unpack cr iv ks handlers op (?d j) = (es, op1)" by (metis surj_pair)
  from sop_unpack_waiting [OF assms(1-7) Cons.prems(1) j, of rid] u
  consider (wait) "es = []" "sop_waiting cover key frag msg (insert j K) op1"
    | (called) "es = [Call method request key]" "sop_handled cover key op1" by auto
  then show ?case
  proof cases
    case wait
    from Cons.IH [OF wait(2) js] obtain es' op' where
      "sop_unpack_all cr iv ks handlers op1 (map ?d js) = (es', op')"
      "es' = [Call method request key] \<and> sop_handled cover key op' \<or>
       es' = [] \<and> sop_waiting cover key frag msg (insert j K \<union> set js) op'" by blast
    with u wait(1) show ?thesis by (intro exI [of _ es'] exI [of _ op']) auto
  next
    case called
    from sop_unpack_all_handled [OF assms(1-4) called(2) js, of handlers rid] u called(1)
    show ?thesis by auto
  qed
qed auto

lemma sop_handle_ids: "so_fp (snd (sop_handle handlers key op)) = so_fp op \<and>
    so_id (snd (sop_handle handlers key op)) = so_id op \<and> so_endpoint (snd (sop_handle handlers key op)) = so_endpoint op"
  by (simp add: sop_handle_def Let_def)

lemma sop_decrypt_ids: "so_fp (snd (sop_decrypt cr ks op h body)) = so_fp op \<and>
    so_id (snd (sop_decrypt cr ks op h body)) = so_id op \<and> so_endpoint (snd (sop_decrypt cr ks op h body)) = so_endpoint op"
  by (simp add: sop_decrypt_def Let_def split: option.split prod.split)

lemma sop_unpack_ids: "so_fp (snd (sop_unpack cr iv ks handlers op d)) = so_fp op \<and>
    so_id (snd (sop_unpack cr iv ks handlers op d)) = so_id op \<and>
    so_endpoint (snd (sop_unpack cr iv ks handlers op d)) = so_endpoint op"
proof -
  obtain r op1 where s: "sop_decrypt cr ks op (header_of d) (drop header_size d) = (r, op1)" by (metis surj_pair)
  have "so_fp op1 = so_fp op \<and> so_id op1 = so_id op \<and> so_endpoint op1 = so_endpoint op"
    using sop_decrypt_ids [of cr ks op "header_of d" "drop header_size d"] by (simp add: s)
  then show ?thesis unfolding sop_unpack_def Let_def s
    by (cases r) (auto simp: sop_handle_ids sop_respond_def)
qed

lemma sop_unpack_all_ids: "so_fp (snd (sop_unpack_all cr iv ks handlers op ds)) = so_fp op \<and>
    so_id (snd (sop_unpack_all cr iv ks handlers op ds)) = so_id op \<and>
    so_endpoint (snd (sop_unpack_all cr iv ks handlers op ds)) = so_endpoint op"
proof (induction ds arbitrary: op)
  case (Cons d ds)
  obtain es op1 where u: "sop_unpack cr iv ks handlers op d = (es, op1)" by (metis surj_pair)
  show ?case using Cons [of op1] sop_unpack_ids [of cr iv ks handlers op d] u
    by (auto split: prod.splits)
qed simp

lemma sop_request_arrives:
  assumes laws: "aead_laws cr" "interval_laws iv cover" and len: "length msg \<le> 2 ^ 16" and frag: "0 < frag"
    and ks: "keystore_find ks fp = [key]" and msg: "msg = request_message method request"
    and named: "0 \<notin> set method" "method \<in> set handlers"
    and pack: "pack_loop cr key fp rid 0 frag msg 0 [] = Some buffers" and ds: "set ds \<subseteq> set buffers"
  obtains es op' where "sop_unpack_all cr iv ks handlers (sop_new iv endpoint fp rid) ds = (es, op')"
    and "es = [] \<or> es = [Call method request key] \<and> sop_handled cover key op'"
    and "set ds = set buffers \<longrightarrow> es \<noteq> []"
proof -
  obtain js where d: "ds = map (fragment cr key fp rid 0 frag msg) js" and js: "set js \<subseteq> set (offsets frag (length msg) 0)"
    using pack_loop_SomeE [OF frag pack ds] .
  have "sop_waiting cover key frag msg {} (sop_new iv endpoint fp rid)"
    using laws(2) assembled_init [of frag msg] by (simp add: sop_waiting_def sop_new_def interval_laws_def size_max_def)
  from sop_unpack_all_waiting [OF laws len ks msg named this js, of rid] obtain es op' where
    r: "sop_unpack_all cr iv ks handlers (sop_new iv endpoint fp rid) ds = (es, op')"
    and v: "es = [Call method request key] \<and> sop_handled cover key op' \<or> es = [] \<and> sop_waiting cover key frag msg (set js) op'"
    unfolding d by auto
  have "es \<noteq> []" if "set ds = set buffers"
  proof
    assume "es = []"
    then have w: "sop_waiting cover key frag msg (set js) op'" using v by simp
    have "set js = set (offsets frag (length msg) 0)"
      using pack_loop_offsets_all [OF frag pack len _ js] that unfolding d by blast
    moreover have "length msg < size_max" using len by (simp add: size_max_def)
    ultimately show False
      using w assembled_complete_iff(2) [OF _ _ frag] unfolding sop_waiting_def by blast
  qed
  with r v show thesis by (intro that [of es op']) auto
qed


definition sample_store :: keystore where
  "sample_store = keystore_add Map.empty (key_new plain_crypto [7])"

lemma sample_store_find: "keystore_find sample_store (key_fp (key_new plain_crypto [7])) = [key_new plain_crypto [7]]"
  by (simp add: sample_store_def keystore_add_def keystore_find_def slot_def)


end
