(* ===== verification/Rpc_Correct.thy ===== *)
theory Rpc_Correct
  imports Rpc_Server
begin

text \<open>
  Properties of the two ends of \<^verbatim>\<open>net/rpc\<close> together: a call and its answer over a network that may
  reorder and repeat datagrams, and two limits of the protocol.
\<close>

text \<open>One operation of a client and the operation of a server that answers it. The datagrams of the client's operation reach the server in any order
  and with any repetition; the server calls the named handler once with the client's request; when
  the handler answers, with at most 64 KiB, and the datagrams of the answer reach the client in any
  order and with any repetition, the callback of the client is given exactly that answer. The
  fragment sizes of the two ends are independent.\<close>

theorem rpc_round_trip:
  assumes "aead_laws cr" and "interval_laws iv cover" and "0 < client_frag" and "0 < server_frag"
    and "length (request_message method request) \<le> 2 ^ 16" and "length response \<le> 2 ^ 16"
    and "0 \<notin> set method" and "method \<in> set handlers" and "keystore_find ks (key_fp key) = [key]"
    and "op_new cr iv client_frag server_endpoint key rid (request_message method request) timeout retry = Some op"
    and "set ds = set (co_buffers op)"
  shows "\<exists>sop effects sop'.
    sop_unpack_all cr iv ks handlers (sop_new iv client_endpoint (key_fp key) rid) ds = ([Call method request key], sop) \<and>
    sop_reply cr server_frag sop response = Some (effects, sop') \<and>
    (\<forall>rs. set (map (Send_to client_endpoint) rs) = set effects \<longrightarrow>
       op_destroy (foldl (op_unpack cr iv) op rs) = Inr response)"
proof -
  have pack: "pack_loop cr key (key_fp key) rid 0 client_frag (request_message method request) 0 [] = Some (co_buffers op)"
    using assms(10) by (auto simp: op_new_def)
  obtain es sop where s: "sop_unpack_all cr iv ks handlers (sop_new iv client_endpoint (key_fp key) rid) ds = (es, sop)"
    "es = [] \<or> es = [Call method request key] \<and> sop_handled cover key sop" "set ds = set (co_buffers op) \<longrightarrow> es \<noteq> []"
    by (rule sop_request_arrives [OF assms(1,2,5,3,9) refl assms(7,8) pack, of ds client_endpoint])
      (use assms(11) in auto)
  have es: "es = [Call method request key]" and h: "sop_handled cover key sop" using s assms(11) by auto
  have ids: "so_fp sop = key_fp key" "so_id sop = rid" "so_endpoint sop = client_endpoint"
    using sop_unpack_all_ids [of cr iv ks handlers "sop_new iv client_endpoint (key_fp key) rid" ds] s(1)
    by (simp_all add: sop_new_def)
  obtain bufs where b: "pack_loop cr key (key_fp key) rid 1 server_frag response 0 [] = Some bufs"
    using pack_loop_all [OF assms(4)] by blast
  let ?sop = "sop\<lparr>so_response := response, so_buffers := bufs, so_callbacks := so_callbacks sop - 1\<rparr>"
  have reply: "sop_reply cr server_frag sop response = Some (map (Send_to client_endpoint) bufs, snd (sop_respond ?sop))"
    using h b ids by (simp add: sop_reply_def sop_handled_def sop_respond_def)
  have "op_destroy (foldl (op_unpack cr iv) op rs) = Inr response" if "set (map (Send_to client_endpoint) rs) = set (map (Send_to client_endpoint) bufs)" for rs
  proof -
    have "set rs = set bufs" using that by (simp add: inj_image_eq_iff inj_def)
    then show ?thesis
      using sop_handled_def client_response [OF assms(1,2,6,4,10) b, of rs] by blast
  qed
  with s(1) es reply show ?thesis by blast
qed

theorem rpc_round_trip_witness:
  "\<exists>sop effects sop'.
    sop_unpack_all plain_crypto list_intervals sample_store [ping_name]
      (sop_new list_intervals () (key_fp (key_new plain_crypto [7])) 5)
      (rev (co_buffers (the (op_new plain_crypto list_intervals 2 () (key_new plain_crypto [7]) 5 (request_message ping_name [1, 2]) 10 1)))) =
      ([Call ping_name [1, 2] (key_new plain_crypto [7])], sop) \<and>
    sop_reply plain_crypto 1 sop (ping_handler [1, 2]) = Some (effects, sop')"
proof -
  let ?key = "key_new plain_crypto [7]"
  obtain op where op: "op_new plain_crypto list_intervals 2 () ?key 5 (request_message ping_name [1, 2]) 10 1 = Some op"
    by (auto simp: op_new_def pack_loop_all)
  have pre: "length (request_message ping_name [1, 2]) \<le> 2 ^ 16" "length (ping_handler [1, 2]) \<le> 2 ^ 16" "(0 :: u8) \<notin> set ping_name"
    "(0 :: nat) < 2" "(0 :: nat) < 1" "set (rev (co_buffers op)) = set (co_buffers op)" "ping_name \<in> set [ping_name]"
    by (simp_all add: request_message_def ping_name_def ping_handler_def)
  show ?thesis
    using rpc_round_trip [OF plain_crypto_laws list_intervals_laws pre(4,5,1,2,3,7) sample_store_find op pre(6), of "()"]
    unfolding op option.sel by blast
qed

section \<open>Limits\<close>

lemma offsets_multiple: "0 < frag \<Longrightarrow> k + m * frag < n \<Longrightarrow> k + m * frag \<in> set (offsets frag n k)"
proof (induction m arbitrary: k)
  case (0 k)
  then show ?case by (simp add: offsets.simps [of frag n k])
next
  case (Suc m k)
  then have "k + frag + m * frag \<in> set (offsets frag n (k + frag))" by (intro Suc.IH) simp_all
  with Suc.prems show ?case by (auto simp: offsets.simps [of frag n k] add.assoc)
qed

text \<open>C19. Messages of more than 64 KiB reuse a nonce. The offset in the header and in the nonce is cut to 16
  bits: with a fragment size that divides 65536, such as the default 1024, the loop seals the piece
  at offset 65536 under the same key and nonce as the piece at offset 0, and labels it with offset 0.\<close>

theorem rpc_long_message_reuses_nonce:
  assumes "0 < frag" and "frag dvd 2 ^ 16" and "2 ^ 16 < length msg"
  shows "pack_loop cr key fp rid dir frag msg 0 [] = Some (map (fragment cr key fp rid dir frag msg) (offsets frag (length msg) 0)) \<and>
    {0, 2 ^ 16} \<subseteq> set (offsets frag (length msg) 0) \<and>
    (\<forall>k \<in> {0, 2 ^ 16}. \<exists>chunk. drop header_size (fragment cr key fp rid dir frag msg k) =
        key_encrypt cr key (wire_nonce dir rid 0) chunk \<and> wh_offset (header_of (fragment cr key fp rid dir frag msg k)) = 0)"
proof -
  obtain m where m: "2 ^ 16 = m * frag" using assms(2) by (metis dvd_def mult.commute)
  have "0 + 0 * frag \<in> set (offsets frag (length msg) 0)" using assms by (intro offsets_multiple) auto
  moreover have "0 + m * frag \<in> set (offsets frag (length msg) 0)" using assms m by (intro offsets_multiple) auto
  ultimately have offs: "{0, 2 ^ 16} \<subseteq> set (offsets frag (length msg) 0)" unfolding m by simp
  have piece: "\<exists>chunk. drop header_size (fragment cr key fp rid dir frag msg k) = key_encrypt cr key (wire_nonce dir rid 0) chunk \<and>
      wh_offset (header_of (fragment cr key fp rid dir frag msg k)) = 0" if "k \<in> {0, 2 ^ 16}" for k
  proof -
    have off: "(of_nat k :: u16) = 0" using that by (elim insertE emptyE) simp_all
    show ?thesis unfolding fragment_split off by blast
  qed
  show ?thesis
    by (intro conjI ballI) (rule pack_loop_all [OF assms(1)], rule offs, rule piece, assumption)
qed

theorem rpc_long_message_reuses_nonce_witness:
  "{0, 2 ^ 16} \<subseteq> set (offsets 1024 (length (replicate 65537 (0 :: u8))) 0)"
  using rpc_long_message_reuses_nonce [of 1024 "replicate 65537 0" plain_crypto "key_new plain_crypto [7]" 0 0 0]
  by (simp only: length_replicate) simp

definition forged :: bytes where
  "forged = header_bytes \<lparr>wh_fp = 3, wh_id = 5, wh_offset = 0, wh_unused = 0, wh_flags = 0\<rparr> @ replicate 18 1"


end
