(* ===== verification/Rpc_World.thy ===== *)
theory Rpc_World
  imports Rpc_Correct
begin

text \<open>
  A whole client and a whole server of \<^verbatim>\<open>net/rpc\<close>, each with its table of operations and its receive loop, among other
  traffic: datagrams of other operations, of other clients, too short or failed to be received. What happens to one
  operation depends only on the datagrams that carry its key, which lifts the properties of a single operation
  to the two objects. The end of the theory has the destructors.

  The result of an asynchronous receive is an error or a datagram, of which the receive buffer holds as much as fits; the loop
  goes on after every error but \<^verbatim>\<open>operation_canceled\<close>. Effects of the server are tagged with the operation that has them.
\<close>

section \<open>The receive loops\<close>

definition datagram_key :: "bytes \<Rightarrow> operation_key" where
  "datagram_key d = (wh_fp (header_of d), wh_id (header_of d))"

text \<open>The handlers of \<^verbatim>\<open>Server::receive\<close> and \<^verbatim>\<open>Client::receive\<close>; the first component tells whether \<^verbatim>\<open>receive\<close> is called again.\<close>

definition server_received ::
    "crypto \<Rightarrow> 'i interval_ops \<Rightarrow> ('e, 'i) rpc_server \<Rightarrow> errc + 'e \<times> bytes \<Rightarrow> bool \<times> (operation_key \<times> 'e effect) list \<times> ('e, 'i) rpc_server" where
  "server_received cr iv sv r =
     (case r of Inl ec \<Rightarrow> (ec \<noteq> Operation_canceled, [], sv)
      | Inr (endpoint, d) \<Rightarrow>
          (let d = take (sv_buffer_size sv) d
           in case server_dispatch cr iv sv endpoint d of (es, sv') \<Rightarrow> (True, map (Pair (datagram_key d)) es, sv')))"

definition client_received ::
    "crypto \<Rightarrow> 'i interval_ops \<Rightarrow> ('e, 'i, 'g) rpc_client \<Rightarrow> errc + bytes \<Rightarrow> bool \<times> ('e, 'i, 'g) rpc_client" where
  "client_received cr iv cl r =
     (case r of Inl ec \<Rightarrow> (ec \<noteq> Operation_canceled, cl) | Inr d \<Rightarrow> (True, client_dispatch cr iv cl (take (cl_buffer_size cl) d)))"

fun server_receive ::
    "crypto \<Rightarrow> 'i interval_ops \<Rightarrow> ('e, 'i) rpc_server \<Rightarrow> (errc + 'e \<times> bytes) list \<Rightarrow> (operation_key \<times> 'e effect) list \<times> ('e, 'i) rpc_server" where
  "server_receive cr iv sv [] = ([], sv)"
| "server_receive cr iv sv (r # rs) =
     (case server_received cr iv sv r of (again, es, sv') \<Rightarrow>
        if again then case server_receive cr iv sv' rs of (es', sv'') \<Rightarrow> (es @ es', sv'') else (es, sv'))"

fun client_receive :: "crypto \<Rightarrow> 'i interval_ops \<Rightarrow> ('e, 'i, 'g) rpc_client \<Rightarrow> (errc + bytes) list \<Rightarrow> ('e, 'i, 'g) rpc_client" where
  "client_receive cr iv cl [] = cl"
| "client_receive cr iv cl (r # rs) =
     (case client_received cr iv cl r of (again, cl') \<Rightarrow> if again then client_receive cr iv cl' rs else cl')"

text \<open>The datagrams of one operation among what was received, with their senders.\<close>

definition of_operation :: "operation_key \<Rightarrow> bytes \<Rightarrow> bool" where
  "of_operation k d \<longleftrightarrow> header_size \<le> length d \<and> datagram_key d = k"

lemma header_take: "header_size \<le> n \<Longrightarrow> header_of (take n d) = header_of d"
  by (simp add: header_of_def header_size_def drop_take min_def)

lemma of_operation_take: "header_size \<le> n \<Longrightarrow> of_operation k (take n d) = of_operation k d"
  by (auto simp: of_operation_def datagram_key_def header_take)

fun received_by :: "operation_key \<Rightarrow> (errc + 'e \<times> bytes) list \<Rightarrow> ('e \<times> bytes) list" where
  "received_by k [] = []"
| "received_by k (Inl ec # rs) = received_by k rs"
| "received_by k (Inr (e, d) # rs) = (if of_operation k d then (e, d) # received_by k rs else received_by k rs)"

definition answers_to :: "operation_key \<Rightarrow> (errc + bytes) list \<Rightarrow> bytes list" where
  "answers_to k rs = filter (of_operation k) (concat (map (case_sum (\<lambda>_. []) (\<lambda>d. [d])) rs))"

lemma answers_to_simps [simp]:
  "answers_to k [] = []" "answers_to k (Inl ec # rs) = answers_to k rs"
  "answers_to k (Inr d # rs) = (if of_operation k d then d # answers_to k rs else answers_to k rs)"
  by (simp_all add: answers_to_def)

definition effects_of :: "operation_key \<Rightarrow> (operation_key \<times> 'e effect) list \<Rightarrow> 'e effect list" where
  "effects_of k es = map snd (filter (\<lambda>e. fst e = k) es)"

lemma effects_of_append [simp]: "effects_of k (es @ es') = effects_of k es @ effects_of k es'"
  by (simp add: effects_of_def)

lemma effects_of_tagged [simp]: "effects_of k (map (Pair k') es) = (if k' = k then es else [])"
  by (induction es) (auto simp: effects_of_def)

section \<open>The client\<close>

lemma client_dispatch_config [simp]: "cl_buffer_size (client_dispatch cr iv cl d) = cl_buffer_size cl"
  by (simp add: client_dispatch_def Let_def split: option.split)

lemma client_receive_op:
  assumes "Inl Operation_canceled \<notin> set rs" and "cl_operations cl k = Some op" and "header_size \<le> cl_buffer_size cl"
    and "\<And>d. d \<in> set (answers_to k rs) \<Longrightarrow> length d \<le> cl_buffer_size cl"
  shows "cl_operations (client_receive cr iv cl rs) k = Some (foldl (op_unpack cr iv) op (answers_to k rs))"
  using assms
proof (induction rs arbitrary: cl op)
  case (Cons r rs)
  show ?case
  proof (cases r)
    case (Inl ec)
    with Cons.prems Cons.IH [OF _ Cons.prems(2,3)] show ?thesis by (auto simp: client_received_def)
  next
    case (Inr d)
    let ?d = "take (cl_buffer_size cl) d"
    let ?cl = "client_dispatch cr iv cl ?d"
    have whole: "?d = d" if "of_operation k d" using Cons.prems(4) [of d] that Inr by simp
    have "cl_operations ?cl k = Some (if of_operation k ?d then op_unpack cr iv op ?d else op)"
      using Cons.prems(2) by (auto simp: client_dispatch_def of_operation_def datagram_key_def Let_def split: option.split)
    then have "cl_operations ?cl k = Some (if of_operation k d then op_unpack cr iv op d else op)"
      using whole by (simp add: of_operation_take [OF Cons.prems(3)])
    from Cons.IH [OF _ this] Cons.prems Inr show ?thesis by (simp add: client_received_def)
  qed
qed simp

section \<open>The server\<close>

text \<open>A datagram has the header, the fragment and what sealing adds.\<close>

lemma fragment_length:
  assumes "aead_laws cr" and "j \<in> set (offsets frag (length msg) 0)"
  shows "length (fragment cr key fp rid dir frag msg j) \<le> frag + header_size + encrypt_overhead"
  using encrypt_length [OF assms(1)] by (simp add: fragment_def fragment_size_def header_size_def Let_def)

lemma sop_unpack_fragment_kept:
  assumes "aead_laws cr" and "length msg \<le> 2 ^ 16" and "j \<in> set (offsets frag (length msg) 0)" and "keystore_find ks fp = [key]"
    and "so_key op = None \<or> so_key op = Some key \<and> so_keep_alive op"
  shows "so_key (snd (sop_unpack cr iv ks handlers op (fragment cr key fp rid 0 frag msg j))) = Some key \<and>
    so_keep_alive (snd (sop_unpack cr iv ks handlers op (fragment cr key fp rid 0 frag msg j)))"
proof -
  have key: "so_key op = None \<or> so_key op = Some key" using assms(5) by blast
  show ?thesis using assms(5)
    unfolding sop_unpack_def Let_def sop_decrypt_fragment [OF assms(1-3) key assms(4)]
    by (auto simp: sop_respond_def sop_handle_def Let_def)
qed

text \<open>The operation that the server has for a key, or the one it would make for a datagram from \<open>e\<close>.\<close>

definition serves :: "'i interval_ops \<Rightarrow> 'e \<Rightarrow> operation_key \<Rightarrow> ('e, 'i) rpc_server \<Rightarrow> ('e, 'i) server_op \<Rightarrow> bool" where
  "serves iv e k sv op \<longleftrightarrow>
     (case sv_operations sv k of None \<Rightarrow> op = sop_new iv e (fst k) (snd k)
      | Some op' \<Rightarrow> op' = op \<and> so_keep_alive op \<and> so_endpoint op = e)"

lemma server_dispatch_config [simp]:
  "sv_keystore (snd (server_dispatch cr iv sv e d)) = sv_keystore sv"
  "sv_handlers (snd (server_dispatch cr iv sv e d)) = sv_handlers sv"
  "sv_fragment_size (snd (server_dispatch cr iv sv e d)) = sv_fragment_size sv"
  "sv_buffer_size (snd (server_dispatch cr iv sv e d)) = sv_buffer_size sv"
  by (simp_all add: server_dispatch_def server_put_def Let_def split: prod.split)

lemma server_dispatch_other:
  "\<not> of_operation k d \<Longrightarrow> sv_operations (snd (server_dispatch cr iv sv e d)) k = sv_operations sv k \<and>
   (datagram_key d = k \<longrightarrow> fst (server_dispatch cr iv sv e d) = [])"
  by (auto simp: server_dispatch_def server_put_def of_operation_def datagram_key_def Let_def split: prod.split)

lemma server_dispatch_own:
  assumes "serves iv e k sv op" and "of_operation k d"
    and "so_keep_alive (snd (sop_unpack cr iv (sv_keystore sv) (sv_handlers sv) op d))"
  shows "fst (server_dispatch cr iv sv e d) = fst (sop_unpack cr iv (sv_keystore sv) (sv_handlers sv) op d)"
    and "sv_operations (snd (server_dispatch cr iv sv e d)) k = Some (snd (sop_unpack cr iv (sv_keystore sv) (sv_handlers sv) op d))"
    and "so_endpoint (snd (sop_unpack cr iv (sv_keystore sv) (sv_handlers sv) op d)) = e"
proof -
  have k: "(wh_fp (header_of d), wh_id (header_of d)) = k" "\<not> length d < header_size"
    using assms(2) by (auto simp: of_operation_def datagram_key_def)
  have op: "(case sv_operations sv k of Some op \<Rightarrow> op\<lparr>so_endpoint := e\<rparr> | None \<Rightarrow> sop_new iv e (fst k) (snd k)) = op"
    using assms(1) by (auto simp: serves_def split: option.splits)
  note eq = server_dispatch_def [of cr iv sv e d, unfolded Let_def k if_not_P [OF k(2)] op]
  show "fst (server_dispatch cr iv sv e d) = fst (sop_unpack cr iv (sv_keystore sv) (sv_handlers sv) op d)"
    and "sv_operations (snd (server_dispatch cr iv sv e d)) k = Some (snd (sop_unpack cr iv (sv_keystore sv) (sv_handlers sv) op d))"
    using assms(3) by (auto simp: eq server_put_def sop_released_def split: prod.splits)
  have "so_endpoint op = e" using assms(1) by (auto simp: serves_def sop_new_def split: option.splits)
  then show "so_endpoint (snd (sop_unpack cr iv (sv_keystore sv) (sv_handlers sv) op d)) = e" by (simp add: sop_unpack_ids)
qed

text \<open>The datagram of a fragment of the request, received with enough room.\<close>

lemma server_dispatch_fragment:
  assumes "aead_laws cr" and "length msg \<le> 2 ^ 16" and "keystore_find (sv_keystore sv) (fst k) = [key]"
    and j: "j \<in> set (offsets frag (length msg) 0)" "d = fragment cr key (fst k) (snd k) 0 frag msg j"
    and op: "serves iv e k sv op" "so_key op = None \<or> so_key op = Some key \<and> so_keep_alive op"
    and room: "frag + header_size + encrypt_overhead \<le> sv_buffer_size sv" and own: "of_operation k d"
    and disp: "server_dispatch cr iv sv e (take (sv_buffer_size sv) d) = (es, sv')"
    and u: "sop_unpack cr iv (sv_keystore sv) (sv_handlers sv) op d = (es1, op1)"
  shows "take (sv_buffer_size sv) d = d" and "es = es1" and "so_key op1 = Some key" and "so_keep_alive op1" and "serves iv e k sv' op1"
proof -
  show whole: "take (sv_buffer_size sv) d = d" using fragment_length [OF assms(1) j(1), of key "fst k" "snd k" 0] room by (simp add: j(2))
  show keep: "so_key op1 = Some key" "so_keep_alive op1"
    using sop_unpack_fragment_kept [OF assms(1,2) j(1) assms(3) op(2), where iv = iv and handlers = "sv_handlers sv" and rid = "snd k"] u
    unfolding j(2) by simp_all
  have "es = es1" "sv_operations sv' k = Some op1" "so_endpoint op1 = e"
    using server_dispatch_own [OF op(1) own, of cr] keep(2) u disp whole by simp_all
  then show "es = es1" "serves iv e k sv' op1" using keep by (simp_all add: serves_def)
qed

lemma server_receive_op:
  assumes laws: "aead_laws cr" "length msg \<le> 2 ^ 16" "keystore_find (sv_keystore sv) (fst k) = [key]"
    and "Inl Operation_canceled \<notin> set rs"
    and "set (received_by k rs) \<subseteq> {e} \<times> fragment cr key (fst k) (snd k) 0 frag msg ` set (offsets frag (length msg) 0)"
    and "serves iv e k sv op" and "so_key op = None \<or> so_key op = Some key \<and> so_keep_alive op"
    and "frag + header_size + encrypt_overhead \<le> sv_buffer_size sv"
  shows "effects_of k (fst (server_receive cr iv sv rs)) =
      fst (sop_unpack_all cr iv (sv_keystore sv) (sv_handlers sv) op (map snd (received_by k rs))) \<and>
    serves iv e k (snd (server_receive cr iv sv rs))
      (snd (sop_unpack_all cr iv (sv_keystore sv) (sv_handlers sv) op (map snd (received_by k rs)))) \<and>
    sv_fragment_size (snd (server_receive cr iv sv rs)) = sv_fragment_size sv"
  using assms(3-)
proof (induction rs arbitrary: sv op)
  case (Cons r rs)
  show ?case
  proof (cases r)
    case (Inl ec)
    with Cons.prems(2) have "ec \<noteq> Operation_canceled" by auto
    with Cons.IH [of sv op] Cons.prems Inl show ?thesis by (auto simp: server_received_def split: prod.split)
  next
    case (Inr x)
    obtain e' d where x: "x = (e', d)" by fastforce
    let ?d = "take (sv_buffer_size sv) d"
    obtain es sv' where disp: "server_dispatch cr iv sv e' ?d = (es, sv')" by fastforce
    have conf: "sv_keystore sv' = sv_keystore sv" "sv_handlers sv' = sv_handlers sv" "sv_fragment_size sv' = sv_fragment_size sv"
        "sv_buffer_size sv' = sv_buffer_size sv"
      using server_dispatch_config [of cr iv sv e' ?d] disp by simp_all
    have eq: "server_receive cr iv sv (r # rs) =
        (map (Pair (datagram_key ?d)) es @ fst (server_receive cr iv sv' rs), snd (server_receive cr iv sv' rs))"
      by (simp add: Inr x disp server_received_def Let_def split: prod.split)
    have "header_size \<le> sv_buffer_size sv" using Cons.prems(6) by simp
    note cut = of_operation_take [OF this, of k d]
    show ?thesis
    proof (cases "of_operation k d")
      case False
      from server_dispatch_other [of k ?d cr iv sv e'] disp this cut
      have "serves iv e k sv' op" "datagram_key ?d = k \<Longrightarrow> es = []" using Cons.prems(4) by (auto simp: serves_def)
      with Cons.IH [of sv' op] Cons.prems False show ?thesis unfolding eq by (auto simp: Inr x conf)
    next
      case True
      then obtain j where j: "j \<in> set (offsets frag (length msg) 0)" "d = fragment cr key (fst k) (snd k) 0 frag msg j" and e': "e' = e"
        using Cons.prems(3) by (auto simp: Inr x)
      obtain es1 op1 where u: "sop_unpack cr iv (sv_keystore sv) (sv_handlers sv) op d = (es1, op1)" by fastforce
      note own = server_dispatch_fragment [OF laws(1,2) Cons.prems(1) j Cons.prems(4-6) True disp [unfolded e'] u]
      have "datagram_key d = k" using True by (simp add: of_operation_def)
      then show ?thesis
        using Cons.IH [of sv' op1] Cons.prems True u own(2-5) unfolding eq own(1) by (auto simp: Inr x conf split: prod.split)
    qed
  qed
qed (simp add: effects_of_def)

section \<open>A call among other traffic\<close>

lemma op_unpack_references:
  assumes "co_timer op = (if co_finished op then Cancelled else Armed)"
  shows "co_timer (op_unpack cr iv op d) = (if co_finished (op_unpack cr iv op d) then Cancelled else Armed)"
    and "co_sends (op_unpack cr iv op d) = co_sends op"
  using assms by (auto simp: op_unpack_def Let_def cancel_timer_def split: prod.split option.split)

lemma op_unpack_all_references:
  assumes "co_timer op = (if co_finished op then Cancelled else Armed)"
  shows "co_timer (foldl (op_unpack cr iv) op ds) = (if co_finished (foldl (op_unpack cr iv) op ds) then Cancelled else Armed) \<and>
    co_sends (foldl (op_unpack cr iv) op ds) = co_sends op"
  using assms
proof (induction ds arbitrary: op)
  case (Cons d ds)
  from Cons.IH [OF op_unpack_references(1) [OF Cons.prems]] op_unpack_references(2) [OF Cons.prems] show ?case by simp
qed simp

text \<open>The handlers of the sends of an operation whose timer handler is still queued, and then that handler.\<close>

definition sends_done :: "operation_key \<Rightarrow> nat \<Rightarrow> ('e, 'i, 'g) rpc_client \<Rightarrow> ('e, 'i, 'g) rpc_client" where
  "sends_done k n cl = ((\<lambda>cl. snd (client_sent cl k)) ^^ n) cl"

lemma sends_done_op:
  "cl_operations cl k = Some op \<Longrightarrow> co_timer op \<noteq> Idle \<Longrightarrow>
   cl_operations (sends_done k n cl) k = Some (op\<lparr>co_sends := co_sends op - n\<rparr>)"
proof (induction n)
  case (Suc n)
  then show ?case by (simp add: sends_done_def client_sent_def client_settle_def op_released_def)
qed (simp add: sends_done_def)

lemma cancelled_callback:
  assumes "cl_operations cl k = Some op" and "co_timer op = Cancelled" and "co_sends op = n"
  shows "\<exists>cl'. client_wait_handler (sends_done k n cl) k (Some Operation_canceled) = Some ([], Some (op_destroy op), cl')"
proof -
  have "cl_operations (sends_done k n cl) k = Some (op\<lparr>co_sends := 0\<rparr>)" using sends_done_op [OF assms(1), of n] assms(2,3) by simp
  then show ?thesis by (simp add: client_wait_handler_def client_settle_def op_released_def op_destroy_def Let_def split: option.split)
qed

lemma client_request_op:
  assumes "client_request cr iv uniform cl endpoint method request \<lparr>rqo_key = key, rqo_timeout = timeout, rqo_retry = retry\<rparr> = Some (ds, k, res, cl')" and "0 < timeout"
  obtains rid op op' where "k = (key_fp key, rid)" and "res = None"
    and "op_new cr iv (cl_fragment_size cl) endpoint key rid (request_message method request) timeout retry = Some op"
    and "map (snd \<circ> snd) ds = co_buffers op" and "op_send op = Some (co_buffers op, op')" and "cl_operations cl' k = Some op'"
    and "cl_buffer_size cl' = cl_buffer_size cl"
proof -
  from assms(1) obtain rid gen op cl0 where
    op: "op_new cr iv (cl_fragment_size cl) endpoint key rid (request_message method request) timeout retry = Some op"
    and send: "client_send (cl\<lparr>cl_gen := gen\<rparr>) (key_fp key, rid) op = Some (ds, cl0)"
    and k: "k = (key_fp key, rid)" and settle: "client_settle k cl0 = (res, cl')"
    by (auto simp: client_request_def Let_def split: bind_splits prod.splits)
  from send obtain bufs op' where s: "op_send op = Some (bufs, op')"
    and cl0: "cl_operations cl0 k = Some op'" "cl_buffer_size cl0 = cl_buffer_size cl" "map (snd \<circ> snd) ds = bufs"
    by (auto simp: client_send_def k Let_def comp_def split: bind_splits if_splits)
  have t: "co_timeout op = timeout" using op by (auto simp: op_new_def)
  from s have "bufs = co_buffers op \<and> co_timer op' = Armed" by (cases rule: op_send_cases) (use assms(2) t in simp_all)
  moreover from this have "res = None \<and> cl' = cl0" using settle cl0(1) by (simp add: client_settle_def op_released_def)
  ultimately show thesis using k op s cl0 by (intro that) auto
qed

lemma server_side:
  assumes "aead_laws cr" and "interval_laws iv cover" and "0 < frag" and "0 < sv_fragment_size sv"
    and "length (request_message method request) \<le> 2 ^ 16" and "0 \<notin> set method"
    and "pack_loop cr key (fst k) (snd k) 0 frag (request_message method request) 0 [] = Some buffers"
    and "sv_operations sv k = None" and "method \<in> set (sv_handlers sv)" and "keystore_find (sv_keystore sv) (fst k) = [key]"
    and "Inl Operation_canceled \<notin> set rs" and "set (received_by k rs) = {e} \<times> set buffers"
    and "frag + header_size + encrypt_overhead \<le> sv_buffer_size sv"
  obtains effects sv' bufs sv'' where "server_receive cr iv sv rs = (effects, sv')" and "effects_of k effects = [Call method request key]"
    and "pack_loop cr key (fst k) (snd k) 1 (sv_fragment_size sv) response 0 [] = Some bufs"
    and "server_reply cr sv' k response = Some (map (Send_to e) bufs, sv'')"
proof -
  let ?msg = "request_message method request"
  let ?ds = "map snd (received_by k rs)" and ?new = "sop_new iv e (fst k) (snd k)"
  have own: "set (received_by k rs) \<subseteq> {e} \<times> fragment cr key (fst k) (snd k) 0 frag ?msg ` set (offsets frag (length ?msg) 0)"
    and all: "set ?ds = set buffers"
    using assms(7,12) pack_loop_all [OF assms(3), of cr key "fst k" "snd k" 0 ?msg] by auto
  obtain es sop where u: "sop_unpack_all cr iv (sv_keystore sv) (sv_handlers sv) ?new ?ds = (es, sop)"
    and v: "es = [] \<or> es = [Call method request key] \<and> sop_handled cover key sop" "set ?ds = set buffers \<longrightarrow> es \<noteq> []"
    by (rule sop_request_arrives [OF assms(1,2,5,3,10) refl assms(6,9,7), of ?ds e]) (use all in auto)
  have es: "es = [Call method request key]" and h: "sop_handled cover key sop" using v all by auto
  obtain effects sv' where r: "server_receive cr iv sv rs = (effects, sv')" by fastforce
  have "serves iv e k sv ?new" "so_key ?new = None" using assms(8) by (simp_all add: serves_def sop_new_def)
  with server_receive_op [OF assms(1,5,10,11) own, of iv ?new] u r es assms(13)
  have eff: "effects_of k effects = [Call method request key]" and s: "serves iv e k sv' sop" "sv_fragment_size sv' = sv_fragment_size sv"
    by simp_all
  have "so_key sop = Some key" using h by (simp add: sop_handled_def)
  then have sop: "sv_operations sv' k = Some sop" "so_endpoint sop = e"
    using s(1) by (auto simp: serves_def sop_new_def split: option.splits)
  have ids: "so_fp sop = fst k" "so_id sop = snd k"
    using sop_unpack_all_ids [of cr iv "sv_keystore sv" "sv_handlers sv" ?new ?ds] u by (simp_all add: sop_new_def)
  obtain bufs where b: "pack_loop cr key (fst k) (snd k) 1 (sv_fragment_size sv) response 0 [] = Some bufs"
    using pack_loop_all [OF assms(4)] by blast
  then obtain sv'' where "server_reply cr sv' k response = Some (map (Send_to e) bufs, sv'')"
    using h ids sop s(2) by (auto simp: server_reply_def sop_reply_def sop_handled_def sop_respond_def)
  with r eff b show thesis by (rule that)
qed

lemma client_side:
  assumes "aead_laws cr" and "interval_laws iv cover" and "length response \<le> 2 ^ 16" and "0 < frag" and "0 < timeout"
    and "op_new cr iv cfrag endpoint key rid msg timeout retry = Some op" and "op_send op = Some (co_buffers op, op1)" and "cl_operations cl k = Some op1"
    and "pack_loop cr key (fst k) (snd k) 1 frag response 0 [] = Some bufs"
    and "Inl Operation_canceled \<notin> set bs" and "set (answers_to k bs) = set bufs"
    and "frag + header_size + encrypt_overhead \<le> cl_buffer_size cl"
  shows "\<exists>cl'. client_wait_handler (sends_done k (length (co_buffers op)) (client_receive cr iv cl bs)) k (Some Operation_canceled) =
    Some ([], Some (Inr response), cl')"
proof -
  let ?op' = "foldl (op_unpack cr iv) op1 (answers_to k bs)"
  have new: "\<not> co_finished op" "co_key op = key" "co_sends op = 0" "co_timeout op = timeout" "op_assembled cover frag response {} op"
    using assms(6) op_new_assembled(1) [OF assms(6,2), of frag response] by (auto simp: op_new_def)
  from assms(7) have sent: "co_timer op1 = Armed" "\<not> co_finished op1" "co_key op1 = key" "co_sends op1 = length (co_buffers op)"
    "op_assembled cover frag response {} op1"
    by (cases rule: op_send_cases; use new assms(5) in \<open>simp add: op_assembled_def\<close>)+
  have fit: "length d \<le> cl_buffer_size cl" if "d \<in> set (answers_to k bs)" for d
    using that assms(9,11,12) fragment_length [OF assms(1), of _ frag response key "fst k" "snd k" 1]
    by (auto simp: pack_loop_all [OF assms(4)]) (meson le_trans)
  have fin: "co_finished ?op'" "op_destroy ?op' = Inr response"
    using op_reassembles [OF assms(1-4) sent(5,3) assms(9), of "answers_to k bs"] assms(11) by (simp_all add: Let_def)
  moreover have "co_timer ?op' = Cancelled" "co_sends ?op' = length (co_buffers op)"
    using op_unpack_all_references [of op1 cr iv "answers_to k bs"] sent fin(1) by simp_all
  moreover have "cl_operations (client_receive cr iv cl bs) k = Some ?op'"
    by (rule client_receive_op [OF assms(10,8)]) (use assms(12) fit in simp_all)
  ultimately show ?thesis using cancelled_callback by metis
qed

lemma rpc_call_delivered:
  assumes "aead_laws cr" and "interval_laws iv cover" and "0 < cl_fragment_size cl" and "0 < sv_fragment_size sv"
    and "length (request_message method request) \<le> 2 ^ 16" and "length response \<le> 2 ^ 16" and "0 \<notin> set method" and "0 < timeout"
    and "client_request cr iv uniform cl server_endpoint method request \<lparr>rqo_key = key, rqo_timeout = timeout, rqo_retry = retry\<rparr> = Some (ds, k, res, cl')"
    and "sv_operations sv k = None" and "method \<in> set (sv_handlers sv)" and "keystore_find (sv_keystore sv) (key_fp key) = [key]"
    and "Inl Operation_canceled \<notin> set rs" and "Inl Operation_canceled \<notin> set bs"
    and "set (received_by k rs) = {client_endpoint} \<times> set (map (snd \<circ> snd) ds)"
    and "cl_fragment_size cl + header_size + encrypt_overhead \<le> sv_buffer_size sv"
    and "sv_fragment_size sv + header_size + encrypt_overhead \<le> cl_buffer_size cl"
  shows "\<exists>effects sv' replies sv''. server_receive cr iv sv rs = (effects, sv') \<and> effects_of k effects = [Call method request key] \<and>
    server_reply cr sv' k response = Some (replies, sv'') \<and>
    (set (map (Send_to client_endpoint) (answers_to k bs)) = set replies \<longrightarrow>
      (\<exists>cl''. client_wait_handler (sends_done k (length ds) (client_receive cr iv cl' bs)) k (Some Operation_canceled) =
        Some ([], Some (Inr response), cl'')))"
proof -
  obtain rid op op1 where k: "k = (key_fp key, rid)"
    and op: "op_new cr iv (cl_fragment_size cl) server_endpoint key rid (request_message method request) timeout retry = Some op"
    and ds: "map (snd \<circ> snd) ds = co_buffers op" and send: "op_send op = Some (co_buffers op, op1)" and cl': "cl_operations cl' k = Some op1"
    and buf: "cl_buffer_size cl' = cl_buffer_size cl"
    by (rule client_request_op [OF assms(9,8)])
  have pack: "pack_loop cr key (fst k) (snd k) 0 (cl_fragment_size cl) (request_message method request) 0 [] = Some (co_buffers op)"
    using op by (auto simp: op_new_def k)
  have "keystore_find (sv_keystore sv) (fst k) = [key]" using assms(12) by (simp add: k)
  with server_side [OF assms(1-5,7) pack assms(10,11) _ assms(13) assms(15) [unfolded ds] assms(16), of response]
  obtain effects sv' bufs sv'' where r: "server_receive cr iv sv rs = (effects, sv')" "effects_of k effects = [Call method request key]"
    and b: "pack_loop cr key (fst k) (snd k) 1 (sv_fragment_size sv) response 0 [] = Some bufs"
    and reply: "server_reply cr sv' k response = Some (map (Send_to client_endpoint) bufs, sv'')" by metis
  have "length ds = length (co_buffers op)" using arg_cong [OF ds, of length] by simp
  with client_side [OF assms(1,2,6,4,8) op send cl' b assms(14)] r reply buf assms(17) show ?thesis
    by (intro exI [of _ effects] exI [of _ sv'] exI [of _ "map (Send_to client_endpoint) bufs"] exI [of _ sv'']) (auto simp: inj_image_eq_iff inj_def)
qed

text \<open>C1. One remote call, end to end, between a client and a server that are busy with other calls. The client sends a
  request. The server receives, among anything else, the datagrams of the request, in any order and with any
  repetition: of this operation it calls exactly the named handler, once, with the request. When the handler answers, and
  the client receives the datagrams of the answer among anything else, in any order and with any repetition, the
  operation finishes, and the callback is called with exactly that answer once the handlers of the sends and of the
  cancelled timer have run. The receive buffers have room for the datagrams of the other side; the default options are so.\<close>

theorem rpc_call_among_others:
  assumes "aead_laws cr" and "interval_laws iv cover" and "0 < cl_fragment_size cl" and "0 < sv_fragment_size sv"
    and "length (request_message method request) \<le> 2 ^ 16" and "length response \<le> 2 ^ 16" and "0 \<notin> set method" and "0 < timeout"
    and "client_request cr iv uniform cl server_endpoint method request \<lparr>rqo_key = key, rqo_timeout = timeout, rqo_retry = retry\<rparr> = Some (ds, k, res, cl')"
    and "sv_operations sv k = None" and "method \<in> set (sv_handlers sv)" and "keystore_find (sv_keystore sv) (key_fp key) = [key]"
    and "Inl Operation_canceled \<notin> set rs" and "Inl Operation_canceled \<notin> set bs"
    and "set (received_by k rs) = {client_endpoint} \<times> set (map (snd \<circ> snd) ds)"
    and "cl_fragment_size cl + header_size + encrypt_overhead \<le> sv_buffer_size sv"
    and "sv_fragment_size sv + header_size + encrypt_overhead \<le> cl_buffer_size cl"
  shows "\<exists>effects sv' replies sv''. server_receive cr iv sv rs = (effects, sv') \<and> effects_of k effects = [Call method request key] \<and>
    server_reply cr sv' k response = Some (replies, sv'') \<and>
    (set (map (Send_to client_endpoint) (answers_to k bs)) = set replies \<longrightarrow>
      (\<exists>cl''. client_wait_handler (sends_done k (length ds) (client_receive cr iv cl' bs)) k (Some Operation_canceled) =
        Some ([], Some (Inr response), cl'')))"
  by (rule rpc_call_delivered [OF assms])

lemma received_by_own: "(\<And>d. d \<in> set ds \<Longrightarrow> of_operation k d) \<Longrightarrow> received_by k (map (\<lambda>d. Inr (e, d)) ds) = map (Pair e) ds"
  by (induction ds) auto

text \<open>The default options are such that every datagram fits, and an unanswered request ends.\<close>

lemma default_options_fit:
  fixes gen :: 'g and zero zero' :: security_key
  defines "cl \<equiv> client_new client_options_default gen :: ('e, 'i, 'g) rpc_client"
    and "sv \<equiv> server_new server_options_default zero :: ('e, 'i) rpc_server"
  shows "cl_fragment_size cl + header_size + encrypt_overhead \<le> sv_buffer_size sv"
    and "sv_fragment_size sv + header_size + encrypt_overhead \<le> cl_buffer_size cl"
    and "0 < cl_fragment_size cl" and "0 < sv_fragment_size sv"
    and "0 < rqo_retry (request_options_default zero')" and "0 < rqo_timeout (request_options_default zero')"
  by (simp_all add: cl_def sv_def client_options_default_def server_options_default_def request_options_default_def client_new_def
      server_new_def server_add_key_def server_handle_def header_size_def encrypt_overhead_def Let_def)

text \<open>A concrete call of \<^verbatim>\<open>ping\<close>: a client with one channel, a server whose zero key it uses, and what the server receives:
  an error, a datagram that is too short, and the datagrams of the request in reverse.\<close>

definition sample_client :: "(unit, nat list, u64) rpc_client" where
  "sample_client = client_new (client_options_default\<lparr>clo_fragment_size := 2\<rparr>) 5"

definition sample_server :: "(unit, nat list) rpc_server" where
  "sample_server = server_new (server_options_default\<lparr>svo_fragment_size := 1\<rparr>) (key_new plain_crypto [7])"

definition sample_traffic :: "unit datagram list \<Rightarrow> (errc + unit \<times> bytes) list" where
  "sample_traffic ds = Inl Timed_out # Inr ((), [1, 2]) # map (\<lambda>d. Inr ((), d)) (rev (map (snd \<circ> snd) ds))"

abbreviation sample_request :: "bytes \<Rightarrow> (unit datagram list \<times> operation_key \<times> (errc + bytes) option \<times> (unit, nat list, u64) rpc_client) option" where
  "sample_request request \<equiv>
     client_request plain_crypto list_intervals (\<lambda>g. (g, g + 1)) sample_client () ping_name request
       \<lparr>rqo_key = key_new plain_crypto [7], rqo_timeout = 10, rqo_retry = 1\<rparr>"

lemma sample_setting:
  "0 < cl_fragment_size sample_client" "0 < sv_fragment_size sample_server" "(0 :: u8) \<notin> set ping_name" "(0 :: int) < 10"
  "sv_operations sample_server k = None" "ping_name \<in> set (sv_handlers sample_server)"
  "keystore_find (sv_keystore sample_server) (key_fp (key_new plain_crypto [7])) = [key_new plain_crypto [7]]"
  "Inl Operation_canceled \<notin> set (sample_traffic ds)"
  "cl_fragment_size sample_client + header_size + encrypt_overhead \<le> sv_buffer_size sample_server"
  "sv_fragment_size sample_server + header_size + encrypt_overhead \<le> cl_buffer_size sample_client"
  using sample_store_find
  by (auto simp: sample_client_def client_options_default_def server_options_default_def client_new_def sample_server_def header_size_def
      encrypt_overhead_def server_new_def server_add_key_def server_handle_def
      ping_name_def list_name_def sample_store_def sample_traffic_def Let_def)

lemma sample_call:
  obtains ds k res cl' where "sample_request request = Some (ds, k, res, cl')"
    and "set (received_by k (sample_traffic ds)) = {()} \<times> set (map (snd \<circ> snd) ds)"
proof -
  let ?key = "key_new plain_crypto [7]"
  have "draw_id (\<lambda>g. (g, g + 1)) 5 (Map.empty :: operation_key \<rightharpoonup> (unit, nat list) client_op) (key_fp ?key) = Some (5, 6)"
    by (simp add: draw_id.simps)
  then have "sample_request request \<noteq> None"
    by (simp add: client_request_def sample_client_def client_options_default_def client_new_def op_new_def pack_loop_all client_send_def
        op_send_def fib_reset_def fib_next_def checked_int32_def checked_int64_def int32_ok_def int64_ok_def Let_def split: prod.split)
  then obtain r where r: "sample_request request = Some r" by blast
  obtain ds k res cl' where "r = (ds, k, res, cl')" by (rule prod_cases4)
  note req = r [unfolded this]
  obtain rid op where k: "k = (key_fp ?key, rid)"
    and op: "op_new plain_crypto list_intervals 2 () ?key rid (request_message ping_name request) 10 1 = Some op"
    and ds: "map (snd \<circ> snd) ds = co_buffers op"
    by (rule client_request_op [OF req]) (simp_all add: sample_client_def client_new_def)
  have "of_operation k d" if "d \<in> set (co_buffers op)" for d
    using op that by (auto simp: op_new_def pack_loop_all of_operation_def datagram_key_def fragment_split k)
  then have "set (received_by k (sample_traffic ds)) = {()} \<times> set (map (snd \<circ> snd) ds)"
    unfolding sample_traffic_def ds using received_by_own [of "rev (co_buffers op)" k "()"] by (auto simp: of_operation_def header_size_def)
  with req show thesis by (rule that)
qed

theorem rpc_call_among_others_witness:
  "\<exists>ds k res cl' effects sv'. sample_request [1, 2] = Some (ds, k, res, cl') \<and>
    server_receive plain_crypto list_intervals sample_server (sample_traffic ds) = (effects, sv') \<and>
    effects_of k effects = [Call ping_name [1, 2] (key_new plain_crypto [7])]"
proof -
  obtain ds k res cl' where call: "sample_request [1, 2] = Some (ds, k, res, cl')"
    and own: "set (received_by k (sample_traffic ds)) = {()} \<times> set (map (snd \<circ> snd) ds)" by (rule sample_call)
  have "length (request_message ping_name [1, 2]) \<le> 2 ^ 16" "length [9 :: u8] \<le> 2 ^ 16" "Inl Operation_canceled \<notin> set ([] :: (errc + bytes) list)"
    by (simp_all add: request_message_def ping_name_def)
  from rpc_call_among_others [OF plain_crypto_laws list_intervals_laws sample_setting(1,2) this(1,2) sample_setting(3,4) call
      sample_setting(5-8) this(3) own sample_setting(9,10)] call show ?thesis by blast
qed

section \<open>Destruction\<close>

text \<open>\<^verbatim>\<open>~Client\<close> and \<^verbatim>\<open>~Server\<close> detach the operations; each lives on in the handlers that refer to it.\<close>

definition client_destroy :: "('e, 'i, 'g) rpc_client \<Rightarrow> operation_key \<rightharpoonup> ('e, 'i) client_op" where
  "client_destroy cl k = map_option (\<lambda>op. op\<lparr>co_detached := True\<rparr>) (cl_operations cl k)"

definition server_destroy :: "('e, 'i) rpc_server \<Rightarrow> operation_key \<rightharpoonup> ('e, 'i) server_op" where
  "server_destroy sv k = map_option (\<lambda>op. op\<lparr>so_detached := True\<rparr>) (sv_operations sv k)"

text \<open>The handler of the retry timer of a detached operation: \<^verbatim>\<open>send\<close> uses the client that is gone, unless the time is up.\<close>

definition detached_wait_handler :: "('e, 'i) client_op \<Rightarrow> errc option \<Rightarrow> ('e, 'i) client_op option" where
  "detached_wait_handler op0 ec =
     (let op = op0\<lparr>co_timer := Idle\<rparr>
      in case ec of
           Some e \<Rightarrow> Some (if e \<noteq> Operation_canceled then op_abort op e else op)
         | None \<Rightarrow> if co_timeout op \<le> 0 then map_option snd (op_send op) else None)"

text \<open>The callback of a handler whose operation is detached: \<^verbatim>\<open>pack\<close> reads the options of the server that is gone.\<close>

definition detached_reply :: "crypto \<Rightarrow> nat \<Rightarrow> ('e, 'i) server_op \<Rightarrow> bytes \<Rightarrow> ('e effect list \<times> ('e, 'i) server_op) option" where
  "detached_reply cr frag op response = (if so_detached op then None else sop_reply cr frag op response)"

text \<open>Destroying a client with an unanswered request: the expiry of its retry timer is undefined exactly if there was
  to be another attempt.\<close>

lemma client_destroyed_retry_undefined:
  assumes "client_request cr iv uniform cl endpoint method request \<lparr>rqo_key = key, rqo_timeout = timeout, rqo_retry = retry\<rparr> = Some (ds, k, res, cl')" and "0 < timeout"
  shows "\<exists>op. client_destroy cl' k = Some op \<and> (detached_wait_handler op None = None \<longleftrightarrow> retry < timeout)"
proof -
  obtain rid op op1 where "op_new cr iv (cl_fragment_size cl) endpoint key rid (request_message method request) timeout retry = Some op"
    and send: "op_send op = Some (co_buffers op, op1)" and k: "cl_operations cl' k = Some op1"
    by (rule client_request_op [OF assms])
  then have "co_timeout op = timeout" "co_retry op = retry" "co_sequence op = fib_reset" by (auto simp: op_new_def)
  with send assms(2) have "co_timeout op1 = timeout - min retry timeout" by (cases rule: op_send_cases) (simp_all add: fib_reset_def)
  with k show ?thesis by (simp add: client_destroy_def detached_wait_handler_def op_send_def Let_def)
qed

end
