(* ===== verification/Rpc_Typed.thy ===== *)
theory Rpc_Typed
  imports Rpc_World
begin

text \<open>
  \<^verbatim>\<open>util/flatbuffers.h\<close>, \<^verbatim>\<open>net/rpc/flatbuffers-request.h\<close> and \<^verbatim>\<open>net/rpc/flatbuffers-handler.h\<close>: remote calls with objects
  in place of bytes. The FlatBuffers library and the code it generates for a table are a parameter, the record
  \<open>flatbuffers\<close>; \<open>flatbuffers_laws\<close> states what is relied on: a buffer that was built verifies and unpacks to the object it
  was built from.
\<close>

record 'o flatbuffers =
  fb_build :: "'o \<Rightarrow> bytes"
  fb_verify :: "bytes \<Rightarrow> bool"
  fb_unpack :: "bytes \<Rightarrow> 'o"

definition flatbuffers_laws :: "'o flatbuffers \<Rightarrow> bool" where
  "flatbuffers_laws fb \<longleftrightarrow> (\<forall>x. fb_verify fb (fb_build fb x) \<and> fb_unpack fb (fb_build fb x) = x)"

definition fb_pack :: "'o flatbuffers \<Rightarrow> 'o \<Rightarrow> bytes" where
  "fb_pack fb x = fb_build fb x"

definition verify_and_unpack :: "'o flatbuffers \<Rightarrow> bytes \<Rightarrow> 'o option" where
  "verify_and_unpack fb buffer = (if fb_verify fb buffer then Some (fb_unpack fb buffer) else None)"

lemma verify_and_unpack_pack [simp]: "flatbuffers_laws fb \<Longrightarrow> verify_and_unpack fb (fb_pack fb x) = Some x"
  by (simp add: flatbuffers_laws_def verify_and_unpack_def fb_pack_def)

text \<open>\<^verbatim>\<open>FlatbuffersHandler::handle\<close>: the object that the derived handler is called with, if any, and the callback it is
  given. A request that does not verify is dropped.\<close>

definition typed_handle :: "'q flatbuffers \<Rightarrow> bytes \<Rightarrow> 'q option" where
  "typed_handle fbq request = verify_and_unpack fbq request"

definition typed_reply ::
    "'r flatbuffers \<Rightarrow> crypto \<Rightarrow> ('e, 'i) rpc_server \<Rightarrow> operation_key \<Rightarrow> 'r \<Rightarrow> ('e effect list \<times> ('e, 'i) rpc_server) option" where
  "typed_reply fbr cr sv k response = server_reply cr sv k (fb_pack fbr response)"

text \<open>The function template \<^verbatim>\<open>request\<close>, and the callback that it gives to \<^verbatim>\<open>Client::request\<close>.\<close>

definition typed_request ::
    "'q flatbuffers \<Rightarrow> crypto \<Rightarrow> 'i interval_ops \<Rightarrow> ('g \<Rightarrow> u64 \<times> 'g) \<Rightarrow> ('e, 'i, 'g) rpc_client \<Rightarrow> 'e \<Rightarrow> bytes \<Rightarrow> 'q \<Rightarrow>
     request_options \<Rightarrow>
     ('e datagram list \<times> operation_key \<times> (errc + bytes) option \<times> ('e, 'i, 'g) rpc_client) option" where
  "typed_request fbq cr iv uniform cl endpoint method request options =
     client_request cr iv uniform cl endpoint method (fb_pack fbq request) options"

definition typed_callback :: "'r flatbuffers \<Rightarrow> errc + bytes \<Rightarrow> errc + 'r" where
  "typed_callback fbr result =
     (case result of
        Inl ec \<Rightarrow> Inl ec
      | Inr response \<Rightarrow> (case verify_and_unpack fbr response of None \<Rightarrow> Inl Invalid_argument | Some x \<Rightarrow> Inr x))"

text \<open>The handler of \<^verbatim>\<open>list\<close>, which is a typed one.\<close>

definition list_reply ::
    "bytes list flatbuffers \<Rightarrow> crypto \<Rightarrow> ('e, 'i) rpc_server \<Rightarrow> operation_key \<Rightarrow> ('e effect list \<times> ('e, 'i) rpc_server) option" where
  "list_reply fbr cr sv k = typed_reply fbr cr sv k (list_handler sv)"

text \<open>C17. A typed remote call among other traffic: the derived handler is called once with the object that the client
  passed, and when it answers with an object, the callback of the client is called with that object. A response that is
  no valid buffer is reported as \<^verbatim>\<open>invalid_argument\<close>, and an error of the call is passed on.\<close>

theorem typed_rpc_round_trip:
  assumes "flatbuffers_laws fbq" and "flatbuffers_laws fbr"
    and "aead_laws cr" and "interval_laws iv cover" and "0 < cl_fragment_size cl" and "0 < sv_fragment_size sv"
    and "length (request_message method (fb_pack fbq request)) \<le> 2 ^ 16" and "length (fb_pack fbr response) \<le> 2 ^ 16"
    and "0 \<notin> set method" and "0 < timeout"
    and "typed_request fbq cr iv uniform cl server_endpoint method request \<lparr>rqo_key = key, rqo_timeout = timeout, rqo_retry = retry\<rparr> = Some (ds, k, res, cl')"
    and "sv_operations sv k = None" and "method \<in> set (sv_handlers sv)" and "keystore_find (sv_keystore sv) (key_fp key) = [key]"
    and "Inl Operation_canceled \<notin> set rs" and "Inl Operation_canceled \<notin> set bs"
    and "set (received_by k rs) = {client_endpoint} \<times> set (map (snd \<circ> snd) ds)"
    and "cl_fragment_size cl + header_size + encrypt_overhead \<le> sv_buffer_size sv"
    and "sv_fragment_size sv + header_size + encrypt_overhead \<le> cl_buffer_size cl"
  shows "\<exists>effects sv' raw replies sv''. server_receive cr iv sv rs = (effects, sv') \<and> effects_of k effects = [Call method raw key] \<and>
      typed_handle fbq raw = Some request \<and> typed_reply fbr cr sv' k response = Some (replies, sv'') \<and>
      (set (map (Send_to client_endpoint) (answers_to k bs)) = set replies \<longrightarrow>
        (\<exists>outcome cl''. client_wait_handler (sends_done k (length ds) (client_receive cr iv cl' bs)) k (Some Operation_canceled) =
          Some ([], Some outcome, cl'') \<and> typed_callback fbr outcome = Inr response)) \<and>
      (\<forall>junk. \<not> fb_verify fbr junk \<longrightarrow> typed_callback fbr (Inr junk) = Inl Invalid_argument) \<and> (\<forall>ec. typed_callback fbr (Inl ec) = Inl ec)"
proof -
  have err: "(\<forall>junk. \<not> fb_verify fbr junk \<longrightarrow> typed_callback fbr (Inr junk) = Inl Invalid_argument) \<and> (\<forall>ec. typed_callback fbr (Inl ec) = Inl ec)"
    by (simp add: typed_callback_def verify_and_unpack_def)
  obtain effects sv' replies sv'' where r: "server_receive cr iv sv rs = (effects, sv')"
      "effects_of k effects = [Call method (fb_pack fbq request) key]"
    and reply: "server_reply cr sv' k (fb_pack fbr response) = Some (replies, sv'')"
    and answer: "set (map (Send_to client_endpoint) (answers_to k bs)) = set replies \<longrightarrow>
      (\<exists>cl''. client_wait_handler (sends_done k (length ds) (client_receive cr iv cl' bs)) k (Some Operation_canceled) =
        Some ([], Some (Inr (fb_pack fbr response)), cl''))"
    using rpc_call_delivered [OF assms(3-10) assms(11) [unfolded typed_request_def] assms(12-19)] by metis
  have "typed_handle fbq (fb_pack fbq request) = Some request" using assms(1) by (simp add: typed_handle_def)
  moreover have "typed_callback fbr (Inr (fb_pack fbr response)) = Inr response" using assms(2) by (simp add: typed_callback_def)
  ultimately show ?thesis using r reply answer err unfolding typed_reply_def by blast
qed

text \<open>A table of bytes as a marker and the bytes.\<close>

definition marked_bytes :: "bytes flatbuffers" where
  "marked_bytes = \<lparr>fb_build = (\<lambda>x. 1 # x), fb_verify = (\<lambda>b. b \<noteq> [] \<and> hd b = 1), fb_unpack = tl\<rparr>"

lemma marked_bytes_laws: "flatbuffers_laws marked_bytes"
  by (simp add: flatbuffers_laws_def marked_bytes_def)

theorem typed_rpc_round_trip_witness:
  "\<exists>ds k res cl' effects sv' raw replies sv''.
    typed_request marked_bytes plain_crypto list_intervals (\<lambda>g. (g, g + 1)) sample_client () ping_name [3]
      \<lparr>rqo_key = key_new plain_crypto [7], rqo_timeout = 10, rqo_retry = 1\<rparr> =
      Some (ds, k, res, cl') \<and>
    server_receive plain_crypto list_intervals sample_server (sample_traffic ds) = (effects, sv') \<and>
    effects_of k effects = [Call ping_name raw (key_new plain_crypto [7])] \<and> typed_handle marked_bytes raw = Some [3] \<and>
    typed_reply marked_bytes plain_crypto sv' k [4] = Some (replies, sv'')"
proof -
  obtain ds k res cl' where call: "sample_request (fb_pack marked_bytes [3]) = Some (ds, k, res, cl')"
    and own: "set (received_by k (sample_traffic ds)) = {()} \<times> set (map (snd \<circ> snd) ds)" by (rule sample_call)
  note typed = call [folded typed_request_def]
  have "length (request_message ping_name (fb_pack marked_bytes [3])) \<le> 2 ^ 16" "length (fb_pack marked_bytes [4]) \<le> 2 ^ 16"
    "Inl Operation_canceled \<notin> set ([] :: (errc + bytes) list)"
    by (simp_all add: request_message_def ping_name_def fb_pack_def marked_bytes_def)
  from typed_rpc_round_trip [OF marked_bytes_laws marked_bytes_laws plain_crypto_laws list_intervals_laws sample_setting(1,2) this(1,2)
      sample_setting(3,4) typed sample_setting(5-8) this(3) own sample_setting(9,10)] typed show ?thesis by blast
qed

end
