(* ===== verification/Timer_List.thy ===== *)
theory Timer_List
  imports Trunk_Prelude
begin

text \<open>
  \<^verbatim>\<open>net/timer-list.h\<close>: many timers of one duration behind a single waitable timer. A handle (a list
  iterator in the code) is a number; the clock and the waitable timer are part of the state: a wait
  is active until it expires or is cancelled, and its completion handler is then queued, with the
  expiry it captured and whether it was successful. A handler that is queued as successful can no
  longer be cancelled.

  The loop of the wait handler calls user code, which may create, update and destroy timers. It is
  therefore modelled in steps: \<open>Running e\<close> is the loop between two callbacks, \<open>Calling e h\<close> is inside the
  callback of \<open>h\<close>, whose entry is still at the front of the list. \<open>fired\<close> records the callbacks
  with the clock and the expiry at the call.
\<close>

datatype phase = Waiting | Running int | Calling int nat

record timer_list =
  tl_duration :: int
  tl_now :: int
  tl_entries :: "(nat \<times> int) list"
  tl_next :: nat
  tl_active :: "int option"
  tl_queue :: "(int \<times> bool) list"
  tl_phase :: phase
  tl_fired :: "(nat \<times> int \<times> int) list"

section \<open>Operations\<close>

definition timer_list_new :: "int \<Rightarrow> int \<Rightarrow> timer_list" where
  "timer_list_new now duration =
     \<lparr>tl_duration = duration, tl_now = now, tl_entries = [], tl_next = 0, tl_active = None, tl_queue = [],
      tl_phase = Waiting, tl_fired = []\<rparr>"

text \<open>\<^verbatim>\<open>timer_.cancel()\<close>, which \<^verbatim>\<open>expires_at\<close> does too.\<close>

definition timer_cancel :: "timer_list \<Rightarrow> timer_list" where
  "timer_cancel s =
     (case tl_active s of
        None \<Rightarrow> s
      | Some e \<Rightarrow> s\<lparr>tl_active := None, tl_queue := tl_queue s @ [(e, False)]\<rparr>)"

definition tl_wait :: "timer_list \<Rightarrow> timer_list" where
  "tl_wait s = (timer_cancel s)\<lparr>tl_active := Some (snd (hd (tl_entries s)))\<rparr>"

definition tl_schedule :: "timer_list \<Rightarrow> nat \<times> timer_list" where
  "tl_schedule s =
     (let s' = s\<lparr>tl_entries := tl_entries s @ [(tl_next s, tl_now s + tl_duration s)], tl_next := tl_next s + 1\<rparr>
      in (tl_next s, if length (tl_entries s') = 1 then tl_wait s' else s'))"

definition without :: "nat \<Rightarrow> (nat \<times> int) list \<Rightarrow> (nat \<times> int) list" where
  "without h es = filter (\<lambda>e. fst e \<noteq> h) es"

definition tl_update :: "timer_list \<Rightarrow> nat \<Rightarrow> timer_list" where
  "tl_update s h = s\<lparr>tl_entries := without h (tl_entries s) @ [(h, tl_now s + tl_duration s)]\<rparr>"

definition tl_cancel :: "timer_list \<Rightarrow> nat \<Rightarrow> timer_list" where
  "tl_cancel s h =
     (let s' = s\<lparr>tl_entries := without h (tl_entries s)\<rparr>
      in if tl_entries s' = [] then timer_cancel s' else s')"

text \<open>A \<^verbatim>\<open>Timer\<close> holds its handle, \<open>None\<close> for \<^verbatim>\<open>end()\<close>, which its callback stores before it calls the user's.\<close>

definition timer_live :: "timer_list \<Rightarrow> nat \<Rightarrow> bool" where
  "timer_live s h \<longleftrightarrow> h < tl_next s \<and> h \<in> fst ` set (tl_entries s) \<and> h \<notin> fst ` set (tl_fired s)"

definition timer_update :: "timer_list \<Rightarrow> nat option \<Rightarrow> timer_list" where
  "timer_update s handle = (case handle of None \<Rightarrow> s | Some h \<Rightarrow> tl_update s h)"

definition timer_destroy :: "timer_list \<Rightarrow> nat option \<Rightarrow> timer_list" where
  "timer_destroy s handle = (case handle of None \<Rightarrow> s | Some h \<Rightarrow> tl_cancel s h)"

text \<open>The handle that a \<^verbatim>\<open>Timer\<close> holds.\<close>

definition handle_of :: "timer_list \<Rightarrow> nat \<Rightarrow> nat option" where
  "handle_of s h = (if timer_live s h then Some h else None)"

text \<open>The wait handler: its start, the call of the front entry's callback, the return from it with
  \<^verbatim>\<open>pop_front\<close>, and the end of the loop.\<close>

definition handler_start :: "timer_list \<Rightarrow> int \<times> bool \<Rightarrow> (int \<times> bool) list \<Rightarrow> timer_list" where
  "handler_start s r rest =
     (if snd r then s\<lparr>tl_queue := rest, tl_phase := Running (fst r)\<rparr> else s\<lparr>tl_queue := rest\<rparr>)"

definition handler_due :: "timer_list \<Rightarrow> int \<Rightarrow> bool" where
  "handler_due s e \<longleftrightarrow> tl_entries s \<noteq> [] \<and> snd (hd (tl_entries s)) \<le> e"

definition handler_call :: "timer_list \<Rightarrow> int \<Rightarrow> timer_list" where
  "handler_call s e =
     (let (h, expiry) = hd (tl_entries s)
      in s\<lparr>tl_phase := Calling e h, tl_fired := tl_fired s @ [(h, tl_now s, expiry)]\<rparr>)"

definition handler_return :: "timer_list \<Rightarrow> int \<Rightarrow> timer_list" where
  "handler_return s e = s\<lparr>tl_entries := tl (tl_entries s), tl_phase := Running e\<rparr>"

definition handler_end :: "timer_list \<Rightarrow> timer_list" where
  "handler_end s =
     (let s' = s\<lparr>tl_phase := Waiting\<rparr> in if tl_entries s' \<noteq> [] then tl_wait s' else s')"

section \<open>Steps\<close>

text \<open>User code runs outside the handler and inside callbacks. The clock does not run backwards.\<close>

definition user_may_run :: "timer_list \<Rightarrow> bool" where
  "user_may_run s \<longleftrightarrow> (case tl_phase s of Waiting \<Rightarrow> True | Running _ \<Rightarrow> False | Calling _ _ \<Rightarrow> True)"

inductive tl_step :: "timer_list \<Rightarrow> timer_list \<Rightarrow> bool" where
  tick: "tl_now s \<le> now \<Longrightarrow> tl_step s (s\<lparr>tl_now := now\<rparr>)"
| create: "user_may_run s \<Longrightarrow> tl_step s (snd (tl_schedule s))"
| upd: "user_may_run s \<Longrightarrow> tl_step s (timer_update s (handle_of s h))"
| destroy: "user_may_run s \<Longrightarrow> tl_step s (timer_destroy s (handle_of s h))"
| expire: "tl_active s = Some e \<Longrightarrow> e \<le> tl_now s \<Longrightarrow>
    tl_step s (s\<lparr>tl_active := None, tl_queue := tl_queue s @ [(e, True)]\<rparr>)"
| start: "tl_phase s = Waiting \<Longrightarrow> tl_queue s = r # rest \<Longrightarrow> tl_step s (handler_start s r rest)"
| call: "tl_phase s = Running e \<Longrightarrow> handler_due s e \<Longrightarrow> tl_step s (handler_call s e)"
| return: "tl_phase s = Calling e h \<Longrightarrow> tl_step s (handler_return s e)"
| stop: "tl_phase s = Running e \<Longrightarrow> \<not> handler_due s e \<Longrightarrow> tl_step s (handler_end s)"

inductive_cases tl_stepE: "tl_step s s'"

definition reachable :: "int \<Rightarrow> int \<Rightarrow> timer_list \<Rightarrow> bool" where
  "reachable now duration s \<longleftrightarrow> tl_step\<^sup>*\<^sup>* (timer_list_new now duration) s"

lemma reachable_step: "reachable now duration s \<Longrightarrow> tl_step s s' \<Longrightarrow> reachable now duration s'"
  unfolding reachable_def by (rule rtranclp.rtrancl_into_rtrancl)

section \<open>Invariant\<close>

text \<open>A wake-up is due no later than \<open>t\<close>.\<close>

definition wakes_by :: "timer_list \<Rightarrow> int \<Rightarrow> bool" where
  "wakes_by s t \<longleftrightarrow> (\<exists>e \<le> t. tl_active s = Some e \<or> (e, True) \<in> set (tl_queue s))"

text \<open>The entries still to fire: all but the one whose callback is running.\<close>

definition to_fire :: "timer_list \<Rightarrow> (nat \<times> int) list" where
  "to_fire s = (case tl_phase s of Calling _ _ \<Rightarrow> tl (tl_entries s) | _ \<Rightarrow> tl_entries s)"

definition calling_ok :: "timer_list \<Rightarrow> bool" where
  "calling_ok s \<longleftrightarrow> (case tl_phase s of
     Calling e h \<Rightarrow> e \<le> tl_now s \<and> tl_entries s \<noteq> [] \<and> fst (hd (tl_entries s)) = h \<and> h \<in> fst ` set (tl_fired s)
   | Running e \<Rightarrow> e \<le> tl_now s | Waiting \<Rightarrow> True)"

definition order_ok :: "timer_list \<Rightarrow> bool" where
  "order_ok s \<longleftrightarrow> 0 \<le> tl_duration s \<and> sorted (map snd (to_fire s)) \<and>
     (\<forall>e \<in> set (to_fire s). snd e \<le> tl_now s + tl_duration s)"

definition handles_ok :: "timer_list \<Rightarrow> bool" where
  "handles_ok s \<longleftrightarrow> distinct (map fst (to_fire s)) \<and> distinct (map fst (tl_fired s)) \<and>
     (\<forall>h \<in> fst ` set (to_fire s) \<union> fst ` set (tl_fired s). h < tl_next s) \<and>
     fst ` set (to_fire s) \<inter> fst ` set (tl_fired s) = {}"

definition times_ok :: "timer_list \<Rightarrow> bool" where
  "times_ok s \<longleftrightarrow> (\<forall>(h, now, expiry) \<in> set (tl_fired s). expiry \<le> now) \<and>
     (\<forall>e. (e, True) \<in> set (tl_queue s) \<longrightarrow> e \<le> tl_now s)"

definition wake_ok :: "timer_list \<Rightarrow> bool" where
  "wake_ok s \<longleftrightarrow> (tl_phase s = Waiting \<and> tl_entries s \<noteq> [] \<longrightarrow> wakes_by s (snd (hd (tl_entries s))))"

definition tl_inv :: "timer_list \<Rightarrow> bool" where
  "tl_inv s \<longleftrightarrow> calling_ok s \<and> order_ok s \<and> handles_ok s \<and> times_ok s \<and> wake_ok s"

lemmas tl_inv_defs = tl_inv_def calling_ok_def order_ok_def handles_ok_def times_ok_def wake_ok_def wakes_by_def

lemma timer_cancel_simps [simp]:
  "tl_entries (timer_cancel s) = tl_entries s" "tl_next (timer_cancel s) = tl_next s"
  "tl_now (timer_cancel s) = tl_now s" "tl_duration (timer_cancel s) = tl_duration s"
  "tl_phase (timer_cancel s) = tl_phase s" "tl_fired (timer_cancel s) = tl_fired s"
  "to_fire (timer_cancel s) = to_fire s" "tl_active (timer_cancel s) = None"
  "(e, True) \<in> set (tl_queue (timer_cancel s)) \<longleftrightarrow> (e, True) \<in> set (tl_queue s)"
  by (auto simp: timer_cancel_def to_fire_def split: option.split phase.split)

lemma tl_wait_simps [simp]:
  "tl_entries (tl_wait s) = tl_entries s" "tl_next (tl_wait s) = tl_next s"
  "tl_now (tl_wait s) = tl_now s" "tl_duration (tl_wait s) = tl_duration s"
  "tl_phase (tl_wait s) = tl_phase s" "tl_fired (tl_wait s) = tl_fired s"
  "to_fire (tl_wait s) = to_fire s" "tl_active (tl_wait s) = Some (snd (hd (tl_entries s)))"
  "(e, True) \<in> set (tl_queue (tl_wait s)) \<longleftrightarrow> (e, True) \<in> set (tl_queue s)"
  by (simp_all add: tl_wait_def to_fire_def split: phase.split)

lemma set_without [simp]: "set (without h es) = {e \<in> set es. fst e \<noteq> h}"
  by (auto simp: without_def)

lemma sorted_without: "sorted (map snd es) \<Longrightarrow> sorted (map snd (without h es))"
  by (induction es) (auto simp: without_def)

lemma distinct_without: "distinct (map fst es) \<Longrightarrow> distinct (map fst (without h es))"
  by (induction es) (auto simp: without_def)

text \<open>In every phase in which user code runs, an operation on a live handle works on the entries still
  to fire.\<close>

lemma user_phases:
  assumes "tl_inv s" and "user_may_run s"
  obtains (waiting) "tl_phase s = Waiting" "to_fire s = tl_entries s"
  | (calling) e h x r where "tl_phase s = Calling e h" "tl_entries s = x # r" "to_fire s = r" "fst x = h" "h \<in> fst ` set (tl_fired s)"
proof (cases "tl_phase s")
  case Waiting
  then show thesis by (intro waiting) (simp_all add: to_fire_def)
next
  case (Running e)
  then show thesis using assms(2) by (simp add: user_may_run_def)
next
  case (Calling e h)
  then show thesis using assms(1) calling [of e h "hd (tl_entries s)" "tl (tl_entries s)"]
    by (simp add: tl_inv_def calling_ok_def to_fire_def)
qed

text \<open>What a user operation has to provide.\<close>

lemma user_op_inv:
  assumes inv: "tl_inv s"
    and same: "tl_duration s' = tl_duration s" "tl_now s' = tl_now s" "tl_fired s' = tl_fired s"
      "\<And>e. (e, True) \<in> set (tl_queue s') \<longleftrightarrow> (e, True) \<in> set (tl_queue s)" "tl_next s \<le> tl_next s'"
    and es: "to_fire s' = es" "sorted (map snd es)" "\<forall>e \<in> set es. snd e \<le> tl_now s + tl_duration s"
      "distinct (map fst es)" "\<forall>h \<in> fst ` set es. h < tl_next s' \<and> h \<notin> fst ` set (tl_fired s)"
    and "calling_ok s'" and "wake_ok s'"
  shows "tl_inv s'"
proof -
  have "order_ok s'" using inv es same by (simp add: tl_inv_def order_ok_def)
  moreover have "handles_ok s'" using inv es same
    unfolding tl_inv_def handles_ok_def by (auto dest: order_less_le_trans)
  moreover have "times_ok s'" using inv same by (simp add: tl_inv_def times_ok_def)
  ultimately show ?thesis using assms by (simp add: tl_inv_def)
qed

lemma to_fire_facts:
  assumes "tl_inv s"
  shows "sorted (map snd (to_fire s))" "\<forall>e \<in> set (to_fire s). snd e \<le> tl_now s + tl_duration s"
    "distinct (map fst (to_fire s))" "\<forall>h \<in> fst ` set (to_fire s). h < tl_next s \<and> h \<notin> fst ` set (tl_fired s)"
  using assms unfolding tl_inv_def order_ok_def handles_ok_def by blast+

lemma create_inv:
  assumes inv: "tl_inv s" and user: "user_may_run s"
  shows "tl_inv (snd (tl_schedule s))"
proof -
  let ?e = "(tl_next s, tl_now s + tl_duration s)"
  let ?s = "s\<lparr>tl_entries := tl_entries s @ [?e], tl_next := tl_next s + 1\<rparr>"
  have eq: "snd (tl_schedule s) = (if tl_entries s = [] then tl_wait ?s else ?s)" by (simp add: tl_schedule_def Let_def)
  note f = to_fire_facts [OF inv]
  have fr: "\<forall>h \<in> fst ` set (tl_fired s). h < tl_next s" using inv unfolding tl_inv_def handles_ok_def by blast
  show ?thesis
  proof (rule user_op_inv [OF inv, where es = "to_fire s @ [?e]"])
    show "to_fire (snd (tl_schedule s)) = to_fire s @ [?e]"
      using inv user by (cases rule: user_phases) (auto simp: eq to_fire_def)
    show "sorted (map snd (to_fire s @ [?e]))" using f(1,2) by (auto simp: sorted_append)
    show "distinct (map fst (to_fire s @ [?e]))" using f(3,4) by auto
    show "\<forall>h \<in> fst ` set (to_fire s @ [?e]). h < tl_next (snd (tl_schedule s)) \<and> h \<notin> fst ` set (tl_fired s)"
      using f(4) fr by (auto simp: eq)
    show "calling_ok (snd (tl_schedule s))"
      using inv by (auto simp: eq tl_inv_def calling_ok_def split: phase.splits)
    show "wake_ok (snd (tl_schedule s))"
      using inv by (auto simp: eq wake_ok_def tl_inv_def wakes_by_def)
  qed (use f(2) in \<open>auto simp: eq\<close>)
qed

text \<open>Removing a live handle, with an entry \<open>es\<close> appended or not.\<close>

lemma without_to_fire:
  assumes inv: "tl_inv s" and user: "user_may_run s" and live: "timer_live s h"
  shows "to_fire (s\<lparr>tl_entries := without h (tl_entries s) @ es\<rparr>) = without h (to_fire s) @ es"
    and "calling_ok (s\<lparr>tl_entries := without h (tl_entries s) @ es\<rparr>)"
proof -
  have nf: "h \<notin> fst ` set (tl_fired s)" using live by (simp add: timer_live_def)
  have "to_fire (s\<lparr>tl_entries := without h (tl_entries s) @ es\<rparr>) = without h (to_fire s) @ es \<and>
      calling_ok (s\<lparr>tl_entries := without h (tl_entries s) @ es\<rparr>)"
    using inv user
  proof (cases rule: user_phases)
    case waiting
    then show ?thesis by (simp add: to_fire_def calling_ok_def)
  next
    case (calling e g x r)
    then have "fst x \<noteq> h" using nf by auto
    moreover have "e \<le> tl_now s" using inv calling(1) by (simp add: tl_inv_def calling_ok_def)
    ultimately show ?thesis using calling by (simp add: to_fire_def calling_ok_def without_def)
  qed
  then show "to_fire (s\<lparr>tl_entries := without h (tl_entries s) @ es\<rparr>) = without h (to_fire s) @ es"
    "calling_ok (s\<lparr>tl_entries := without h (tl_entries s) @ es\<rparr>)" by blast+
qed

text \<open>The front of the list never moves to an earlier time under an update or a removal.\<close>

lemma front_later:
  assumes inv: "tl_inv s" and w: "tl_phase s = Waiting" and ne: "tl_entries s \<noteq> []"
    and e: "e \<in> set (tl_entries s) \<or> snd e = tl_now s + tl_duration s" "wakes_by s' = wakes_by s"
  shows "wakes_by s' (snd e)"
proof -
  obtain a es where es: "tl_entries s = a # es" using ne by (cases "tl_entries s") auto
  have ord: "sorted (map snd (a # es))" "\<forall>e \<in> set (a # es). snd e \<le> tl_now s + tl_duration s"
    using inv w by (simp_all add: tl_inv_def order_ok_def es to_fire_def)
  then have "snd a \<le> snd e" using e(1) by (auto simp: es)
  moreover have "wakes_by s (snd a)" using inv w by (simp add: tl_inv_def wake_ok_def es)
  ultimately show ?thesis unfolding e(2) wakes_by_def by (meson order_trans)
qed

lemma update_inv:
  assumes inv: "tl_inv s" and user: "user_may_run s" and live: "timer_live s h"
  shows "tl_inv (tl_update s h)"
proof -
  let ?e = "(h, tl_now s + tl_duration s)"
  note f = to_fire_facts [OF inv] and w = without_to_fire [OF inv user live, of "[?e]"]
  have upd: "tl_update s h = s\<lparr>tl_entries := without h (tl_entries s) @ [?e]\<rparr>" by (simp add: tl_update_def)
  have live': "h < tl_next s" "h \<notin> fst ` set (tl_fired s)" "tl_entries s \<noteq> []" using live by (auto simp: timer_live_def)
  show ?thesis
    unfolding upd
  proof (rule user_op_inv [OF inv, OF _ _ _ _ _ w(1)])
    show "sorted (map snd (without h (to_fire s) @ [?e]))"
      using f(2) sorted_without [OF f(1)] by (auto simp: sorted_append)
    show "distinct (map fst (without h (to_fire s) @ [?e]))" using distinct_without [OF f(3)] by auto
    show "wake_ok (s\<lparr>tl_entries := without h (tl_entries s) @ [?e]\<rparr>)"
      unfolding wake_ok_def
    proof (intro impI, elim conjE)
      assume "tl_phase (s\<lparr>tl_entries := without h (tl_entries s) @ [?e]\<rparr>) = Waiting"
      then have "tl_phase s = Waiting" by simp
      moreover have "hd (without h (tl_entries s) @ [?e]) \<in> set (tl_entries s) \<or> hd (without h (tl_entries s) @ [?e]) = ?e"
        using hd_in_set [of "without h (tl_entries s)"] by (auto simp: hd_append)
      ultimately show "wakes_by (s\<lparr>tl_entries := without h (tl_entries s) @ [?e]\<rparr>)
          (snd (hd (tl_entries (s\<lparr>tl_entries := without h (tl_entries s) @ [?e]\<rparr>))))"
        using live' by (intro front_later [OF inv]) (auto simp: wakes_by_def fun_eq_iff)
    qed
  qed (use f w(2) live' in auto)
qed

lemma destroy_inv:
  assumes inv: "tl_inv s" and user: "user_may_run s" and live: "timer_live s h"
  shows "tl_inv (tl_cancel s h)"
proof -
  note f = to_fire_facts [OF inv] and w = without_to_fire [OF inv user live, of "[]", simplified]
  let ?s = "s\<lparr>tl_entries := without h (tl_entries s)\<rparr>"
  have can: "tl_cancel s h = (if without h (tl_entries s) = [] then timer_cancel ?s else ?s)" by (simp add: tl_cancel_def Let_def)
  have ne: "tl_entries s \<noteq> []" using live by (auto simp: timer_live_def)
  show ?thesis
  proof (rule user_op_inv [OF inv, where es = "without h (to_fire s)"])
    show "to_fire (tl_cancel s h) = without h (to_fire s)" unfolding can using w(1) by (auto simp del: timer_list.simps)
    show "calling_ok (tl_cancel s h)" using w(2) by (auto simp: can calling_ok_def split: phase.splits)
    show "sorted (map snd (without h (to_fire s)))" by (rule sorted_without) fact
    show "distinct (map fst (without h (to_fire s)))" by (rule distinct_without) fact
    show "wake_ok (tl_cancel s h)"
    proof (cases "without h (tl_entries s) = []")
      case True
      then show ?thesis by (simp add: can wake_ok_def)
    next
      case False
      then have "hd (without h (tl_entries s)) \<in> set (tl_entries s)"
        using hd_in_set [of "without h (tl_entries s)"] by simp
      then show ?thesis using False ne front_later [OF inv, of "hd (without h (tl_entries s))" ?s]
        by (auto simp: can wake_ok_def wakes_by_def fun_eq_iff)
    qed
  qed (use f in \<open>auto simp: can\<close>)
qed

section \<open>The handler\<close>

lemma start_inv:
  assumes "tl_inv s" and "tl_phase s = Waiting" and "tl_queue s = r # rest"
  shows "tl_inv (handler_start s r rest)"
proof (cases r)
  case (Pair e ok)
  show ?thesis
  proof (cases ok)
    case True
    with Pair assms show ?thesis by (auto simp: tl_inv_defs handler_start_def to_fire_def)
  next
    case False
    with Pair assms show ?thesis by (auto simp: tl_inv_defs handler_start_def to_fire_def)
  qed
qed

lemma call_inv:
  assumes inv: "tl_inv s" and "tl_phase s = Running e" and "handler_due s e"
  shows "tl_inv (handler_call s e)"
proof -
  obtain h t es where es: "tl_entries s = (h, t) # es" and t: "t \<le> e"
    using assms(3) by (cases "tl_entries s") (auto simp: handler_due_def)
  have tf: "to_fire s = (h, t) # es" "to_fire (handler_call s e) = es"
    using assms(2) by (simp_all add: to_fire_def es handler_call_def)
  have "e \<le> tl_now s" using inv assms(2) by (simp add: tl_inv_def calling_ok_def)
  with t have "t \<le> tl_now s" by simp
  then show ?thesis using inv assms(2) tf es \<open>e \<le> tl_now s\<close>
    unfolding tl_inv_def order_ok_def handles_ok_def times_ok_def
    by (auto simp: handler_call_def calling_ok_def wake_ok_def)
qed

lemma return_inv: "tl_inv s \<Longrightarrow> tl_phase s = Calling e h \<Longrightarrow> tl_inv (handler_return s e)"
  by (auto simp: tl_inv_defs handler_return_def to_fire_def)

lemma stop_inv: "tl_inv s \<Longrightarrow> tl_phase s = Running e \<Longrightarrow> tl_inv (handler_end s)"
  by (auto simp: tl_inv_defs handler_end_def to_fire_def Let_def)

lemma tl_step_inv: "tl_step s s' \<Longrightarrow> tl_inv s \<Longrightarrow> tl_inv s'"
proof (induction rule: tl_step.induct)
  case (tick s now)
  then show ?case
    by (auto simp: tl_inv_defs to_fire_def split: phase.splits intro: order_trans)
next
  case (upd s h)
  then show ?case by (auto simp: timer_update_def handle_of_def update_inv)
next
  case (destroy s h)
  then show ?case by (auto simp: timer_destroy_def handle_of_def destroy_inv)
next
  case (expire s e)
  then show ?case by (auto simp: tl_inv_defs to_fire_def split: phase.splits)
qed (auto simp: create_inv start_inv call_inv return_inv stop_inv)

lemma reachable_inv:
  assumes "0 \<le> duration" and "reachable now duration s"
  shows "tl_inv s"
proof -
  have "tl_inv (timer_list_new now duration)"
    using assms(1) by (simp add: tl_inv_defs timer_list_new_def to_fire_def)
  with assms(2) show ?thesis unfolding reachable_def
    by (induction rule: rtranclp_induct) (auto intro: tl_step_inv)
qed

text \<open>No timer fires early or twice: in every reachable state, whatever user code does between and inside
  callbacks, each callback that ran was called at or after its expiry, no timer's callback ran
  twice, and a timer whose callback ran is not waiting to fire again.\<close>

lemma timers_fire_once_not_early:
  assumes "0 \<le> duration" and "reachable now duration s"
  shows "distinct (map fst (tl_fired s)) \<and> (\<forall>(h, at, expiry) \<in> set (tl_fired s). expiry \<le> at) \<and>
    fst ` set (to_fire s) \<inter> fst ` set (tl_fired s) = {}"
  using reachable_inv [OF assms] by (simp add: tl_inv_def handles_ok_def times_ok_def)

definition sample_fired :: timer_list where
  "sample_fired = \<lparr>tl_duration = 5, tl_now = 6, tl_entries = [(0, 5)], tl_next = 1, tl_active = None, tl_queue = [],
     tl_phase = Calling 5 0, tl_fired = [(0, 6, 5)]\<rparr>"

lemma sample_fired_reachable: "reachable 0 5 sample_fired"
proof -
  let ?s0 = "timer_list_new 0 5"
  let ?s1 = "snd (tl_schedule ?s0)"
  let ?s2 = "?s1\<lparr>tl_now := 6\<rparr>"
  let ?s3 = "?s2\<lparr>tl_active := None, tl_queue := tl_queue ?s2 @ [(5, True)]\<rparr>"
  let ?s4 = "handler_start ?s3 (5, True) []"
  note defs = timer_list_new_def tl_schedule_def tl_wait_def timer_cancel_def handler_start_def user_may_run_def handler_due_def Let_def
  have 1: "tl_step ?s0 ?s1" by (rule create) (simp add: defs)
  have 2: "tl_step ?s1 ?s2" by (rule tick) (simp add: defs)
  have 3: "tl_step ?s2 ?s3" by (rule expire) (simp_all add: defs)
  have 4: "tl_step ?s3 ?s4" by (rule start) (simp_all add: defs)
  have 5: "tl_step ?s4 (handler_call ?s4 5)" by (rule call) (simp_all add: defs)
  have eq: "handler_call ?s4 5 = sample_fired" by (simp add: defs handler_call_def sample_fired_def)
  have "reachable 0 5 ?s0" by (simp add: reachable_def)
  note r1 = reachable_step [OF this 1]
  note r2 = reachable_step [OF r1 2]
  note r3 = reachable_step [OF r2 3]
  note r4 = reachable_step [OF r3 4]
  show ?thesis using reachable_step [OF r4 5] unfolding eq .
qed

text \<open>C24. No wake-up is lost: in every reachable state outside the handler, if any timer is waiting, then the
  waitable timer is armed for a time, or has a successful handler queued, no later than the
  earliest expiry in the list, and the list is in the order of expiry.\<close>

theorem timer_wakeup_not_lost:
  assumes "0 \<le> duration" and "reachable now duration s" and "tl_phase s = Waiting" and "tl_entries s \<noteq> []"
  shows "wakes_by s (Min (snd ` set (tl_entries s))) \<and> sorted (map snd (tl_entries s))"
proof -
  have inv: "tl_inv s" using assms(1,2) by (rule reachable_inv)
  obtain a es where es: "tl_entries s = a # es" using assms(4) by (cases "tl_entries s") auto
  have srt: "sorted (map snd (tl_entries s))" using inv assms(3) by (simp add: tl_inv_def order_ok_def to_fire_def)
  then have "Min (snd ` set (tl_entries s)) = snd a" by (auto simp: es intro!: Min_eqI)
  with inv srt assms(3) show ?thesis by (simp add: tl_inv_def wake_ok_def es)
qed

theorem timer_wakeup_not_lost_witness:
  "wakes_by (snd (tl_schedule (timer_list_new 0 5))) 5"
proof -
  let ?s = "timer_list_new 0 5"
  have "tl_step ?s (snd (tl_schedule ?s))" by (rule create) (simp add: user_may_run_def timer_list_new_def)
  then have "reachable 0 5 (snd (tl_schedule ?s))" by (simp add: reachable_def)
  moreover have "tl_phase (snd (tl_schedule ?s)) = Waiting" "tl_entries (snd (tl_schedule ?s)) = [(0, 5)]"
    by (simp_all add: tl_schedule_def timer_list_new_def Let_def)
  ultimately show ?thesis using timer_wakeup_not_lost [of 5 0 "snd (tl_schedule ?s)"] by simp
qed

end
