(* ===== verification/Timer_Spec.thy ===== *)
theory Timer_Spec
  imports Timer_List
begin

text \<open>
  The specification that a list of timers promises to its users, who do not see the list or the waitable timer behind it: a
  set of timers, each with the time at which it is due. Time passes; a timer is created or restarted and is then due
  one duration later; a destroyed timer is gone; a timer whose time has come may fire, the earliest one first, and is
  then gone too. \<^verbatim>\<open>net/timer-list.h\<close> refines it: the abstraction of every step of the list is a step of the
  specification or changes nothing.
\<close>

record timers =
  tm_now :: int
  tm_duration :: int
  tm_next :: nat
  tm_due :: "nat \<Rightarrow> int option"
  tm_fired :: "(nat \<times> int) list"

definition timers_new :: "int \<Rightarrow> int \<Rightarrow> timers" where
  "timers_new now duration = \<lparr>tm_now = now, tm_duration = duration, tm_next = 0, tm_due = Map.empty, tm_fired = []\<rparr>"

inductive timers_step :: "timers \<Rightarrow> timers \<Rightarrow> bool" where
  pass: "tm_now t \<le> now \<Longrightarrow> timers_step t (t\<lparr>tm_now := now\<rparr>)"
| created: "timers_step t (t\<lparr>tm_next := tm_next t + 1, tm_due := (tm_due t)(tm_next t \<mapsto> tm_now t + tm_duration t)\<rparr>)"
| restarted: "tm_due t h \<noteq> None \<Longrightarrow> timers_step t (t\<lparr>tm_due := (tm_due t)(h \<mapsto> tm_now t + tm_duration t)\<rparr>)"
| destroyed: "tm_due t h \<noteq> None \<Longrightarrow> timers_step t (t\<lparr>tm_due := (tm_due t)(h := None)\<rparr>)"
| fired: "tm_due t h = Some x \<Longrightarrow> x \<le> tm_now t \<Longrightarrow> (\<And>g y. tm_due t g = Some y \<Longrightarrow> x \<le> y) \<Longrightarrow>
    timers_step t (t\<lparr>tm_due := (tm_due t)(h := None), tm_fired := tm_fired t @ [(h, tm_now t)]\<rparr>)"

text \<open>The timers of a list: the entries that are still to fire.\<close>

definition timers_of :: "timer_list \<Rightarrow> timers" where
  "timers_of s =
     \<lparr>tm_now = tl_now s, tm_duration = tl_duration s, tm_next = tl_next s, tm_due = map_of (to_fire s),
      tm_fired = map (\<lambda>(h, at, x). (h, at)) (tl_fired s)\<rparr>"

lemma map_of_without: "map_of (without h es) = (map_of es)(h := None)"
  by (induction es) (auto simp: without_def fun_eq_iff)

lemma map_of_snoc: "h \<notin> fst ` set es \<Longrightarrow> [h \<mapsto> x] ++ map_of es = (map_of es)(h \<mapsto> x)"
  by (induction es) auto

lemma timers_of_user:
  assumes "tl_inv s" and "user_may_run s"
  shows "timers_of (snd (tl_schedule s)) =
      (timers_of s)\<lparr>tm_next := tl_next s + 1, tm_due := (map_of (to_fire s))(tl_next s \<mapsto> tl_now s + tl_duration s)\<rparr>"
    and "timer_live s h \<Longrightarrow> timers_of (tl_update s h) = (timers_of s)\<lparr>tm_due := (map_of (to_fire s))(h \<mapsto> tl_now s + tl_duration s)\<rparr>"
    and "timer_live s h \<Longrightarrow> timers_of (tl_cancel s h) = (timers_of s)\<lparr>tm_due := (map_of (to_fire s))(h := None)\<rparr>"
proof -
  have "tl_next s \<notin> fst ` set (to_fire s)" using to_fire_facts(4) [OF assms(1)] by blast
  moreover have "to_fire (snd (tl_schedule s)) = to_fire s @ [(tl_next s, tl_now s + tl_duration s)]"
    using assms by (cases rule: user_phases) (auto simp: tl_schedule_def to_fire_def Let_def)
  ultimately show "timers_of (snd (tl_schedule s)) =
      (timers_of s)\<lparr>tm_next := tl_next s + 1, tm_due := (map_of (to_fire s))(tl_next s \<mapsto> tl_now s + tl_duration s)\<rparr>"
    by (auto simp: timers_of_def tl_schedule_def Let_def map_of_snoc)
next
  assume live: "timer_live s h"
  have "to_fire (tl_update s h) = without h (to_fire s) @ [(h, tl_now s + tl_duration s)]"
    using without_to_fire(1) [OF assms live] by (simp add: tl_update_def)
  then show "timers_of (tl_update s h) = (timers_of s)\<lparr>tm_due := (map_of (to_fire s))(h \<mapsto> tl_now s + tl_duration s)\<rparr>"
    by (simp add: timers_of_def tl_update_def map_of_without) (auto simp: map_add_def fun_eq_iff split: option.split)
  have "to_fire (tl_cancel s h) = without h (to_fire s)"
    using without_to_fire(1) [OF assms live, of "[]"] by (auto simp: tl_cancel_def Let_def)
  then show "timers_of (tl_cancel s h) = (timers_of s)\<lparr>tm_due := (map_of (to_fire s))(h := None)\<rparr>"
    by (simp add: timers_of_def tl_cancel_def Let_def map_of_without)
qed

lemma live_due: "tl_inv s \<Longrightarrow> user_may_run s \<Longrightarrow> timer_live s h \<Longrightarrow> tm_due (timers_of s) h \<noteq> None"
proof -
  assume a: "tl_inv s" "user_may_run s" "timer_live s h"
  then have "h \<in> fst ` set (to_fire s)" by (cases rule: user_phases) (auto simp: timer_live_def)
  then show ?thesis by (simp add: timers_of_def map_of_eq_None_iff)
qed

lemma fire_refines:
  assumes inv: "tl_inv s" and "tl_phase s = Running e" and "handler_due s e"
  shows "timers_step (timers_of s) (timers_of (handler_call s e))"
proof -
  obtain h x es where es: "tl_entries s = (h, x) # es" "x \<le> e" using assms(3) by (cases "tl_entries s") (auto simp: handler_due_def)
  have tf: "to_fire s = (h, x) # es" "to_fire (handler_call s e) = es"
    using assms(2) by (simp_all add: to_fire_def handler_call_def es)
  have "x \<le> tl_now s" using inv assms(2) es(2) by (simp add: tl_inv_def calling_ok_def)
  moreover have "x \<le> y" if "tm_due (timers_of s) g = Some y" for g y
    using that to_fire_facts(1) [OF inv] by (auto simp: timers_of_def tf dest!: map_of_SomeD split: if_splits)
  moreover have "h \<notin> fst ` set es" using to_fire_facts(3) [OF inv] by (simp add: tf)
  then have "timers_of (handler_call s e) =
      (timers_of s)\<lparr>tm_due := (tm_due (timers_of s))(h := None), tm_fired := tm_fired (timers_of s) @ [(h, tm_now (timers_of s))]\<rparr>"
    unfolding timers_of_def tf by (auto simp: handler_call_def es fun_eq_iff map_of_eq_None_iff)
  ultimately show ?thesis using timers_step.fired [of "timers_of s" h x] by (simp add: timers_of_def tf)
qed

lemma step_refines:
  assumes "tl_step s s'" and "tl_inv s"
  shows "timers_step (timers_of s) (timers_of s') \<or> timers_of s' = timers_of s"
  using assms
proof (induction rule: tl_step.induct)
  case (tick s now)
  then show ?case using pass [of "timers_of s" now] by (auto simp: timers_of_def to_fire_def split: phase.split)
next
  case (create s)
  then show ?case using created [of "timers_of s"] timers_of_user(1) [of s] by (simp add: timers_of_def)
next
  case (upd s h)
  then show ?case using restarted [OF live_due, of s h] timers_of_user(2) [of s h]
    by (auto simp: timer_update_def handle_of_def timers_of_def)
next
  case (destroy s h)
  then show ?case using destroyed [OF live_due, of s h] timers_of_user(3) [of s h]
    by (auto simp: timer_destroy_def handle_of_def timers_of_def)
next
  case (call s e)
  then show ?case by (simp add: fire_refines)
next
  case (return s e h)
  then show ?case by (simp add: timers_of_def handler_return_def to_fire_def)
qed (auto simp: timers_of_def to_fire_def handler_start_def handler_end_def Let_def split: phase.split)

text \<open>C23. The timer list refines its specification: in every run, with timers created, restarted and destroyed outside and inside
  callbacks, what the list does is what independent timers of the same duration do. In particular a callback is called
  only for a timer that exists and is due, the earliest first, never after the timer was destroyed, and once.\<close>

theorem timer_list_refines_timers:
  assumes "0 \<le> duration" and "reachable now duration s"
  shows "timers_step\<^sup>*\<^sup>* (timers_new now duration) (timers_of s) \<and>
    (\<forall>s'. tl_step s s' \<longrightarrow> timers_step (timers_of s) (timers_of s') \<or> timers_of s' = timers_of s)"
proof
  show "\<forall>s'. tl_step s s' \<longrightarrow> timers_step (timers_of s) (timers_of s') \<or> timers_of s' = timers_of s"
    using step_refines reachable_inv [OF assms] by blast
  show "timers_step\<^sup>*\<^sup>* (timers_new now duration) (timers_of s)"
    using assms(2) unfolding reachable_def
  proof (induction rule: rtranclp_induct)
    case base
    then show ?case by (simp add: timers_of_def timer_list_new_def timers_new_def to_fire_def)
  next
    case (step s s')
    then have "tl_inv s" using reachable_inv [OF assms(1)] by (simp add: reachable_def)
    from step_refines [OF step(2) this] step.IH show ?case by (auto intro: rtranclp.rtrancl_into_rtrancl)
  qed
qed

theorem timer_list_refines_timers_witness:
  "timers_step\<^sup>*\<^sup>* (timers_new 0 5) (timers_of sample_fired) \<and> tm_fired (timers_of sample_fired) = [(0, 6)]"
  using timer_list_refines_timers [OF _ sample_fired_reachable] by (simp add: timers_of_def sample_fired_def)

end
