(* ===== verification/Timed_Run.thy ===== *)
theory Timed_Run
  imports Timer_Spec
begin

text \<open>
  The coroutine \<^verbatim>\<open>run\<close> of \<^verbatim>\<open>net/timer-list.h\<close>: awaits an operation with a timer of the list, whose callback asks for the
  cancellation of the operation and notes that it did. The operation completes at any time with any error code;
  its completion runs from the executor and not inside the request for cancellation. Meanwhile the rest of the program
  uses the list, but not this timer.
\<close>

record timed_run =
  tr_list :: timer_list
  tr_handle :: nat
  tr_timed_out :: bool
  tr_signals :: nat
  tr_result :: "errc option option"

definition run_start :: "timer_list \<Rightarrow> timed_run" where
  "run_start s =
     (case tl_schedule s of (h, s') \<Rightarrow>
        \<lparr>tr_list = s', tr_handle = h, tr_timed_out = False, tr_signals = 0, tr_result = None\<rparr>)"

text \<open>A step of the list; if it calls the callback of the timer, the callback runs.\<close>

definition run_observe :: "timed_run \<Rightarrow> timer_list \<Rightarrow> timed_run" where
  "run_observe r s =
     (if tr_handle r \<in> fst ` set (tl_fired s) \<and> tr_handle r \<notin> fst ` set (tl_fired (tr_list r))
      then r\<lparr>tr_list := s, tr_signals := tr_signals r + 1, tr_timed_out := True\<rparr>
      else r\<lparr>tr_list := s\<rparr>)"

text \<open>The operation has completed with \<open>ec\<close>: the timer is destroyed, and the coroutine returns.\<close>

definition run_finish :: "timed_run \<Rightarrow> errc option \<Rightarrow> timed_run" where
  "run_finish r ec =
     r\<lparr>tr_result := Some (if tr_timed_out r then Some Timed_out else ec),
       tr_list := timer_destroy (tr_list r) (handle_of (tr_list r) (tr_handle r))\<rparr>"

definition others_step :: "nat \<Rightarrow> timer_list \<Rightarrow> timer_list \<Rightarrow> bool" where
  "others_step h s s' \<longleftrightarrow> tl_step s s' \<and> (\<forall>x. (h, x) \<in> set (tl_entries s') \<longrightarrow> (h, x) \<in> set (tl_entries s))"

inductive run_step :: "timed_run \<Rightarrow> timed_run \<Rightarrow> bool" where
  others: "tr_result r = None \<Longrightarrow> others_step (tr_handle r) (tr_list r) s' \<Longrightarrow> run_step r (run_observe r s')"
| finish: "tr_result r = None \<Longrightarrow> user_may_run (tr_list r) \<Longrightarrow> run_step r (run_finish r ec)"

section \<open>Properties\<close>

lemma tl_step_fired:
  assumes "tl_step s s'"
  shows "set (tl_fired s') \<subseteq> set (tl_fired s) \<union> {(h, tl_now s, x) | h x. (h, x) \<in> set (tl_entries s)}"
    and "set (tl_fired s) \<subseteq> set (tl_fired s')" and "tl_now s \<le> tl_now s'"
  using assms
  by (cases rule: tl_step.cases,
      auto simp: tl_schedule_def timer_update_def tl_update_def timer_destroy_def tl_cancel_def handler_start_def handler_call_def
        handler_return_def handler_end_def handler_due_def Let_def split: option.splits prod.splits if_splits;
      metis hd_in_set)+

definition run_ok :: "int \<Rightarrow> timed_run \<Rightarrow> bool" where
  "run_ok deadline r \<longleftrightarrow>
     (\<forall>x. (tr_handle r, x) \<in> set (tl_entries (tr_list r)) \<longrightarrow> x = deadline) \<and>
     (\<forall>at x. (tr_handle r, at, x) \<in> set (tl_fired (tr_list r)) \<longrightarrow> x = deadline \<and> at \<le> tl_now (tr_list r)) \<and>
     (tr_timed_out r \<longleftrightarrow> tr_handle r \<in> fst ` set (tl_fired (tr_list r))) \<and>
     tr_signals r = (if tr_timed_out r then 1 else 0) \<and>
     (\<forall>res. tr_result r = Some res \<and> tr_timed_out r \<longrightarrow> res = Some Timed_out)"

lemma run_start_ok:
  assumes "tl_inv s" and "user_may_run s"
  shows "run_ok (tl_now s + tl_duration s) (run_start s)" and "tr_list (run_start s) = snd (tl_schedule s)"
proof -
  have old: "h < tl_next s" if "h \<in> fst ` set (tl_entries s) \<union> fst ` set (tl_fired s)" for h
    using assms
  proof (cases rule: user_phases)
    case waiting
    with that assms(1) show ?thesis by (auto simp: tl_inv_def handles_ok_def)
  next
    case (calling e g x rest)
    with that assms(1) show ?thesis by (auto simp: tl_inv_def handles_ok_def)
  qed
  then have "tl_next s \<notin> fst ` set (tl_entries s)" "tl_next s \<notin> fst ` set (tl_fired s)" by blast+
  then show "run_ok (tl_now s + tl_duration s) (run_start s)"
    by (force simp: run_ok_def run_start_def tl_schedule_def Let_def)
  show "tr_list (run_start s) = snd (tl_schedule s)" by (simp add: run_start_def split: prod.split)
qed

lemma timer_destroy_simps [simp]:
  "tl_fired (timer_destroy s x) = tl_fired s" "tl_now (timer_destroy s x) = tl_now s"
  by (simp_all add: timer_destroy_def tl_cancel_def Let_def split: option.split)

lemma timer_destroy_entries: "set (tl_entries (timer_destroy s x)) \<subseteq> set (tl_entries s)"
  by (auto simp: timer_destroy_def tl_cancel_def Let_def split: option.split)

lemma run_step_ok:
  assumes "run_step r r'" and "run_ok deadline r"
  shows "run_ok deadline r' \<and> tl_step (tr_list r) (tr_list r') \<and> tr_handle r' = tr_handle r"
  using assms
proof (cases rule: run_step.cases)
  case (others s')
  let ?h = "tr_handle r"
  have step: "tl_step (tr_list r) s'" and own: "\<forall>x. (?h, x) \<in> set (tl_entries s') \<longrightarrow> (?h, x) \<in> set (tl_entries (tr_list r))"
    using others(3) by (simp_all add: others_step_def)
  note f = tl_step_fired [OF step]
  have fired: "x = deadline \<and> at \<le> tl_now s'" if "(?h, at, x) \<in> set (tl_fired s')" for at x
  proof -
    from f(1) that consider "(?h, at, x) \<in> set (tl_fired (tr_list r))" | "at = tl_now (tr_list r)" "(?h, x) \<in> set (tl_entries (tr_list r))" by auto
    then show ?thesis using assms(2) f(3) by cases (force simp: run_ok_def)+
  qed
  have new: "?h \<in> fst ` set (tl_fired (tr_list r)) \<Longrightarrow> ?h \<in> fst ` set (tl_fired s')" using f(2) by blast
  show ?thesis using step own fired new assms(2) others(2) unfolding others(1) run_ok_def run_observe_def by auto
next
  case (finish ec)
  have "tl_step (tr_list r) (tr_list r')" unfolding finish(1) run_finish_def using destroy [OF finish(3)] by simp
  moreover have "run_ok deadline r'"
    using assms(2) timer_destroy_entries [of "tr_list r" "handle_of (tr_list r) (tr_handle r)"]
    unfolding finish(1) run_ok_def run_finish_def by auto
  ultimately show ?thesis by (simp add: finish(1) run_finish_def)
qed

text \<open>A coroutine that runs an operation with a timer: cancellation is requested at most once, and not before the duration of the
  list has passed since the start; if it was, the coroutine returns \<^verbatim>\<open>timed_out\<close>, and otherwise what the operation returned.\<close>

theorem timed_run_result:
  assumes "0 \<le> duration" and "reachable now duration s" and "user_may_run s" and "run_step\<^sup>*\<^sup>* (run_start s) r"
  shows "tr_signals r = (if tr_timed_out r then 1 else 0) \<and>
    (tr_timed_out r \<longrightarrow> tl_now s + tl_duration s \<le> tl_now (tr_list r)) \<and>
    (\<forall>res. tr_result r = Some res \<and> tr_timed_out r \<longrightarrow> res = Some Timed_out) \<and>
    (\<forall>ec. \<not> tr_timed_out r \<longrightarrow> tr_result (run_finish r ec) = Some ec)"
proof -
  have inv: "tl_inv s" using assms(1,2) by (rule reachable_inv)
  have "run_ok (tl_now s + tl_duration s) r \<and> reachable now duration (tr_list r)" using assms(4)
  proof (induction rule: rtranclp_induct)
    case base
    from run_start_ok [OF inv assms(3)] reachable_step [OF assms(2) create [OF assms(3)]] show ?case by simp
  next
    case (step r r')
    with run_step_ok [OF step(2)] reachable_step show ?case by blast
  qed
  then have ok: "run_ok (tl_now s + tl_duration s) r" and "tl_inv (tr_list r)" using reachable_inv [OF assms(1)] by blast+
  then have "tl_now s + tl_duration s \<le> tl_now (tr_list r)" if "tr_timed_out r"
    using that unfolding run_ok_def tl_inv_def times_ok_def by fastforce
  with ok show ?thesis by (simp add: run_ok_def run_finish_def)
qed

end
