(* ===== verification/Rate_Limiter.thy ===== *)
theory Rate_Limiter
  imports Trunk_Prelude "HOL-Library.Monad_Syntax"
begin

text \<open>
  \<^verbatim>\<open>net/rate-limiter.h\<close> and \<^verbatim>\<open>net/rate-limiter.cc\<close>: a token bucket. Time and tokens are 64-bit counts of
  nanoseconds, sizes and the rate 64-bit words; a signed overflow and a division by a rate of 0 have no
  result. Requests carry a number instead of a callback; \<open>granted\<close> lists the callbacks that were
  called, and \<open>paid\<close> counts the tokens that were spent, also on a request that is still waiting.

  The loop of \<^verbatim>\<open>update\<close> calls user code, which may call \<^verbatim>\<open>acquire\<close> and \<^verbatim>\<open>acquire_nowait\<close> again. It is
  therefore cut at the callbacks: in the phase \<open>Granting t\<close> the loop of \<^verbatim>\<open>update(t)\<close> is inside the callback
  of the front request, which is still in the queue.
\<close>

datatype rl_phase = Idle | Granting int

record rate_limiter =
  rl_rate :: u64
  rl_capacity :: int
  rl_duration :: int
  rl_time :: int
  rl_queue :: "(int \<times> nat) list"
  rl_timer :: "int option"
  rl_at :: rl_phase
  granted :: "nat list"
  paid :: int

definition rate_limiter_new :: "u64 \<Rightarrow> int \<Rightarrow> rate_limiter" where
  "rate_limiter_new rate capacity =
     \<lparr>rl_rate = rate, rl_capacity = capacity, rl_duration = 0, rl_time = 0, rl_queue = [], rl_timer = None,
      rl_at = Idle, granted = [], paid = 0\<rparr>"

text \<open>\<^verbatim>\<open>nanoseconds(seconds(size)) / rate_\<close>: the size becomes a signed count of seconds, and the division by the
  unsigned rate is unsigned.\<close>

definition cost :: "rate_limiter \<Rightarrow> u64 \<Rightarrow> int option" where
  "cost s n = do {
     ns \<leftarrow> checked_int64 (sint n * 1000000000);
     if rl_rate s = 0 then None else Some (sint ((word_of_int ns :: u64) div rl_rate s))
   }"

definition refill :: "rate_limiter \<Rightarrow> int \<Rightarrow> rate_limiter option" where
  "refill s t = do {
     elapsed \<leftarrow> checked_int64 (t - rl_time s);
     duration \<leftarrow> checked_int64 (rl_duration s + elapsed);
     Some (s\<lparr>rl_duration := min duration (rl_capacity s), rl_time := t\<rparr>)
   }"

text \<open>The loop from its head to the next callback or to its end.\<close>

definition update_loop :: "rate_limiter \<Rightarrow> int \<Rightarrow> rate_limiter option" where
  "update_loop s t =
     (case rl_queue s of
        [] \<Rightarrow> None
      | (d, i) # q \<Rightarrow>
          if d > rl_duration s then do {
            rest \<leftarrow> checked_int64 (d - rl_duration s);
            expiry \<leftarrow> checked_int64 (t + min rest (rl_capacity s));
            Some (s\<lparr>rl_queue := (rest, i) # q, paid := paid s + rl_duration s, rl_duration := 0,
              rl_timer := Some expiry, rl_at := Idle\<rparr>)
          }
          else do {
            duration \<leftarrow> checked_int64 (rl_duration s - d);
            Some (s\<lparr>rl_duration := duration, paid := paid s + d, granted := granted s @ [i], rl_at := Granting t\<rparr>)
          })"

definition rl_update :: "rate_limiter \<Rightarrow> int \<Rightarrow> rate_limiter option" where
  "rl_update s t = do { s' \<leftarrow> refill s t; update_loop s' t }"

text \<open>The callback returns to the loop.\<close>

definition callback_return :: "rate_limiter \<Rightarrow> int \<Rightarrow> rate_limiter option" where
  "callback_return s t =
     (let s' = s\<lparr>rl_queue := tl (rl_queue s)\<rparr>
      in if rl_queue s' = [] then Some (s'\<lparr>rl_at := Idle\<rparr>) else update_loop s' t)"

definition acquire :: "rate_limiter \<Rightarrow> int \<Rightarrow> u64 \<Rightarrow> nat \<Rightarrow> rate_limiter option" where
  "acquire s now n i = do {
     d \<leftarrow> cost s n;
     let s' = s\<lparr>rl_queue := rl_queue s @ [(d, i)]\<rparr>;
     if length (rl_queue s') = 1 then rl_update s' now else Some s'
   }"

definition acquire_nowait :: "rate_limiter \<Rightarrow> int \<Rightarrow> u64 \<Rightarrow> (bool \<times> rate_limiter) option" where
  "acquire_nowait s now n = do {
     s' \<leftarrow> refill s now;
     d \<leftarrow> cost s n;
     if rl_duration s' < d then Some (False, s')
     else do {
       duration \<leftarrow> checked_int64 (rl_duration s' - d);
       Some (True, s'\<lparr>rl_duration := duration, paid := paid s' + d\<rparr>)
     }
   }"

text \<open>The handler of the timer continues at the time it was set for.\<close>

definition on_timer :: "rate_limiter \<Rightarrow> int \<Rightarrow> rate_limiter option" where
  "on_timer s t = rl_update (s\<lparr>rl_timer := None\<rparr>) t"

section \<open>Steps\<close>

text \<open>The sizes of requests are such that the conversion to signed seconds does not change them.\<close>

inductive rl_step :: "rate_limiter \<Rightarrow> rate_limiter \<Rightarrow> bool" where
  request: "rl_time s \<le> now \<Longrightarrow> unat n < 2 ^ 63 \<Longrightarrow> acquire s now n i = Some s' \<Longrightarrow> rl_step s s'"
| nowait: "rl_time s \<le> now \<Longrightarrow> unat n < 2 ^ 63 \<Longrightarrow> acquire_nowait s now n = Some (b, s') \<Longrightarrow> rl_step s s'"
| returned: "rl_at s = Granting t \<Longrightarrow> callback_return s t = Some s' \<Longrightarrow> rl_step s s'"
| timer: "rl_at s = Idle \<Longrightarrow> rl_timer s = Some t \<Longrightarrow> on_timer s t = Some s' \<Longrightarrow> rl_step s s'"

text \<open>The requests that have not been granted.\<close>

definition waiting :: "rate_limiter \<Rightarrow> (int \<times> nat) list" where
  "waiting s = (case rl_at s of Idle \<Rightarrow> rl_queue s | Granting t \<Rightarrow> tl (rl_queue s))"

definition rl_base :: "rate_limiter \<Rightarrow> bool" where
  "rl_base s \<longleftrightarrow> rl_rate s \<noteq> 0 \<and> 0 \<le> rl_capacity s \<and> (\<forall>(d, i) \<in> set (rl_queue s). 0 \<le> d)"

definition rl_ok :: "rate_limiter \<Rightarrow> bool" where
  "rl_ok s \<longleftrightarrow> rl_base s \<and> 0 \<le> rl_duration s \<and> rl_duration s \<le> rl_capacity s \<and>
     (case rl_at s of Idle \<Rightarrow> rl_queue s \<noteq> [] \<longleftrightarrow> rl_timer s \<noteq> None
      | Granting t \<Rightarrow> rl_queue s \<noteq> [] \<and> rl_timer s = None)"

text \<open>No step creates tokens.\<close>

definition conserves :: "rate_limiter \<Rightarrow> rate_limiter \<Rightarrow> bool" where
  "conserves s s' \<longleftrightarrow> rl_duration s' + paid s' - rl_time s' \<le> rl_duration s + paid s - rl_time s \<and>
     rl_rate s' = rl_rate s \<and> rl_capacity s' = rl_capacity s"

lemma conserves_trans: "conserves s t \<Longrightarrow> conserves t u \<Longrightarrow> conserves s u"
  by (auto simp: conserves_def)

lemma cost_value:
  assumes "unat n < 2 ^ 63"
  shows "cost s n = (if rl_rate s \<noteq> 0 \<and> unat n \<le> 9223372036 then Some (int (unat n) * 1000000000 div uint (rl_rate s)) else None)"
proof -
  have u: "uint n = int (unat n)" by simp
  have "uint n < 2 ^ 63" using assms by (metis of_nat_less_iff of_nat_numeral of_nat_power uint_nat)
  then have n: "sint n = uint n"
    using order_trans [OF _ uint_ge_0 [of n], of "- (2 ^ 63)"] by (simp add: sint_uint signed_take_bit_int_eq_self)
  show ?thesis
  proof (cases "rl_rate s \<noteq> 0 \<and> unat n \<le> 9223372036")
    case True
    define ns where "ns = uint n * 1000000000"
    have le: "uint n \<le> 9223372036" unfolding u using True by linarith
    have rate: "1 \<le> uint (rl_rate s)" using True uint_ge_0 [of "rl_rate s"] by (metis int_one_le_iff_zero_less order_le_less uint_0_iff)
    have "uint (word_of_int ns :: u64) = ns" 
      using le by (subst uint_word_of_int, intro mod_pos_pos_trivial) (simp_all add: ns_def)
    then have w: "(word_of_int ns :: u64) div rl_rate s = word_of_int (ns div uint (rl_rate s))" by (simp add: word_div_def)
    have nn: "0 \<le> ns" by (simp add: ns_def)
    have "ns div uint (rl_rate s) \<le> ns div 1" using rate nn by (intro zdiv_mono2) simp_all
    moreover have "0 \<le> ns div uint (rl_rate s)" using rate nn by (simp add: pos_imp_zdiv_nonneg_iff)
    ultimately have "int64_ok (ns div uint (rl_rate s))" "int64_ok ns" using le nn by (simp_all add: int64_ok_def ns_def)
    then show ?thesis using True by (simp add: cost_def n w sint_u64 flip: ns_def)
  next
    case False
    then have "rl_rate s = 0 \<or> 9223372036 < uint n" unfolding u by linarith
    then show ?thesis using False by (auto simp: cost_def n checked_int64_def int64_ok_def)
  qed
qed

lemma cost_nonneg: "unat n < 2 ^ 63 \<Longrightarrow> cost s n = Some d \<Longrightarrow> 0 \<le> d"
  by (auto simp: cost_value div_int_pos_iff split: if_splits)

lemma update_loop_ok:
  assumes "update_loop s t = Some s'"
    and "rl_base s" and "rl_timer s = None" and "rl_duration s \<le> rl_capacity s"
  shows "rl_ok s' \<and> conserves s s' \<and> granted s' @ map snd (waiting s') = granted s @ map snd (rl_queue s)"
proof -
  obtain d i q where q: "rl_queue s = (d, i) # q" using assms(1) by (cases "rl_queue s") (auto simp: update_loop_def)
  show ?thesis using assms
    by (auto simp: update_loop_def q rl_ok_def rl_base_def conserves_def waiting_def split: if_splits bind_splits)
qed

lemma refill_ok:
  assumes "refill s t = Some s'" and "rl_base s"
  shows "rl_base s'" and "rl_queue s' = rl_queue s" and "rl_timer s' = rl_timer s" and "rl_at s' = rl_at s" and "granted s' = granted s"
    and "rl_duration s' \<le> rl_capacity s'" and "conserves s s'"
    and "rl_time s' = t" and "rl_time s \<le> t \<Longrightarrow> 0 \<le> rl_duration s \<Longrightarrow> 0 \<le> rl_duration s'"
  using assms by (auto simp: refill_def rl_base_def conserves_def split: bind_splits)

lemma rl_update_ok:
  assumes "rl_update s t = Some s'" and "rl_base s" and "rl_timer s = None"
  shows "rl_ok s' \<and> conserves s s' \<and> granted s' @ map snd (waiting s') = granted s @ map snd (rl_queue s)"
proof -
  from assms(1) obtain r where r: "refill s t = Some r" "update_loop r t = Some s'" by (auto simp: rl_update_def split: bind_splits)
  note f = refill_ok [OF r(1) assms(2)]
  from update_loop_ok [OF r(2) f(1)] f(2,3,5,6,7) assms(3) conserves_trans show ?thesis by fastforce
qed

lemma request_ok:
  assumes "acquire s now n i = Some s'" and "rl_ok s" and "unat n < 2 ^ 63"
  shows "rl_ok s' \<and> conserves s s' \<and> granted s' @ map snd (waiting s') = granted s @ map snd (waiting s) @ [i]"
proof -
  from assms(1) obtain d where d: "cost s n = Some d" by (auto simp: acquire_def split: bind_splits)
  let ?s = "s\<lparr>rl_queue := rl_queue s @ [(d, i)]\<rparr>"
  have base: "rl_base ?s" using assms(2) cost_nonneg [OF assms(3) d] by (auto simp: rl_ok_def rl_base_def)
  have c: "conserves s ?s" by (simp add: conserves_def)
  show ?thesis
  proof (cases "rl_queue s = []")
    case True
    then have idle: "rl_at s = Idle" "rl_timer ?s = None" using assms(2) by (auto simp: rl_ok_def split: rl_phase.splits)
    have "rl_update ?s now = Some s'" using assms(1) True by (simp add: acquire_def d Let_def)
    from rl_update_ok [OF this base idle(2)] c conserves_trans True idle(1) show ?thesis by (auto simp: waiting_def)
  next
    case False
    then have "s' = ?s" using assms(1) by (simp add: acquire_def d Let_def)
    then show ?thesis using assms(2) base False c by (auto simp: rl_ok_def waiting_def split: rl_phase.splits)
  qed
qed

lemma nowait_ok:
  assumes "acquire_nowait s now n = Some (b, s')" and "rl_ok s" and "unat n < 2 ^ 63" and "rl_time s \<le> now"
  shows "rl_ok s' \<and> conserves s s' \<and> granted s' = granted s \<and> waiting s' = waiting s"
proof -
  from assms(1) obtain r d where r: "refill s now = Some r" and d: "cost s n = Some d"
    by (auto simp: acquire_nowait_def split: bind_splits)
  with assms(1) have s': "s' = (if rl_duration r < d then r else r\<lparr>rl_duration := rl_duration r - d, paid := paid r + d\<rparr>)"
    by (auto simp: acquire_nowait_def split: bind_splits if_splits)
  note f = refill_ok [OF r]
  have "rl_base s" "0 \<le> rl_duration s" using assms(2) by (simp_all add: rl_ok_def)
  then have "rl_base r" "rl_queue r = rl_queue s" "rl_timer r = rl_timer s" "rl_at r = rl_at s" "granted r = granted s"
    "0 \<le> rl_duration r" "rl_duration r \<le> rl_capacity r" "conserves s r" using f assms(4) by simp_all
  then show ?thesis using cost_nonneg [OF assms(3) d] assms(2) s'
    by (auto simp: rl_ok_def rl_base_def conserves_def waiting_def split: rl_phase.splits)
qed

lemma returned_ok:
  assumes "callback_return s t = Some s'" and "rl_ok s" and "rl_at s = Granting t"
  shows "rl_ok s' \<and> conserves s s' \<and> granted s' @ map snd (waiting s') = granted s @ map snd (waiting s)"
proof (cases "tl (rl_queue s) = []")
  case True
  then show ?thesis using assms by (auto simp: callback_return_def Let_def rl_ok_def rl_base_def conserves_def waiting_def)
next
  case False
  let ?s = "s\<lparr>rl_queue := tl (rl_queue s)\<rparr>"
  have "rl_base ?s" "rl_timer ?s = None" "rl_duration ?s \<le> rl_capacity ?s" "update_loop ?s t = Some s'" "conserves s ?s"
    using assms False by (auto simp: rl_ok_def rl_base_def conserves_def callback_return_def Let_def dest: list.set_sel(2) [rotated])
  with update_loop_ok [OF this(4,1,2,3)] conserves_trans assms(3) show ?thesis by (auto simp: waiting_def)
qed

lemma timer_ok:
  assumes "on_timer s t = Some s'" and "rl_ok s" and "rl_at s = Idle"
  shows "rl_ok s' \<and> conserves s s' \<and> granted s' @ map snd (waiting s') = granted s @ map snd (waiting s)"
proof -
  let ?s = "s\<lparr>rl_timer := None\<rparr>"
  have "rl_update ?s t = Some s'" "rl_base ?s" "rl_timer ?s = None" "conserves s ?s"
    using assms by (auto simp: rl_ok_def rl_base_def conserves_def on_timer_def)
  with rl_update_ok [OF this(1-3)] conserves_trans assms(3) show ?thesis by (auto simp: waiting_def)
qed

lemma rl_step_ok:
  assumes "rl_step s s'" and "rl_ok s"
  shows "rl_ok s' \<and> conserves s s' \<and> (\<exists>new. granted s' @ map snd (waiting s') = granted s @ map snd (waiting s) @ new)"
  using assms(1)
proof cases
  case (nowait now n b)
  then show ?thesis using nowait_ok [OF nowait(3) assms(2) nowait(2,1)] by simp
qed (use assms(2) request_ok returned_ok timer_ok in \<open>fastforce+\<close>)

lemma rl_steps_ok:
  assumes "rl_step\<^sup>*\<^sup>* s s'" and "rl_ok s"
  shows "rl_ok s' \<and> conserves s s' \<and> (\<exists>new. granted s' @ map snd (waiting s') = granted s @ map snd (waiting s) @ new)"
  using assms(1)
proof (induction rule: rtranclp_induct)
  case base
  then show ?case using assms(2) by (simp add: conserves_def)
next
  case (step t u)
  note n = rl_step_ok [OF step.hyps(2)]
  from step.IH obtain new where a: "granted t @ map snd (waiting t) = granted s @ map snd (waiting s) @ new" by blast
  from n step.IH obtain new' where "granted u @ map snd (waiting u) = granted t @ map snd (waiting t) @ new'" by blast
  with a have "granted u @ map snd (waiting u) = granted s @ map snd (waiting s) @ new @ new'" by (metis append.assoc)
  with n step.IH conserves_trans show ?case by blast
qed

text \<open>C25. The limiter is a token bucket with a queue. Between any two moments of any run, the tokens spent
  (with \<^verbatim>\<open>acquire\<close> and \<^verbatim>\<open>acquire_nowait\<close> together, also from inside callbacks) are at most the capacity plus
  the time that has passed by the limiter's own time stamps; waiting requests are granted in the
  order in which they were made; and outside callbacks a timer is set exactly while requests wait.\<close>

theorem rate_limiter_bucket:
  assumes "rl_ok s" and "rl_step\<^sup>*\<^sup>* s s'"
  shows "paid s' - paid s \<le> rl_capacity s + (rl_time s' - rl_time s) \<and>
    (\<exists>new. granted s' @ map snd (waiting s') = granted s @ map snd (waiting s) @ new) \<and>
    (rl_at s' = Idle \<longrightarrow> (waiting s' \<noteq> [] \<longleftrightarrow> rl_timer s' \<noteq> None))"
  using rl_steps_ok [OF assms(2,1)] assms(1) by (auto simp: rl_ok_def conserves_def waiting_def)

theorem rate_limiter_bucket_witness:
  "\<exists>s'. acquire_nowait (rate_limiter_new 1000000000 5) 100 3 = Some (True, s') \<and> paid s' = 3 \<and> paid s' - 0 \<le> 5 + (100 - 0)"
proof -
  let ?s = "rate_limiter_new 1000000000 5"
  let ?t = "?s\<lparr>rl_duration := 2, rl_time := 100, paid := 3\<rparr>"
  have ok: "rl_ok ?s" by (simp add: rl_ok_def rl_base_def rate_limiter_new_def)
  have "cost ?s 3 = Some 3" by (subst cost_value) (simp_all add: rate_limiter_new_def)
  then have "acquire_nowait ?s 100 3 = Some (True, ?t)"
    by (simp add: acquire_nowait_def refill_def int64_ok_def) (simp add: rate_limiter_new_def int64_ok_def)
  moreover from this have "rl_step\<^sup>*\<^sup>* ?s ?t" by (intro r_into_rtranclp nowait) (simp_all add: rate_limiter_new_def)
  ultimately show ?thesis using rate_limiter_bucket [OF ok, of ?t] by (simp add: rate_limiter_new_def)
qed

section \<open>Progress\<close>

text \<open>The timer expires with nothing in between.\<close>

definition run_timer :: "rate_limiter \<Rightarrow> rate_limiter option" where
  "run_timer s = (case rl_timer s of None \<Rightarrow> Some s | Some t \<Rightarrow> on_timer s t)"

primrec run_timers :: "nat \<Rightarrow> rate_limiter \<Rightarrow> rate_limiter option" where
  "run_timers 0 s = Some s"
| "run_timers (Suc n) s = do { s' \<leftarrow> run_timer s; run_timers n s' }"

definition waits_for :: "rate_limiter \<Rightarrow> int \<Rightarrow> nat \<Rightarrow> bool" where
  "waits_for s d i \<longleftrightarrow> rl_at s = Idle \<and> rl_duration s = 0 \<and> (\<exists>q. rl_queue s = (d, i) # q) \<and>
     rl_timer s = Some (rl_time s + min d (rl_capacity s))"

lemma run_timer_grants:
  assumes "waits_for s d i" and "d \<le> rl_capacity s" and "0 < d" and "int64_ok d"
  shows "\<exists>s'. run_timer s = Some s' \<and> granted s' = granted s @ [i] \<and> rl_time s' = rl_time s + d"
  using assms by (auto simp: waits_for_def run_timer_def on_timer_def rl_update_def refill_def update_loop_def int64_ok_def)

lemma run_timer_pays:
  assumes "waits_for s d i" and "rl_capacity s < d" and "0 < rl_capacity s" and "int64_ok (rl_time s)" and "int64_ok (rl_time s + d)" and "int64_ok d"
  shows "\<exists>s'. run_timer s = Some s' \<and> waits_for s' (d - rl_capacity s) i \<and> granted s' = granted s \<and>
    rl_time s' = rl_time s + rl_capacity s \<and> rl_capacity s' = rl_capacity s"
proof -
  let ?c = "rl_capacity s"
  have "int64_ok ?c" "int64_ok (d - ?c)" "int64_ok (rl_time s + ?c + min (d - ?c) ?c)"
    using assms(2-6) by (auto simp: int64_ok_def min_def)
  then show ?thesis using assms(1-3)
    by (auto simp: waits_for_def run_timer_def on_timer_def rl_update_def refill_def update_loop_def)
qed

text \<open>C26. A request that has to wait is granted: left alone, the limiter needs \<open>rounds\<close> expiries of its timer,
  and the callback is called exactly when the missing tokens have accrued, also when the request costs
  more than the capacity. No computation on the way overflows if the time of that moment does not.\<close>

theorem rate_limiter_grants:
  assumes "waits_for s d i" and "0 < rl_capacity s" and "0 < d" and "int64_ok d" and "int64_ok (rl_time s)" and "int64_ok (rl_time s + d)"
  shows "\<exists>rounds \<le> nat d. \<exists>s'. run_timers rounds s = Some s' \<and> granted s' = granted s @ [i] \<and> rl_time s' = rl_time s + d"
  using assms
proof (induction "nat d" arbitrary: s d rule: less_induct)
  case less
  show ?case
  proof (cases "d \<le> rl_capacity s")
    case True
    then show ?thesis using run_timer_grants [OF less.prems(1) True less.prems(3,4)] less.prems(3) by (intro exI [of _ 1]) auto
  next
    case False
    then have lt: "rl_capacity s < d" by simp
    from run_timer_pays [OF less.prems(1) lt less.prems(2,5,6,4)] obtain t where t: "run_timer s = Some t"
      and p: "waits_for t (d - rl_capacity s) i" "granted t = granted s" "rl_time t = rl_time s + rl_capacity s" "rl_capacity t = rl_capacity s"
      by blast
    have "nat (d - rl_capacity s) < nat d" "0 < rl_capacity t" "0 < d - rl_capacity s" "int64_ok (d - rl_capacity s)"
      "int64_ok (rl_time t)" "int64_ok (rl_time t + (d - rl_capacity s))"
      using less.prems lt p(3,4) by (auto simp: int64_ok_def)
    from less.hyps [OF this(1) p(1) this(2-6)] obtain r s' where
      "r \<le> nat (d - rl_capacity s)" "run_timers r t = Some s'" "granted s' = granted s @ [i]" "rl_time s' = rl_time s + d" using p by auto
    then show ?thesis using less.prems lt t by (intro exI [of _ "Suc r"]) auto
  qed
qed

theorem rate_limiter_grants_witness:
  "\<exists>s. acquire (rate_limiter_new 1000000000 5) 0 7 0 = Some s \<and> (\<exists>rounds s'. run_timers rounds s = Some s' \<and> granted s' = [0])"
proof -
  let ?s = "rate_limiter_new 1000000000 5"
  let ?t = "?s\<lparr>rl_queue := [(7, 0)], rl_timer := Some 5\<rparr>"
  have "cost ?s 7 = Some 7" by (subst cost_value) (simp_all add: rate_limiter_new_def)
  then have a: "acquire ?s 0 7 0 = Some ?t"
    by (simp add: acquire_def rate_limiter_new_def rl_update_def refill_def update_loop_def int64_ok_def)
  have "waits_for ?t 7 0" "rl_capacity ?t = 5" "granted ?t = []" "rl_time ?t = 0" by (simp_all add: waits_for_def rate_limiter_new_def)
  then show ?thesis using a rate_limiter_grants [of ?t 7 0] by (auto simp: int64_ok_def)
qed

text \<open>With a capacity of 0 a request that has to wait is never granted: the timer is set for the moment
  at which it is set, and its handler changes nothing.\<close>

lemma zero_capacity_spins:
  assumes "waits_for s d i" and "rl_capacity s = 0" and "0 < d" and "int64_ok d" and "int64_ok (rl_time s)"
  shows "run_timer s = Some s"
  using assms by (auto simp: waits_for_def run_timer_def on_timer_def rl_update_def refill_def update_loop_def int64_ok_def)

section \<open>Machine integers\<close>

text \<open>The bucket itself never overflows: the tokens in it are at most the time on the clock, so that a refill has a result
  at every representable later moment.\<close>

lemma new_bucket_within_time:
  assumes "rl_step\<^sup>*\<^sup>* (rate_limiter_new rate capacity) s" and "rate \<noteq> 0" and "0 \<le> capacity"
  shows "rl_duration s + paid s \<le> rl_time s"
proof -
  have "rl_ok (rate_limiter_new rate capacity)" using assms(2,3) by (simp add: rl_ok_def rl_base_def rate_limiter_new_def)
  from rl_steps_ok [OF assms(1) this] show ?thesis by (simp add: conserves_def rate_limiter_new_def)
qed

lemma refill_defined:
  assumes "0 \<le> rl_duration s" and "rl_duration s \<le> rl_time s" and "rl_time s \<le> t" and "int64_ok t"
  shows "\<exists>s'. refill s t = Some s'"
  using assms by (simp add: refill_def int64_ok_def)

text \<open>A single request is undefined from 9223372037 on, and every request at a rate of 0. Beyond the signed range a size
  turns negative: with a rate of 1 the largest one \<^emph>\<open>adds\<close> a second's worth of tokens to the bucket.\<close>

lemma oversized_request_undefined:
  assumes "9223372036 < unat n" and "unat n < 2 ^ 63"
  shows "acquire s now n i = None"
  using assms by (simp add: acquire_def cost_value)

lemma zero_rate_undefined: "rl_rate s = 0 \<Longrightarrow> acquire s now n i = None"
  by (simp add: acquire_def cost_def)

lemma negative_cost_mints:
  assumes "rl_rate s = 1" and "refill s now = Some s'" and "0 \<le> rl_duration s'" and "rl_duration s' + 1000000000 < 2 ^ 63"
  shows "acquire_nowait s now (- 1) = Some (True, s'\<lparr>rl_duration := rl_duration s' + 1000000000, paid := paid s' - 1000000000\<rparr>)"
proof -
  have "cost s (- 1) = Some (- 1000000000)" using assms(1) by (simp add: cost_def int64_ok_def)
  then show ?thesis using assms by (simp add: acquire_nowait_def int64_ok_def)
qed

end
