(* ===== verification/Net_Types.thy ===== *)
theory Net_Types
  imports Consume_Int
begin

text \<open>
  \<^verbatim>\<open>net/types/addr-port\<close>, \<^verbatim>\<open>net/types/host\<close> and \<^verbatim>\<open>net/types/host-port\<close>: addresses and names with ports, their
  text form and their use as command line flags; and \<^verbatim>\<open>net/ip-encoding.cc\<close>.

  \<^verbatim>\<open>net::address\<close> is the class of Boost.Asio. Its type \<open>'a\<close> and its operations are parameters, the record
  \<open>address_ops\<close>; \<open>address_laws\<close> states what is relied on: the parsers invert the printer, each on
  its own family, the empty text is no address, and the text of an IPv4 address consists of digits and dots.
\<close>

record 'a address_ops =
  is_v4 :: "'a \<Rightarrow> bool"
  is_unspecified :: "'a \<Rightarrow> bool"
  address_text :: "'a \<Rightarrow> string"
  make_address :: "string \<Rightarrow> 'a option"
  make_address_v4 :: "string \<Rightarrow> 'a option"
  make_address_v6 :: "string \<Rightarrow> 'a option"
  address_bytes :: "'a \<Rightarrow> bytes"
  address_v4_of :: "bytes \<Rightarrow> 'a"
  address_v6_of :: "bytes \<Rightarrow> 'a"

definition address_laws :: "'a address_ops \<Rightarrow> bool" where
  "address_laws ops \<longleftrightarrow>
     (\<forall>a. make_address ops (address_text ops a) = Some a) \<and>
     (\<forall>a. is_v4 ops a \<longrightarrow> make_address_v4 ops (address_text ops a) = Some a) \<and>
     (\<forall>a. \<not> is_v4 ops a \<longrightarrow> make_address_v6 ops (address_text ops a) = Some a) \<and>
     (\<forall>s a. make_address_v4 ops s = Some a \<longrightarrow> is_v4 ops a) \<and>
     (\<forall>s a. make_address_v6 ops s = Some a \<longrightarrow> \<not> is_v4 ops a) \<and>
     make_address_v4 ops [] = None \<and> make_address_v6 ops [] = None \<and> (\<forall>a. address_text ops a \<noteq> []) \<and>
     (\<forall>a c. is_v4 ops a \<and> c \<in> set (address_text ops a) \<longrightarrow> is_digit c \<or> c = CHR ''.'')"

definition bytes_laws :: "'a address_ops \<Rightarrow> bool" where
  "bytes_laws ops \<longleftrightarrow>
     (\<forall>a. length (address_bytes ops a) = (if is_v4 ops a then 4 else 16)) \<and>
     (\<forall>bs. length bs = 4 \<longrightarrow> is_v4 ops (address_v4_of ops bs) \<and> address_bytes ops (address_v4_of ops bs) = bs) \<and>
     (\<forall>bs. length bs = 16 \<longrightarrow> \<not> is_v4 ops (address_v6_of ops bs) \<and> address_bytes ops (address_v6_of ops bs) = bs)"

section \<open>Text\<close>

text \<open>\<^verbatim>\<open>absl::StrCat\<close> of a \<^verbatim>\<open>uint16_t\<close>.\<close>

fun decimal_text :: "nat \<Rightarrow> string" where
  "decimal_text n = (if n < 10 then [char_of (48 + n)] else decimal_text (n div 10) @ [char_of (48 + n mod 10)])"

declare decimal_text.simps [simp del]

definition port_text :: "u16 \<Rightarrow> string" where
  "port_text p = decimal_text (unat p)"

text \<open>\<^verbatim>\<open>std::string_view::rfind\<close>.\<close>

definition rfind :: "char \<Rightarrow> string \<Rightarrow> nat option" where
  "rfind c s =
     (let after = length (takeWhile (\<lambda>x. x \<noteq> c) (rev s))
      in if after = length s then None else Some (length s - 1 - after))"

definition bracketed :: "string \<Rightarrow> nat \<Rightarrow> bool" where
  "bracketed s pos \<longleftrightarrow> pos \<ge> 2 \<and> s ! 0 = CHR ''['' \<and> s ! (pos - 1) = CHR '']''"

section \<open>AddrPort\<close>

record 'a addr_port =
  ap_address :: 'a
  ap_port :: u16

definition addr_port_empty :: "'a address_ops \<Rightarrow> 'a addr_port \<Rightarrow> bool" where
  "addr_port_empty ops ap \<longleftrightarrow> is_unspecified ops (ap_address ap) \<and> ap_port ap = 0"

definition addr_port_to_string :: "'a address_ops \<Rightarrow> 'a addr_port \<Rightarrow> string" where
  "addr_port_to_string ops ap =
     (if is_v4 ops (ap_address ap) then address_text ops (ap_address ap) @ '':'' @ port_text (ap_port ap)
      else ''['' @ address_text ops (ap_address ap) @ '']:'' @ port_text (ap_port ap))"

definition addr_port_from_string :: "'a address_ops \<Rightarrow> string \<Rightarrow> 'a addr_port option" where
  "addr_port_from_string ops s =
     (case rfind (CHR '':'') s of
        None \<Rightarrow> None
      | Some pos \<Rightarrow>
          if pos + 1 = length s then None
          else (case (if bracketed s pos then make_address_v6 ops (take (pos - 2) (drop 1 s))
                      else make_address_v4 ops (take pos s)) of
                 None \<Rightarrow> None
               | Some address \<Rightarrow>
                   (case consume_uint16 (drop (pos + 1) s) of
                      (port, port_str) \<Rightarrow>
                        if port_str \<noteq> [] then None else Some \<lparr>ap_address = address, ap_port = port\<rparr>)))"

section \<open>Host\<close>

datatype 'a host = HostAddress 'a | HostName string

fun is_address :: "'a host \<Rightarrow> bool" where
  "is_address (HostAddress a) \<longleftrightarrow> True"
| "is_address (HostName s) \<longleftrightarrow> False"

fun host_empty :: "'a address_ops \<Rightarrow> 'a host \<Rightarrow> bool" where
  "host_empty ops (HostAddress a) \<longleftrightarrow> is_unspecified ops a"
| "host_empty ops (HostName s) \<longleftrightarrow> s = []"

fun host_to_string :: "'a address_ops \<Rightarrow> 'a host \<Rightarrow> string" where
  "host_to_string ops (HostAddress a) = address_text ops a"
| "host_to_string ops (HostName s) = s"

text \<open>The characters that a name must not have, the backslash and the two quotes by their codes.\<close>

definition forbidden :: "string" where
  "forbidden = ''@#$%^&*()+={}[]|'' @ [CHR 0x5C] @ '':;<>,?/~ '' @ [CHR 0x22, CHR 0x27]"

definition host_from_string :: "'a address_ops \<Rightarrow> string \<Rightarrow> bool option \<Rightarrow> 'a host option" where
  "host_from_string ops s address_v6_only =
     (if s = [] then None
      else let address = (case address_v6_only of
                            None \<Rightarrow> make_address ops s
                          | Some False \<Rightarrow> make_address_v4 ops s
                          | Some True \<Rightarrow> make_address_v6 ops s)
           in if address_v6_only = Some True \<and> address = None then None
              else case address of
                     Some a \<Rightarrow> Some (HostAddress a)
                   | None \<Rightarrow> if list_ex (\<lambda>c. c \<in> set forbidden) s then None else Some (HostName s))"

section \<open>HostPort\<close>

record 'a host_port =
  hp_host :: "'a host"
  hp_port :: u16

definition host_port_of_addr_port :: "'a addr_port \<Rightarrow> 'a host_port" where
  "host_port_of_addr_port ap = \<lparr>hp_host = HostAddress (ap_address ap), hp_port = ap_port ap\<rparr>"

definition host_port_empty :: "'a address_ops \<Rightarrow> 'a host_port \<Rightarrow> bool" where
  "host_port_empty ops hp \<longleftrightarrow> host_empty ops (hp_host hp) \<and> hp_port hp = 0"

definition host_port_to_string :: "'a address_ops \<Rightarrow> 'a host_port \<Rightarrow> string" where
  "host_port_to_string ops hp =
     (case hp_host hp of
        HostAddress a \<Rightarrow>
          if is_v4 ops a then address_text ops a @ '':'' @ port_text (hp_port hp)
          else ''['' @ address_text ops a @ '']:'' @ port_text (hp_port hp)
      | HostName name \<Rightarrow> name @ '':'' @ port_text (hp_port hp))"

definition host_port_from_string :: "'a address_ops \<Rightarrow> string \<Rightarrow> 'a host_port option" where
  "host_port_from_string ops s =
     (case rfind (CHR '':'') s of
        None \<Rightarrow> None
      | Some pos \<Rightarrow>
          if pos + 1 = length s then None
          else (case (if bracketed s pos then host_from_string ops (take (pos - 2) (drop 1 s)) (Some True)
                      else host_from_string ops (take pos s) (Some False)) of
                 None \<Rightarrow> None
               | Some host \<Rightarrow>
                   (case consume_uint16 (drop (pos + 1) s) of
                      (port, port_str) \<Rightarrow>
                        if port_str \<noteq> [] then None else Some \<lparr>hp_host = host, hp_port = port\<rparr>)))"

section \<open>Flags\<close>

text \<open>\<^verbatim>\<open>AbslParseFlag(in, out, error)\<close> of the three types: whether it succeeds, and the new value of \<open>out\<close>.\<close>

definition addr_port_parse_flag :: "'a address_ops \<Rightarrow> string \<Rightarrow> 'a addr_port \<Rightarrow> bool \<times> 'a addr_port" where
  "addr_port_parse_flag ops s out =
     (case addr_port_from_string ops s of None \<Rightarrow> (False, out) | Some addr_port \<Rightarrow> (True, addr_port))"

definition addr_port_unparse_flag :: "'a address_ops \<Rightarrow> 'a addr_port \<Rightarrow> string" where
  "addr_port_unparse_flag ops x = addr_port_to_string ops x"

definition host_parse_flag :: "'a address_ops \<Rightarrow> string \<Rightarrow> 'a host \<Rightarrow> bool \<times> 'a host" where
  "host_parse_flag ops s out =
     (case host_from_string ops s None of None \<Rightarrow> (False, out) | Some host \<Rightarrow> (True, host))"

definition host_unparse_flag :: "'a address_ops \<Rightarrow> 'a host \<Rightarrow> string" where
  "host_unparse_flag ops x = host_to_string ops x"

definition host_port_parse_flag :: "'a address_ops \<Rightarrow> string \<Rightarrow> 'a host_port \<Rightarrow> bool \<times> 'a host_port" where
  "host_port_parse_flag ops s out =
     (case host_port_from_string ops s of None \<Rightarrow> (False, out) | Some host_port \<Rightarrow> (True, host_port))"

definition host_port_unparse_flag :: "'a address_ops \<Rightarrow> 'a host_port \<Rightarrow> string" where
  "host_port_unparse_flag ops x = host_port_to_string ops x"

section \<open>Bytes\<close>

text \<open>\<^verbatim>\<open>net/ip-encoding.cc\<close>. The decoders for one family have the type of all addresses here.\<close>

definition ip_encode :: "'a address_ops \<Rightarrow> 'a \<Rightarrow> bytes" where
  "ip_encode ops a = address_bytes ops a"

definition ip_decode :: "'a address_ops \<Rightarrow> bytes \<Rightarrow> 'a option" where
  "ip_decode ops bs =
     (if length bs = 4 then Some (address_v4_of ops bs)
      else if length bs = 16 then Some (address_v6_of ops bs)
      else None)"

definition ip_decode_v4 :: "'a address_ops \<Rightarrow> bytes \<Rightarrow> 'a option" where
  "ip_decode_v4 ops bs = (if length bs \<noteq> 4 then None else Some (address_v4_of ops bs))"

definition ip_decode_v6 :: "'a address_ops \<Rightarrow> bytes \<Rightarrow> 'a option" where
  "ip_decode_v6 ops bs = (if length bs \<noteq> 16 then None else Some (address_v6_of ops bs))"

section \<open>Text lemmas\<close>

lemma decimal_text_digits: "list_all is_digit (decimal_text n)" and decimal_text_nonempty: "decimal_text n \<noteq> []"
  and decimal_text_value: "decimal_value (decimal_text n) = n"
proof (induction n rule: decimal_text.induct)
  case (1 n)
  have d: "is_digit (char_of (48 + k))" "digit_value (char_of (48 + k)) = k" if "k < 10" for k :: nat
    using that by (simp_all add: is_digit_def digit_value_def)
  { case 1 show ?case using "1.IH" d by (simp add: decimal_text.simps [of n]) }
  { case 2 show ?case by (simp add: decimal_text.simps [of n]) }
  { case 3 show ?case using "1.IH" d
      by (auto simp: decimal_text.simps [of n] decimal_value_snoc) (simp add: decimal_value_def) }
qed

lemma port_text_facts: "list_all is_digit (port_text p)" "port_text p \<noteq> []" "CHR '':'' \<notin> set (port_text p)"
  using decimal_text_digits [of "unat p"] decimal_text_nonempty [of "unat p"]
  by (auto simp: port_text_def list_all_iff is_digit_def)

lemma consume_port_text: "consume_uint16 (port_text p) = (p, [])"
proof -
  have "(consume_int_wrapping (port_text p @ []) :: u16 \<times> string) = (of_nat (decimal_value (port_text p)), [])"
    by (rule consume_int_wrapping_digits) (simp_all add: port_text_facts digits_end_def)
  then show ?thesis by (simp add: consume_uint16_def port_text_def decimal_text_value)
qed

lemma rfind_append:
  assumes "c \<notin> set p"
  shows "rfind c (h @ c # p) = Some (length h)"
proof -
  have "takeWhile (\<lambda>x. x \<noteq> c) (rev p @ c # rev h) = rev p" using assms by (subst takeWhile_append2) auto
  then show ?thesis by (simp add: rfind_def Let_def)
qed

lemma bracketed_append:
  assumes "h \<noteq> []"
  shows "bracketed (h @ r) (length h) \<longleftrightarrow> bracketed h (length h)"
  using assms by (simp add: bracketed_def nth_append)

text \<open>What the parsers do on a host followed by a colon and a text without colons.\<close>

lemma addr_port_from_split:
  assumes "h \<noteq> []" and "CHR '':'' \<notin> set p" and "p \<noteq> []"
  shows "addr_port_from_string ops (h @ '':'' @ p) =
    (case (if bracketed h (length h) then make_address_v6 ops (butlast (tl h)) else make_address_v4 ops h) of
       None \<Rightarrow> None
     | Some a \<Rightarrow> (case consume_uint16 p of (port, r) \<Rightarrow> if r \<noteq> [] then None else Some \<lparr>ap_address = a, ap_port = port\<rparr>))"
proof -
  have "take (length h - 2) (drop 1 (h @ CHR '':'' # p)) = butlast (tl h)"
    using assms(1) by (cases h) (auto simp: butlast_conv_take)
  then show ?thesis using assms
    by (auto simp: addr_port_from_string_def rfind_append bracketed_append split: option.split)
qed

lemma host_port_from_split:
  assumes "h \<noteq> []" and "CHR '':'' \<notin> set p" and "p \<noteq> []"
  shows "host_port_from_string ops (h @ '':'' @ p) =
    (case (if bracketed h (length h) then host_from_string ops (butlast (tl h)) (Some True)
           else host_from_string ops h (Some False)) of
       None \<Rightarrow> None
     | Some a \<Rightarrow> (case consume_uint16 p of (port, r) \<Rightarrow> if r \<noteq> [] then None else Some \<lparr>hp_host = a, hp_port = port\<rparr>))"
proof -
  have "take (length h - 2) (drop 1 (h @ CHR '':'' # p)) = butlast (tl h)"
    using assms(1) by (cases h) (auto simp: butlast_conv_take)
  then show ?thesis using assms
    by (auto simp: host_port_from_string_def rfind_append bracketed_append split: option.split)
qed

lemma addr_port_from_print:
  "h \<noteq> [] \<Longrightarrow> addr_port_from_string ops (h @ CHR '':'' # port_text p) =
    map_option (\<lambda>a. \<lparr>ap_address = a, ap_port = p\<rparr>)
      (if bracketed h (length h) then make_address_v6 ops (butlast (tl h)) else make_address_v4 ops h)"
  using addr_port_from_split [of h "port_text p" ops]
  by (auto simp: port_text_facts consume_port_text split: option.split)

lemma host_port_from_print:
  "h \<noteq> [] \<Longrightarrow> host_port_from_string ops (h @ CHR '':'' # port_text p) =
    map_option (\<lambda>a. \<lparr>hp_host = a, hp_port = p\<rparr>)
      (if bracketed h (length h) then host_from_string ops (butlast (tl h)) (Some True) else host_from_string ops h (Some False))"
  using host_port_from_split [of h "port_text p" ops]
  by (auto simp: port_text_facts consume_port_text split: option.split)

lemma bracketed_brackets [simp]: "bracketed (CHR ''['' # a @ '']'') (Suc (Suc (length a)))"
  by (simp add: bracketed_def nth_append)

lemma not_bracketed: "CHR ''['' \<notin> set h \<Longrightarrow> \<not> bracketed h (length h)"
  by (cases h) (auto simp: bracketed_def)

section \<open>Types with a text form\<close>

text \<open>The contract of a type that is read from and written to text: under what is assumed of the library
  (\<open>lib\<close>), printing a valid value and parsing gives it back, and the parser only returns valid values.\<close>

locale text_form =
  fixes lib :: bool and to_text :: "'x \<Rightarrow> string" and from_text :: "string \<Rightarrow> 'x option" and valid :: "'x \<Rightarrow> bool"
  assumes print_parse: "lib \<Longrightarrow> valid x \<Longrightarrow> from_text (to_text x) = Some x"
    and parse_valid: "lib \<Longrightarrow> from_text s = Some x \<Longrightarrow> valid x"
begin

lemma parse_print_parse: "lib \<Longrightarrow> from_text s = Some x \<Longrightarrow> from_text (to_text x) = Some x"
  by (rule print_parse) (auto intro: parse_valid)

lemma to_text_inj: "lib \<Longrightarrow> inj_on to_text {x. valid x}"
  by (rule inj_onI) (metis mem_Collect_eq option.inject print_parse)

lemma valid_iff: "lib \<Longrightarrow> valid x \<longleftrightarrow> (\<exists>s. from_text s = Some x)"
  using print_parse parse_valid by blast

end

lemma addr_port_eta [simp]: "\<lparr>ap_address = ap_address x, ap_port = ap_port x\<rparr> = (x :: 'a addr_port)"
  by (cases x) simp

lemma host_port_eta: "hp_host x = h \<Longrightarrow> \<lparr>hp_host = h, hp_port = hp_port x\<rparr> = (x :: 'a host_port)"
  by (cases x) simp

lemma v4_text_no_bracket:
  assumes "address_laws ops" and "is_v4 ops a"
  shows "CHR ''['' \<notin> set (address_text ops a)"
proof
  assume "CHR ''['' \<in> set (address_text ops a)"
  then have "is_digit (CHR ''['') \<or> CHR ''['' = CHR ''.''" using assms by (simp only: address_laws_def)
  then show False by (simp add: is_digit_def)
qed

interpretation addr_port: text_form "address_laws ops" "addr_port_to_string ops" "addr_port_from_string ops" "\<lambda>x. True" for ops
proof (unfold_locales, goal_cases)
  case (1 x)
  let ?a = "ap_address x"
  have ne: "address_text ops ?a \<noteq> []" using 1 by (simp add: address_laws_def)
  show ?case
  proof (cases "is_v4 ops ?a")
    case True
    have "make_address_v4 ops (address_text ops ?a) = Some ?a" using 1 True by (simp add: address_laws_def)
    with True show ?thesis
      using addr_port_from_print [OF ne, of ops "ap_port x"] not_bracketed [OF v4_text_no_bracket [OF 1(1) True]]
      by (simp add: addr_port_to_string_def)
  next
    case False
    have "make_address_v6 ops (address_text ops ?a) = Some ?a" using 1 False by (simp add: address_laws_def)
    with False show ?thesis
      using addr_port_from_print [of "CHR ''['' # address_text ops ?a @ '']''" ops "ap_port x"]
      by (simp add: addr_port_to_string_def butlast_append)
  qed
qed simp

text \<open>The names that are read back as names: not empty, without forbidden characters, and not an IPv4 address.\<close>

definition name_ok :: "(string \<Rightarrow> 'a option) \<Rightarrow> string \<Rightarrow> bool" where
  "name_ok parse name \<longleftrightarrow> name \<noteq> [] \<and> \<not> list_ex (\<lambda>c. c \<in> set forbidden) name \<and> parse name = None"

fun host_ok :: "(string \<Rightarrow> 'a option) \<Rightarrow> 'a host \<Rightarrow> bool" where
  "host_ok parse (HostAddress a) \<longleftrightarrow> True"
| "host_ok parse (HostName s) \<longleftrightarrow> name_ok parse s"

interpretation host: text_form "address_laws ops" "host_to_string ops" "\<lambda>s. host_from_string ops s None" "host_ok (make_address ops)" for ops
proof (unfold_locales, goal_cases)
  case (1 x)
  then show ?case by (cases x) (auto simp: host_from_string_def address_laws_def name_ok_def)
next
  case (2 s x)
  then show ?case by (auto simp: host_from_string_def name_ok_def Let_def split: if_splits option.splits)
qed

lemma host_from_string_ok:
  "host_from_string ops s (Some v6) = Some x \<Longrightarrow> host_ok (make_address_v4 ops) x"
  by (cases v6) (auto simp: host_from_string_def name_ok_def Let_def split: if_splits option.splits)

lemma name_no_bracket: "name_ok parse name \<Longrightarrow> CHR ''['' \<notin> set name"
  by (auto simp: name_ok_def list_ex_iff forbidden_def)

interpretation host_port: text_form "address_laws ops" "host_port_to_string ops" "host_port_from_string ops"
  "\<lambda>x. host_ok (make_address_v4 ops) (hp_host x)" for ops
proof (unfold_locales, goal_cases)
  case (1 x)
  note split = host_port_from_print [of _ ops "hp_port x"]
  show ?case
  proof (cases "hp_host x")
    case (HostAddress a)
    have ne: "address_text ops a \<noteq> []" using 1 by (simp add: address_laws_def)
    show ?thesis
    proof (cases "is_v4 ops a")
      case True
      have "make_address_v4 ops (address_text ops a) = Some a" using 1 True by (simp add: address_laws_def)
      with True HostAddress ne show ?thesis
        using host_port_eta [OF HostAddress] split [OF ne] not_bracketed [OF v4_text_no_bracket [OF 1(1) True]]
        by (simp add: host_port_to_string_def host_from_string_def)
    next
      case False
      have "make_address_v6 ops (address_text ops a) = Some a" using 1 False by (simp add: address_laws_def)
      with False HostAddress ne show ?thesis
        using host_port_eta [OF HostAddress] split [of "CHR ''['' # address_text ops a @ '']''"]
        by (simp add: host_port_to_string_def host_from_string_def butlast_append)
    qed
  next
    case (HostName name)
    then have n: "name_ok (make_address_v4 ops) name" using 1 by simp
    then have ne: "name \<noteq> []" by (simp add: name_ok_def)
    with HostName n show ?thesis using host_port_eta [OF HostName] split [OF ne] not_bracketed [OF name_no_bracket [OF n]]
      by (simp add: host_port_to_string_def host_from_string_def name_ok_def)
  qed
next
  case (2 s x)
  then show ?case
    by (auto simp: host_port_from_string_def split: option.splits if_splits prod.splits dest: host_from_string_ok)
qed

section \<open>Properties\<close>

text \<open>An example library with two addresses, and one whose addresses are their bytes.\<close>

definition sample_addresses :: "bool address_ops" where
  "sample_addresses =
     \<lparr>is_v4 = \<lambda>a. a, is_unspecified = \<lambda>a. False, address_text = \<lambda>a. if a then ''10.0.0.1'' else ''::1'',
      make_address = \<lambda>s. if s = ''10.0.0.1'' then Some True else if s = ''::1'' then Some False else None,
      make_address_v4 = \<lambda>s. if s = ''10.0.0.1'' then Some True else None,
      make_address_v6 = \<lambda>s. if s = ''::1'' then Some False else None,
      address_bytes = \<lambda>a. [], address_v4_of = \<lambda>bs. True, address_v6_of = \<lambda>bs. False\<rparr>"

typedef sample_bytes = "{bs :: bytes. length bs = 4 \<or> length bs = 16}"
  by (rule exI [of _ "[0, 0, 0, 0]"]) simp

definition byte_addresses :: "sample_bytes address_ops" where
  "byte_addresses =
     \<lparr>is_v4 = \<lambda>a. length (Rep_sample_bytes a) = 4, is_unspecified = \<lambda>a. False, address_text = \<lambda>a. [],
      make_address = \<lambda>s. None, make_address_v4 = \<lambda>s. None, make_address_v6 = \<lambda>s. None,
      address_bytes = Rep_sample_bytes, address_v4_of = Abs_sample_bytes, address_v6_of = Abs_sample_bytes\<rparr>"

lemma sample_addresses_laws: "address_laws sample_addresses"
  by (auto simp: address_laws_def sample_addresses_def is_digit_def)

lemma byte_addresses_laws: "bytes_laws byte_addresses"
  using Rep_sample_bytes by (auto simp: bytes_laws_def byte_addresses_def Abs_sample_bytes_inverse)

lemma host_of_addr_port_text:
  assumes "address_laws ops" and "addr_port_from_string ops s = Some ap"
  shows "host_port_from_string ops s = Some (host_port_of_addr_port ap)"
proof -
  have v4: "host_from_string ops t (Some False) = Some (HostAddress a)" if "make_address_v4 ops t = Some a" for t a
    using that assms(1) by (auto simp: host_from_string_def address_laws_def)
  have v6: "host_from_string ops t (Some True) = Some (HostAddress a)" if "make_address_v6 ops t = Some a" for t a
    using that assms(1) by (auto simp: host_from_string_def address_laws_def)
  show ?thesis using assms(2)
    by (auto simp: addr_port_from_string_def host_port_from_string_def host_port_of_addr_port_def v4 v6
        split: option.splits if_splits prod.splits)
qed

text \<open>C27. Host and port as a command line flag: what \<^verbatim>\<open>HostPort::from_string\<close> can return are exactly the IPv4 and
  IPv6 addresses and the non-empty names without forbidden characters that are not IPv4 addresses, with any port;
  and each of them is read back from its printed form.\<close>

theorem host_port_text_roundtrip:
  assumes "address_laws ops"
  shows "(\<exists>s. host_port_from_string ops s = Some x) = host_ok (make_address_v4 ops) (hp_host x) \<and>
    (host_ok (make_address_v4 ops) (hp_host x) \<longrightarrow>
       host_port_parse_flag ops (host_port_unparse_flag ops x) out = (True, x))"
  using assms host_port.valid_iff [of ops x] host_port.print_parse [of ops x]
  by (auto simp: host_port_parse_flag_def host_port_unparse_flag_def)

theorem host_port_text_roundtrip_witness:
  "host_port_parse_flag sample_addresses (host_port_unparse_flag sample_addresses \<lparr>hp_host = HostName ''ice-boy.cn'', hp_port = 443\<rparr>)
     \<lparr>hp_host = HostName [], hp_port = 0\<rparr> = (True, \<lparr>hp_host = HostName ''ice-boy.cn'', hp_port = 443\<rparr>)"
proof -
  have "host_ok (make_address_v4 sample_addresses) (HostName ''ice-boy.cn'')"
    by (simp add: name_ok_def forbidden_def sample_addresses_def)
  then show ?thesis
    using host_port_text_roundtrip [OF sample_addresses_laws, of "\<lparr>hp_host = HostName ''ice-boy.cn'', hp_port = 443\<rparr>"] by simp
qed

text \<open>Every address with a port is read back from its printed form, different ones print differently, and a
  text that \<^verbatim>\<open>AddrPort::from_string\<close> accepts means the same to \<^verbatim>\<open>HostPort::from_string\<close>.\<close>

theorem addr_port_text_roundtrip:
  assumes "address_laws ops"
  shows "addr_port_parse_flag ops (addr_port_unparse_flag ops x) out = (True, x) \<and> inj (addr_port_to_string ops) \<and>
    (addr_port_from_string ops s = Some ap \<longrightarrow> host_port_from_string ops s = Some (host_port_of_addr_port ap))"
  using assms addr_port.print_parse [of ops x] addr_port.to_text_inj [of ops] host_of_addr_port_text [of ops s ap]
  by (simp add: addr_port_parse_flag_def addr_port_unparse_flag_def)

theorem addr_port_text_roundtrip_witness:
  "addr_port_parse_flag sample_addresses (addr_port_unparse_flag sample_addresses \<lparr>ap_address = False, ap_port = 53\<rparr>)
     \<lparr>ap_address = True, ap_port = 0\<rparr> = (True, \<lparr>ap_address = False, ap_port = 53\<rparr>)"
  using addr_port_text_roundtrip [OF sample_addresses_laws] by blast



text \<open>Addresses as bytes: decoding accepts exactly 4 and 16 bytes, what it returns encodes to the same bytes and is
  an IPv4 address for 4, the decoders for one family agree with it, and every encoding can be decoded.\<close>

theorem ip_encoding_roundtrip:
  assumes "bytes_laws ops"
  shows "(ip_decode ops bs \<noteq> None) = (length bs = 4 \<or> length bs = 16) \<and>
    (ip_decode ops bs = Some a \<longrightarrow> ip_encode ops a = bs \<and> is_v4 ops a = (length bs = 4) \<and>
       (if is_v4 ops a then ip_decode_v4 ops bs else ip_decode_v6 ops bs) = Some a) \<and>
    (\<exists>c. ip_decode ops (ip_encode ops b) = Some c \<and> ip_encode ops c = ip_encode ops b)"
proof -
  have "length (address_bytes ops b) = 4 \<or> length (address_bytes ops b) = 16"
    using assms by (simp add: bytes_laws_def)
  then show ?thesis using assms
    by (auto simp: bytes_laws_def ip_encode_def ip_decode_def ip_decode_v4_def ip_decode_v6_def)
qed

theorem ip_encoding_roundtrip_witness:
  "ip_decode byte_addresses [1, 2, 3, 4] \<noteq> None"
  using ip_encoding_roundtrip [OF byte_addresses_laws, of "[1, 2, 3, 4]"] by simp

end
