(* ===== verification/Asio_Flags.thy ===== *)
theory Asio_Flags
  imports Net_Types
begin

text \<open>
  \<^verbatim>\<open>net/asio-flags.cc\<close>: addresses as command line flags. An empty flag is the default address of its class; a flag
  that is no address leaves the default address too, because the parsers of Boost.Asio return one with the error,
  and is reported. The three overloads differ in the parser and in the default. The text of the error is not modelled.
\<close>

definition parse_address_flag :: "'a \<Rightarrow> (string \<Rightarrow> 'a option) \<Rightarrow> string \<Rightarrow> bool \<times> 'a" where
  "parse_address_flag dflt parse s =
     (if s = [] then (True, dflt) else case parse s of None \<Rightarrow> (False, dflt) | Some a \<Rightarrow> (True, a))"

definition address_parse_flag :: "'a address_ops \<Rightarrow> 'a \<Rightarrow> string \<Rightarrow> bool \<times> 'a" where
  "address_parse_flag ops dflt s = parse_address_flag dflt (make_address ops) s"

definition address_v4_parse_flag :: "'a address_ops \<Rightarrow> 'a \<Rightarrow> string \<Rightarrow> bool \<times> 'a" where
  "address_v4_parse_flag ops dflt s = parse_address_flag dflt (make_address_v4 ops) s"

definition address_v6_parse_flag :: "'a address_ops \<Rightarrow> 'a \<Rightarrow> string \<Rightarrow> bool \<times> 'a" where
  "address_v6_parse_flag ops dflt s = parse_address_flag dflt (make_address_v6 ops) s"

definition address_unparse_flag :: "'a address_ops \<Rightarrow> 'a \<Rightarrow> string" where
  "address_unparse_flag ops a = address_text ops a"

interpretation address: text_form "address_laws ops" "address_unparse_flag ops" "make_address ops" "\<lambda>_. True" for ops
  by unfold_locales (simp_all add: address_laws_def address_unparse_flag_def)

interpretation address_v4: text_form "address_laws ops" "address_unparse_flag ops" "make_address_v4 ops" "is_v4 ops" for ops
proof unfold_locales
  show "make_address_v4 ops (address_unparse_flag ops x) = Some x" if "address_laws ops" "is_v4 ops x" for x
    using that by (simp add: address_laws_def address_unparse_flag_def)
  show "is_v4 ops x" if "address_laws ops" "make_address_v4 ops s = Some x" for s x
    using that unfolding address_laws_def by blast
qed

interpretation address_v6: text_form "address_laws ops" "address_unparse_flag ops" "make_address_v6 ops" "\<lambda>a. \<not> is_v4 ops a" for ops
proof unfold_locales
  show "make_address_v6 ops (address_unparse_flag ops x) = Some x" if "address_laws ops" "\<not> is_v4 ops x" for x
    using that by (simp add: address_laws_def address_unparse_flag_def)
  show "\<not> is_v4 ops x" if "address_laws ops" "make_address_v6 ops s = Some x" for s x
    using that unfolding address_laws_def by blast
qed

text \<open>Flags keep addresses: what \<^verbatim>\<open>AbslUnparseFlag\<close> writes, \<^verbatim>\<open>AbslParseFlag\<close> reads back, each class on its own addresses; and a flag
  of one class of addresses is only ever set to its default or to an address of that class.\<close>

theorem address_flags:
  assumes "address_laws ops" and "is_v4 ops default4" and "\<not> is_v4 ops default6"
  shows "address_parse_flag ops dflt (address_unparse_flag ops a) = (True, a)"
    and "is_v4 ops a \<Longrightarrow> address_v4_parse_flag ops default4 (address_unparse_flag ops a) = (True, a)"
    and "\<not> is_v4 ops a \<Longrightarrow> address_v6_parse_flag ops default6 (address_unparse_flag ops a) = (True, a)"
    and "is_v4 ops (snd (address_v4_parse_flag ops default4 s))"
    and "\<not> is_v4 ops (snd (address_v6_parse_flag ops default6 s))"
proof -
  have ne: "address_unparse_flag ops a \<noteq> []" using assms(1) by (simp add: address_laws_def address_unparse_flag_def)
  show "address_parse_flag ops dflt (address_unparse_flag ops a) = (True, a)"
    using address.print_parse [OF assms(1)] ne by (simp add: address_parse_flag_def parse_address_flag_def)
  show "is_v4 ops a \<Longrightarrow> address_v4_parse_flag ops default4 (address_unparse_flag ops a) = (True, a)"
    using address_v4.print_parse [OF assms(1)] ne by (simp add: address_v4_parse_flag_def parse_address_flag_def)
  show "\<not> is_v4 ops a \<Longrightarrow> address_v6_parse_flag ops default6 (address_unparse_flag ops a) = (True, a)"
    using address_v6.print_parse [OF assms(1)] ne by (simp add: address_v6_parse_flag_def parse_address_flag_def)
  show "is_v4 ops (snd (address_v4_parse_flag ops default4 s))"
    using address_v4.parse_valid [OF assms(1)] assms(2) by (auto simp: address_v4_parse_flag_def parse_address_flag_def split: option.split)
  show "\<not> is_v4 ops (snd (address_v6_parse_flag ops default6 s))"
    using address_v6.parse_valid [OF assms(1)] assms(3) by (auto simp: address_v6_parse_flag_def parse_address_flag_def split: option.split)
qed

end
