(* ===== verification/Net_Values.thy ===== *)
theory Net_Values
  imports Asio_Flags
begin

text \<open>
  The classes \<^verbatim>\<open>AddrPort\<close>, \<^verbatim>\<open>Host\<close> and \<^verbatim>\<open>HostPort\<close> of \<^verbatim>\<open>net/types\<close> as values: constructors, accessors, conversions and
  comparison. \<^verbatim>\<open>Host\<close> is a \<^verbatim>\<open>std::variant\<close> of an address and a name; an accessor of the other alternative
  throws \<^verbatim>\<open>std::bad_variant_access\<close>, here \<open>None\<close>. \<open>unspecified\<close> is the address that the default constructor of the
  address class makes. Endpoints of Boost.Asio are pairs of an address and a port.
\<close>

section \<open>AddrPort\<close>

definition addr_port_default :: "'a \<Rightarrow> 'a addr_port" where
  "addr_port_default unspecified = \<lparr>ap_address = unspecified, ap_port = 0\<rparr>"

definition addr_port_set_address :: "'a \<Rightarrow> 'a addr_port \<Rightarrow> 'a addr_port" where
  "addr_port_set_address a ap = ap\<lparr>ap_address := a\<rparr>"

definition addr_port_set_port :: "u16 \<Rightarrow> 'a addr_port \<Rightarrow> 'a addr_port" where
  "addr_port_set_port p ap = ap\<lparr>ap_port := p\<rparr>"

definition addr_port_endpoint :: "'a addr_port \<Rightarrow> 'a \<times> u16" where
  "addr_port_endpoint ap = (ap_address ap, ap_port ap)"

definition addr_port_eq :: "'a addr_port \<Rightarrow> 'a addr_port \<Rightarrow> bool" where
  "addr_port_eq a b \<longleftrightarrow> ap_address a = ap_address b \<and> ap_port a = ap_port b"

section \<open>Host\<close>

definition host_default :: "'a \<Rightarrow> 'a host" where
  "host_default unspecified = HostAddress unspecified"

fun is_name :: "'a host \<Rightarrow> bool" where
  "is_name (HostAddress a) \<longleftrightarrow> False"
| "is_name (HostName s) \<longleftrightarrow> True"

fun host_address :: "'a host \<Rightarrow> 'a option" where
  "host_address (HostAddress a) = Some a"
| "host_address (HostName s) = None"

fun host_name :: "'a host \<Rightarrow> string option" where
  "host_name (HostAddress a) = None"
| "host_name (HostName s) = Some s"

definition host_set_address :: "'a \<Rightarrow> 'a host \<Rightarrow> 'a host" where
  "host_set_address a h = HostAddress a"

definition host_set_name :: "string \<Rightarrow> 'a host \<Rightarrow> 'a host" where
  "host_set_name s h = HostName s"

fun host_eq :: "'a host \<Rightarrow> 'a host \<Rightarrow> bool" where
  "host_eq (HostAddress a) (HostAddress b) \<longleftrightarrow> a = b"
| "host_eq (HostName s) (HostName t) \<longleftrightarrow> s = t"
| "host_eq _ _ \<longleftrightarrow> False"

section \<open>HostPort\<close>

definition host_port_default :: "'a \<Rightarrow> 'a host_port" where
  "host_port_default unspecified = \<lparr>hp_host = host_default unspecified, hp_port = 0\<rparr>"

definition is_addr_port :: "'a host_port \<Rightarrow> bool" where
  "is_addr_port hp \<longleftrightarrow> is_address (hp_host hp)"

definition is_name_port :: "'a host_port \<Rightarrow> bool" where
  "is_name_port hp \<longleftrightarrow> is_name (hp_host hp)"

definition host_port_address :: "'a host_port \<Rightarrow> 'a option" where
  "host_port_address hp = host_address (hp_host hp)"

definition host_port_name :: "'a host_port \<Rightarrow> string option" where
  "host_port_name hp = host_name (hp_host hp)"

definition host_port_set_port :: "u16 \<Rightarrow> 'a host_port \<Rightarrow> 'a host_port" where
  "host_port_set_port p hp = hp\<lparr>hp_port := p\<rparr>"

definition host_port_endpoint :: "'a host_port \<Rightarrow> ('a \<times> u16) option" where
  "host_port_endpoint hp = map_option (\<lambda>a. (a, hp_port hp)) (host_address (hp_host hp))"

definition host_port_addr_port :: "'a host_port \<Rightarrow> 'a addr_port option" where
  "host_port_addr_port hp = map_option (\<lambda>a. \<lparr>ap_address = a, ap_port = hp_port hp\<rparr>) (host_address (hp_host hp))"

definition host_port_eq :: "'a host_port \<Rightarrow> 'a host_port \<Rightarrow> bool" where
  "host_port_eq a b \<longleftrightarrow> host_eq (hp_host a) (hp_host b) \<and> hp_port a = hp_port b"

section \<open>Lemmas\<close>

lemma eq_is_equality [simp]: "addr_port_eq a b \<longleftrightarrow> a = b" "host_eq h k \<longleftrightarrow> h = k" "host_port_eq x y \<longleftrightarrow> x = y"
proof -
  show h: "host_eq h k \<longleftrightarrow> h = k" for h k :: "'d host" by (cases h; cases k) auto
  show "addr_port_eq a b \<longleftrightarrow> a = b" by (auto simp: addr_port_eq_def)
  show "host_port_eq x y \<longleftrightarrow> x = y" by (auto simp: host_port_eq_def h)
qed

text \<open>The default values are empty.\<close>

lemma default_empty:
  assumes "is_unspecified ops unspecified"
  shows "addr_port_empty ops (addr_port_default unspecified)" and "host_port_empty ops (host_port_default unspecified)"
  using assms by (simp_all add: addr_port_empty_def addr_port_default_def host_port_empty_def host_port_default_def host_default_def)

lemma host_address_parsed:
  assumes "address_laws ops"
  shows "Option.bind (host_from_string ops s (Some True)) host_address = make_address_v6 ops s"
    and "Option.bind (host_from_string ops s (Some False)) host_address = make_address_v4 ops s"
  using assms by (auto simp: host_from_string_def address_laws_def Let_def split: option.split)

lemma addr_port_is_host_port:
  assumes "address_laws ops"
  shows "addr_port_from_string ops s = Option.bind (host_port_from_string ops s) host_port_addr_port"
proof (cases "rfind (CHR '':'') s")
  case None
  then show ?thesis by (simp add: addr_port_from_string_def host_port_from_string_def)
next
  case (Some pos)
  let ?h = "if bracketed s pos then host_from_string ops (take (pos - 2) (drop 1 s)) (Some True)
    else host_from_string ops (take pos s) (Some False)"
  have "(if bracketed s pos then make_address_v6 ops (take (pos - 2) (drop 1 s)) else make_address_v4 ops (take pos s)) =
      Option.bind ?h host_address"
    by (simp add: host_address_parsed [OF assms])
  then show ?thesis
    by (cases ?h) (auto simp: Some addr_port_from_string_def host_port_from_string_def host_port_addr_port_def
        split: option.split prod.split)
qed

text \<open>C28. The alternatives of \<^verbatim>\<open>HostPort\<close> are kept apart: a value is an address with a port or a name with a port, never both, and
  the accessors and conversions of the other alternative throw. Those with an address are exactly the conversions
  of \<^verbatim>\<open>AddrPort\<close> values, with the same text, the same endpoint and the same flag; and
  \<^verbatim>\<open>AddrPort::from_string\<close> returns for every text what \<^verbatim>\<open>HostPort::from_string\<close> returns, if that is an address, and
  nothing otherwise.\<close>

theorem host_port_alternatives:
  assumes "address_laws ops"
  shows "is_addr_port hp \<noteq> is_name_port hp \<and>
    (is_addr_port hp \<longleftrightarrow> host_port_address hp \<noteq> None) \<and> (is_name_port hp \<longleftrightarrow> host_port_name hp \<noteq> None) \<and>
    (is_addr_port hp \<longleftrightarrow> host_port_endpoint hp \<noteq> None) \<and>
    (\<forall>ap. host_port_addr_port hp = Some ap \<longleftrightarrow> hp = host_port_of_addr_port ap) \<and>
    (\<forall>ap. host_port_to_string ops (host_port_of_addr_port ap) = addr_port_to_string ops ap \<and>
       host_port_endpoint (host_port_of_addr_port ap) = Some (addr_port_endpoint ap)) \<and>
    (\<forall>s. addr_port_from_string ops s = Option.bind (host_port_from_string ops s) host_port_addr_port)"
proof -
  have "host_port_addr_port hp = Some ap \<longleftrightarrow> hp = host_port_of_addr_port ap" for ap
    by (cases hp; cases ap; cases "hp_host hp") (auto simp: host_port_addr_port_def host_port_of_addr_port_def)
  moreover have "host_port_to_string ops (host_port_of_addr_port ap) = addr_port_to_string ops ap \<and>
      host_port_endpoint (host_port_of_addr_port ap) = Some (addr_port_endpoint ap)" for ap
    by (simp add: host_port_to_string_def host_port_of_addr_port_def addr_port_to_string_def host_port_endpoint_def addr_port_endpoint_def)
  ultimately show ?thesis using addr_port_is_host_port [OF assms]
    by (cases "hp_host hp") (simp_all add: is_addr_port_def is_name_port_def host_port_address_def host_port_name_def host_port_endpoint_def)
qed

theorem host_port_alternatives_witness:
  "addr_port_from_string sample_addresses ''ice:80'' = Option.bind (host_port_from_string sample_addresses ''ice:80'') host_port_addr_port \<and>
   is_name_port \<lparr>hp_host = (HostName ''ice'' :: bool host), hp_port = 80\<rparr> \<and>
   host_port_address \<lparr>hp_host = (HostName ''ice'' :: bool host), hp_port = 80\<rparr> = None"
  using host_port_alternatives [OF sample_addresses_laws, of "\<lparr>hp_host = HostName ''ice'', hp_port = 80\<rparr>"]
  by (elim conjE) (simp only: is_addr_port_def is_name_port_def host_port.select_convs is_address.simps is_name.simps simp_thms)

end
