(* ===== verification/Net_System.thy ===== *)
theory Net_System
  imports Trunk_Prelude
begin

text \<open>
  \<^verbatim>\<open>net/types/stream.h\<close>, \<^verbatim>\<open>datagram.h\<close>, \<^verbatim>\<open>connector.h\<close> and \<^verbatim>\<open>resolver.h\<close>: the abstract classes as records of their operations over
  the state \<open>'s\<close> of an object; \<^verbatim>\<open>net/system\<close>, which implements them with the sockets of the system; and
  \<^verbatim>\<open>net/blocking-result.h\<close>. A span of buffers to read into is the sum of its sizes, one to write the bytes it holds.

  The socket classes of
  Boost.Asio are a parameter, the record \<open>socket_calls\<close> over a socket state \<open>'s\<close>; \<open>socket_laws\<close> states what is documented of
  the calls that succeed, by what can be observed of a socket: its peer, the options set on it and the bytes
  sent. A coroutine runs its calls one after the other, so it is a function here. When it returns an error the socket is
  destroyed with the stream that owns it.
\<close>

section \<open>Interfaces\<close>

record 's stream_ops =
  st_read :: "'s \<Rightarrow> nat \<Rightarrow> (errc + bytes) \<times> 's"
  st_write :: "'s \<Rightarrow> bytes \<Rightarrow> (errc + nat) \<times> 's"
  st_close :: "'s \<Rightarrow> 's"

record ('s, 'e) datagram_ops =
  dg_receive_from :: "'s \<Rightarrow> nat \<Rightarrow> (errc + bytes \<times> 'e) \<times> 's"
  dg_send_to :: "'s \<Rightarrow> bytes \<Rightarrow> 'e \<Rightarrow> (errc + nat) \<times> 's"
  dg_close :: "'s \<Rightarrow> 's"

text \<open>A connector makes objects: a state with the operations on it.\<close>

record ('s, 'd, 'e) connector_ops =
  cn_connect :: "'e \<Rightarrow> bytes \<Rightarrow> errc + ('s stream_ops \<times> 's)"
  cn_bind :: "'e \<Rightarrow> errc + (('d, 'e) datagram_ops \<times> 'd)"

record 'a resolver_ops =
  rs_resolve :: "string \<Rightarrow> errc + 'a list"

section \<open>Sockets\<close>

datatype socket_option = No_delay | Fast_open_connect

record ('s, 'e) socket_calls =
  sk_new :: 's
  sk_open :: "'s \<Rightarrow> 'e \<Rightarrow> errc option \<times> 's"
  sk_set_option :: "'s \<Rightarrow> socket_option \<Rightarrow> errc option \<times> 's"
  sk_connect :: "'s \<Rightarrow> 'e \<Rightarrow> errc option \<times> 's"
  sk_write :: "'s \<Rightarrow> bytes \<Rightarrow> errc option \<times> 's"
  sk_bind :: "'s \<Rightarrow> 'e \<Rightarrow> errc option \<times> 's"
  sk_read_some :: "'s \<Rightarrow> nat \<Rightarrow> (errc + bytes) \<times> 's"
  sk_write_some :: "'s \<Rightarrow> bytes \<Rightarrow> (errc + nat) \<times> 's"
  sk_receive_from :: "'s \<Rightarrow> nat \<Rightarrow> (errc + bytes \<times> 'e) \<times> 's"
  sk_send_to :: "'s \<Rightarrow> bytes \<Rightarrow> 'e \<Rightarrow> (errc + nat) \<times> 's"
  sk_close :: "'s \<Rightarrow> errc option \<times> 's"

section \<open>Connector\<close>

record connector =
  tcp_no_delay :: bool
  tcp_fast_open_connect :: int

definition connector_new :: "bool \<Rightarrow> int \<Rightarrow> connector" where
  "connector_new no_delay fast_open = \<lparr>tcp_no_delay = no_delay, tcp_fast_open_connect = fast_open\<rparr>"

text \<open>Go on with the socket, or return the error.\<close>

definition and_then :: "errc option \<times> 's \<Rightarrow> ('s \<Rightarrow> errc + 's) \<Rightarrow> errc + 's" where
  "and_then r k = (case r of (Some ec, s) \<Rightarrow> Inl ec | (None, s) \<Rightarrow> k s)"

text \<open>The \<^verbatim>\<open>switch\<close> on the option, which systems without TCP\_FASTOPEN\_CONNECT leave out.\<close>

definition uses_fast_open :: "bool \<Rightarrow> connector \<Rightarrow> bytes \<Rightarrow> bool" where
  "uses_fast_open supported c initial_data \<longleftrightarrow>
     supported \<and> (tcp_fast_open_connect c = 1 \<and> initial_data \<noteq> [] \<or> tcp_fast_open_connect c = 2)"

definition connector_connect :: "('s, 'e) socket_calls \<Rightarrow> bool \<Rightarrow> connector \<Rightarrow> 'e \<Rightarrow> bytes \<Rightarrow> errc + 's" where
  "connector_connect calls supported c endpoint initial_data =
     and_then (sk_open calls (sk_new calls) endpoint) (\<lambda>s.
     and_then (if tcp_no_delay c then sk_set_option calls s No_delay else (None, s)) (\<lambda>s.
     and_then (if uses_fast_open supported c initial_data then sk_set_option calls s Fast_open_connect else (None, s)) (\<lambda>s.
     and_then (sk_connect calls s endpoint) (\<lambda>s.
     and_then (if initial_data \<noteq> [] then sk_write calls s initial_data else (None, s)) Inr))))"

definition connector_bind :: "('s, 'e) socket_calls \<Rightarrow> 'e \<Rightarrow> errc + 's" where
  "connector_bind calls endpoint =
     and_then (sk_open calls (sk_new calls) endpoint) (\<lambda>s. and_then (sk_bind calls s endpoint) Inr)"

section \<open>Streams and datagrams\<close>

definition stream_read :: "('s, 'e) socket_calls \<Rightarrow> 's \<Rightarrow> nat \<Rightarrow> (errc + bytes) \<times> 's" where
  "stream_read calls s n = sk_read_some calls s n"

definition stream_write :: "('s, 'e) socket_calls \<Rightarrow> 's \<Rightarrow> bytes \<Rightarrow> (errc + nat) \<times> 's" where
  "stream_write calls s xs = sk_write_some calls s xs"

definition datagram_receive_from :: "('s, 'e) socket_calls \<Rightarrow> 's \<Rightarrow> nat \<Rightarrow> (errc + bytes \<times> 'e) \<times> 's" where
  "datagram_receive_from calls s n = sk_receive_from calls s n"

definition datagram_send_to :: "('s, 'e) socket_calls \<Rightarrow> 's \<Rightarrow> bytes \<Rightarrow> 'e \<Rightarrow> (errc + nat) \<times> 's" where
  "datagram_send_to calls s xs endpoint = sk_send_to calls s xs endpoint"

definition stream_close :: "('s, 'e) socket_calls \<Rightarrow> 's \<Rightarrow> 's" where
  "stream_close calls s = snd (sk_close calls s)"

definition datagram_close :: "('s, 'e) socket_calls \<Rightarrow> 's \<Rightarrow> 's" where
  "datagram_close calls s = snd (sk_close calls s)"

text \<open>The classes \<^verbatim>\<open>TcpSocketStream\<close>, \<^verbatim>\<open>UdpSocketDatagram\<close> and \<^verbatim>\<open>system::Connector\<close> as implementations of the interfaces.\<close>

definition tcp_socket_stream :: "('s, 'e) socket_calls \<Rightarrow> 's stream_ops" where
  "tcp_socket_stream calls = \<lparr>st_read = stream_read calls, st_write = stream_write calls, st_close = stream_close calls\<rparr>"

definition udp_socket_datagram :: "('s, 'e) socket_calls \<Rightarrow> ('s, 'e) datagram_ops" where
  "udp_socket_datagram calls =
     \<lparr>dg_receive_from = datagram_receive_from calls, dg_send_to = datagram_send_to calls, dg_close = datagram_close calls\<rparr>"

definition system_connector :: "('s, 'e) socket_calls \<Rightarrow> bool \<Rightarrow> connector \<Rightarrow> ('s, 's, 'e) connector_ops" where
  "system_connector calls supported c =
     \<lparr>cn_connect = (\<lambda>endpoint initial_data. map_sum id (Pair (tcp_socket_stream calls)) (connector_connect calls supported c endpoint initial_data)),
      cn_bind = (\<lambda>endpoint. map_sum id (Pair (udp_socket_datagram calls)) (connector_bind calls endpoint))\<rparr>"

section \<open>What a connection is\<close>

record ('s, 'e) socket_view =
  sv_peer :: "'s \<Rightarrow> 'e option"
  sv_local :: "'s \<Rightarrow> 'e option"
  sv_options :: "'s \<Rightarrow> socket_option set"
  sv_sent :: "'s \<Rightarrow> bytes"

definition same_view :: "('s, 'e) socket_view \<Rightarrow> 's \<Rightarrow> 's \<Rightarrow> bool" where
  "same_view v s s' \<longleftrightarrow> sv_peer v s' = sv_peer v s \<and> sv_local v s' = sv_local v s \<and> sv_options v s' = sv_options v s \<and> sv_sent v s' = sv_sent v s"

definition socket_laws :: "('s, 'e) socket_calls \<Rightarrow> ('s, 'e) socket_view \<Rightarrow> bool" where
  "socket_laws calls v \<longleftrightarrow>
     sv_peer v (sk_new calls) = None \<and> sv_local v (sk_new calls) = None \<and> sv_options v (sk_new calls) = {} \<and> sv_sent v (sk_new calls) = [] \<and>
     (\<forall>s e s'. sk_open calls s e = (None, s') \<longrightarrow> same_view v s s') \<and>
     (\<forall>s opt s'. sk_set_option calls s opt = (None, s') \<longrightarrow>
        sv_peer v s' = sv_peer v s \<and> sv_local v s' = sv_local v s \<and> sv_options v s' = insert opt (sv_options v s) \<and> sv_sent v s' = sv_sent v s) \<and>
     (\<forall>s e s'. sk_connect calls s e = (None, s') \<longrightarrow> sv_peer v s' = Some e \<and> sv_options v s' = sv_options v s \<and> sv_sent v s' = sv_sent v s) \<and>
     (\<forall>s xs s'. sk_write calls s xs = (None, s') \<longrightarrow>
        sv_peer v s' = sv_peer v s \<and> sv_options v s' = sv_options v s \<and> sv_sent v s' = sv_sent v s @ xs) \<and>
     (\<forall>s e s'. sk_bind calls s e = (None, s') \<longrightarrow> sv_local v s' = Some e)"

lemma and_then_Inr: "and_then r k = Inr s \<longleftrightarrow> (\<exists>s'. r = (None, s') \<and> k s' = Inr s)"
  by (auto simp: and_then_def split: prod.splits option.splits)

lemma and_then_Inl: "and_then r k = Inl ec \<longleftrightarrow> (\<exists>s'. r = (Some ec, s')) \<or> (\<exists>s'. r = (None, s') \<and> k s' = Inl ec)"
  by (auto simp: and_then_def split: prod.splits option.splits)

text \<open>A stream that \<^verbatim>\<open>connect\<close> returns is connected to the endpoint, exactly the initial data has been sent on it, and
  exactly the options that were asked for are set: fast open only if the system has it, and, with the setting 1, only if there
  is data to send at once. A datagram that \<^verbatim>\<open>bind\<close> returns is bound to the endpoint.\<close>

theorem connector_establishes:
  assumes "socket_laws calls v"
  shows "connector_connect calls supported c endpoint initial_data = Inr s \<Longrightarrow>
      sv_peer v s = Some endpoint \<and> sv_sent v s = initial_data \<and>
      sv_options v s = {opt. opt = No_delay \<and> tcp_no_delay c \<or> opt = Fast_open_connect \<and> uses_fast_open supported c initial_data}"
    and "connector_bind calls endpoint = Inr s \<Longrightarrow> sv_local v s = Some endpoint"
proof -
  show "sv_peer v s = Some endpoint \<and> sv_sent v s = initial_data \<and>
      sv_options v s = {opt. opt = No_delay \<and> tcp_no_delay c \<or> opt = Fast_open_connect \<and> uses_fast_open supported c initial_data}"
    if conn: "connector_connect calls supported c endpoint initial_data = Inr s"
  proof -
    obtain s1 s2 s3 s4 where s: "sk_open calls (sk_new calls) endpoint = (None, s1)"
      "(if tcp_no_delay c then sk_set_option calls s1 No_delay else (None, s1)) = (None, s2)"
      "(if uses_fast_open supported c initial_data then sk_set_option calls s2 Fast_open_connect else (None, s2)) = (None, s3)"
      "sk_connect calls s3 endpoint = (None, s4)"
      "(if initial_data \<noteq> [] then sk_write calls s4 initial_data else (None, s4)) = (None, s)"
      using conn unfolding connector_connect_def and_then_Inr sum.inject by blast
    have s1: "sv_options v s1 = {}" "sv_sent v s1 = []" using assms s(1) by (auto simp: socket_laws_def same_view_def)
    have s2: "sv_options v s2 = {opt. opt = No_delay \<and> tcp_no_delay c}" "sv_sent v s2 = []"
      using assms s(2) s1 by (auto simp: socket_laws_def split: if_splits)
    have s3: "sv_options v s3 = sv_options v s2 \<union> {opt. opt = Fast_open_connect \<and> uses_fast_open supported c initial_data}" "sv_sent v s3 = []"
      using assms s(3) s2(2) by (auto simp: socket_laws_def split: if_splits)
    have s4: "sv_peer v s4 = Some endpoint" "sv_options v s4 = sv_options v s3" "sv_sent v s4 = []"
      using assms s(4) s3(2) by (auto simp: socket_laws_def)
    show ?thesis using assms s(5) s4 s3(1) s2(1) by (auto simp: socket_laws_def split: if_splits)
  qed
  show "sv_local v s = Some endpoint" if "connector_bind calls endpoint = Inr s"
    using that assms by (auto simp: connector_bind_def and_then_Inr socket_laws_def)
qed

section \<open>The contract of a connector\<close>

text \<open>What a caller of the interface may rely on, in terms of what can be observed of the objects: a stream is connected to the
  endpoint that was asked for and the initial data has been sent on it, before anything that the caller writes; a
  datagram is bound to the endpoint.\<close>

locale connector_contract =
  fixes ops :: "('s, 'd, 'e) connector_ops" and peer :: "'s \<Rightarrow> 'e option" and sent :: "'s \<Rightarrow> bytes" and bound :: "'d \<Rightarrow> 'e option"
  assumes connected: "cn_connect ops endpoint initial_data = Inr (st, s) \<Longrightarrow> peer s = Some endpoint \<and> sent s = initial_data"
    and writes: "cn_connect ops endpoint initial_data = Inr (st, s) \<Longrightarrow> st_write st t xs = (Inr n, t') \<Longrightarrow>
      n \<le> length xs \<and> sent t' = sent t @ take n xs \<and> peer t' = peer t"
    and bound_to: "cn_bind ops endpoint = Inr (dg, d) \<Longrightarrow> bound d = Some endpoint"
begin

text \<open>Write after write on a connected stream, as long as they succeed.\<close>

primrec write_each :: "'s stream_ops \<Rightarrow> 's \<Rightarrow> bytes list \<Rightarrow> (nat list \<times> 's) option" where
  "write_each st s [] = Some ([], s)"
| "write_each st s (xs # xss) =
     (case st_write st s xs of
        (Inl ec, s') \<Rightarrow> None
      | (Inr n, s') \<Rightarrow> map_option (\<lambda>(ns, s''). (n # ns, s'')) (write_each st s' xss))"

text \<open>The peer gets the initial data and then, of every write, what it reported to have taken.\<close>

lemma written_in_order:
  assumes c: "cn_connect ops endpoint initial_data = Inr (st, s)" and w: "write_each st s xss = Some (ns, s')"
  shows "peer s' = Some endpoint \<and> sent s' = initial_data @ concat (map2 take ns xss)"
proof -
  have "peer t' = peer t \<and> sent t' = sent t @ concat (map2 take ns xss)" if "write_each st t xss = Some (ns, t')" for t t' ns
    using that
  proof (induction xss arbitrary: t ns)
    case (Cons xs xss)
    then obtain n u ms where u: "st_write st t xs = (Inr n, u)" "write_each st u xss = Some (ms, t')" "ns = n # ms"
      by (auto split: prod.splits sum.splits)
    with writes [OF c u(1)] Cons.IH [OF u(2)] show ?case by simp
  qed simp
  with connected [OF c] w show ?thesis by simp
qed

end

text \<open>The connector of the system keeps the contract if a socket accounts for what was written to it.\<close>

lemma system_connector_contract:
  assumes "socket_laws calls v"
    and "\<And>s xs n s'. sk_write_some calls s xs = (Inr n, s') \<Longrightarrow> n \<le> length xs \<and> sv_sent v s' = sv_sent v s @ take n xs \<and> sv_peer v s' = sv_peer v s"
  shows "connector_contract (system_connector calls supported c) (sv_peer v) (sv_sent v) (sv_local v)"
proof unfold_locales
  fix endpoint initial_data st s
  assume c: "cn_connect (system_connector calls supported c) endpoint initial_data = Inr (st, s)"
  then have conn: "connector_connect calls supported c endpoint initial_data = Inr s" and st: "st = tcp_socket_stream calls"
    by (auto simp: system_connector_def map_sum_def split: sum.splits)
  show "sv_peer v s = Some endpoint \<and> sv_sent v s = initial_data" using connector_establishes(1) [OF assms(1) conn] by blast
  show "n \<le> length xs \<and> sv_sent v t' = sv_sent v t @ take n xs \<and> sv_peer v t' = sv_peer v t" if "st_write st t xs = (Inr n, t')" for t xs n t'
    using assms(2) that by (simp add: st tcp_socket_stream_def stream_write_def)
next
  fix endpoint dg d
  assume "cn_bind (system_connector calls supported c) endpoint = Inr (dg, d)"
  then have "connector_bind calls endpoint = Inr d" by (auto simp: system_connector_def map_sum_def split: sum.splits)
  then show "sv_local v d = Some endpoint" by (rule connector_establishes(2) [OF assms(1)])
qed

text \<open>Sockets that keep what was done to them and take at most 1000 bytes with a write: the laws can be met, and the connector of
  the system keeps its contract on them with every setting.\<close>

record 'e kept_socket =
  ks_peer :: "'e option"
  ks_local :: "'e option"
  ks_options :: "socket_option set"
  ks_sent :: bytes

definition kept_sockets :: "('e kept_socket, 'e) socket_calls" where
  "kept_sockets =
     \<lparr>sk_new = \<lparr>ks_peer = None, ks_local = None, ks_options = {}, ks_sent = []\<rparr>,
      sk_open = (\<lambda>s e. (None, s)),
      sk_set_option = (\<lambda>s opt. (None, s\<lparr>ks_options := insert opt (ks_options s)\<rparr>)),
      sk_connect = (\<lambda>s e. (None, s\<lparr>ks_peer := Some e\<rparr>)),
      sk_write = (\<lambda>s xs. (None, s\<lparr>ks_sent := ks_sent s @ xs\<rparr>)),
      sk_bind = (\<lambda>s e. (None, s\<lparr>ks_local := Some e\<rparr>)),
      sk_read_some = (\<lambda>s n. (Inr [], s)),
      sk_write_some = (\<lambda>s xs. (Inr (min 1000 (length xs)), s\<lparr>ks_sent := ks_sent s @ take 1000 xs\<rparr>)),
      sk_receive_from = (\<lambda>s n. (Inl Operation_canceled, s)),
      sk_send_to = (\<lambda>s xs e. (Inr (length xs), s)),
      sk_close = (\<lambda>s. (None, s))\<rparr>"

definition kept_view :: "('e kept_socket, 'e) socket_view" where
  "kept_view = \<lparr>sv_peer = ks_peer, sv_local = ks_local, sv_options = ks_options, sv_sent = ks_sent\<rparr>"

lemma kept_sockets_laws: "socket_laws kept_sockets kept_view"
  by (auto simp: socket_laws_def same_view_def kept_sockets_def kept_view_def)

interpretation kept: connector_contract "system_connector kept_sockets supported c" ks_peer ks_sent ks_local for supported c
proof -
  have "connector_contract (system_connector kept_sockets supported c) (sv_peer kept_view) (sv_sent kept_view) (sv_local kept_view)"
    by (rule system_connector_contract [OF kept_sockets_laws]) (auto simp: kept_sockets_def kept_view_def min_def)
  then show "connector_contract (system_connector kept_sockets supported c) ks_peer ks_sent ks_local" by (simp add: kept_view_def)
qed

section \<open>Blocking results\<close>

text \<open>\<^verbatim>\<open>BlockingResult\<close>: \<^verbatim>\<open>run\<close> runs handlers of the context until the callback has been called. A handler is represented by
  the arguments with which it calls the callback; \<^verbatim>\<open>run_one\<close> returns 0 when there is none.\<close>

record 'a blocking_result =
  br_done :: bool
  br_args :: 'a

definition br_reset :: "'a blocking_result \<Rightarrow> 'a blocking_result" where
  "br_reset b = b\<lparr>br_done := False\<rparr>"

definition br_callback :: "'a blocking_result \<Rightarrow> 'a \<Rightarrow> 'a blocking_result" where
  "br_callback b x = b\<lparr>br_done := True, br_args := x\<rparr>"

fun br_run :: "'a blocking_result \<Rightarrow> 'a list list \<Rightarrow> bool \<times> 'a blocking_result \<times> 'a list list" where
  "br_run b hs =
     (if br_done b then (True, b, hs)
      else case hs of [] \<Rightarrow> (False, b, []) | h # hs' \<Rightarrow> br_run (foldl br_callback b h) hs')"

declare br_run.simps [simp del]

lemma br_run_simps [simp]:
  "br_done b \<Longrightarrow> br_run b hs = (True, b, hs)"
  "\<not> br_done b \<Longrightarrow> br_run b [] = (False, b, [])"
  "\<not> br_done b \<Longrightarrow> br_run b (h # hs) = br_run (foldl br_callback b h) hs"
  by (simp_all add: br_run.simps [of b])

lemma br_callbacks: "foldl br_callback b h = (if h = [] then b else b\<lparr>br_done := True, br_args := last h\<rparr>)"
  by (induction h arbitrary: b) (auto simp: br_callback_def)

text \<open>\<^verbatim>\<open>run\<close> ends; after \<^verbatim>\<open>reset\<close> it returns true exactly if some handler calls the callback, it then has run the handlers up to the first
  one that does, and the arguments are those of the last call in that handler.\<close>

theorem br_run_result:
  "br_run (br_reset b) hs =
     (case dropWhile (\<lambda>h. h = []) hs of
        [] \<Rightarrow> (False, br_reset b, [])
      | h # hs' \<Rightarrow> (True, b\<lparr>br_done := True, br_args := last h\<rparr>, hs'))"
  by (induction hs) (auto simp: br_callbacks br_reset_def)

end
