(* ===== verification/Callback_Ledger.thy ===== *)
theory Callback_Ledger
  imports Trunk_Prelude
begin

text \<open>
  What the asynchronous clients promise their callers: every request's callback is called exactly once, or its
  request is still held by one live object. \<open>ledger_ok n called held\<close> states it for \<open>n\<close> requests, numbered in
  the order in which they were made, the calls so far and the relation of objects to the requests they hold.
  The locale \<open>callback_system\<close> is the contract of a client whose steps keep it; \<^verbatim>\<open>net/http/client\<close> and
  \<^verbatim>\<open>net/icmp-client\<close> interpret it.
\<close>

definition ledger_ok :: "nat \<Rightarrow> (nat \<times> 'o) list \<Rightarrow> ('k \<Rightarrow> nat \<Rightarrow> bool) \<Rightarrow> bool" where
  "ledger_ok n called held \<longleftrightarrow> distinct (map fst called) \<and>
     (\<forall>q. q < n \<longleftrightarrow> q \<in> fst ` set called \<or> (\<exists>k. held k q)) \<and>
     (\<forall>k q. held k q \<longrightarrow> q \<notin> fst ` set called) \<and>
     (\<forall>k k' q. held k q \<longrightarrow> held k' q \<longrightarrow> k = k')"

lemma ledger_okD:
  assumes "ledger_ok n called held"
  shows "distinct (map fst called)" and "q < n \<longleftrightarrow> q \<in> fst ` set called \<or> (\<exists>k. held k q)"
    and "held k q \<Longrightarrow> q \<notin> fst ` set called" and "held k q \<Longrightarrow> held k' q \<Longrightarrow> k = k'"
  using assms unfolding ledger_ok_def by (simp, simp, simp, blast)

lemma ledger_okI:
  assumes "distinct (map fst called)" and "\<And>q. q < n \<longleftrightarrow> q \<in> fst ` set called \<or> (\<exists>k. held k q)"
    and "\<And>k q. held k q \<Longrightarrow> q \<notin> fst ` set called" and "\<And>k k' q. held k q \<Longrightarrow> held k' q \<Longrightarrow> k = k'"
  shows "ledger_ok n called held"
  using assms unfolding ledger_ok_def by blast

lemma ledger_new: "ledger_ok 0 [] (\<lambda>k q. False)"
  by (simp add: ledger_ok_def)

text \<open>An object calls the callback of the request it holds, and holds it no longer.\<close>

lemma ledger_report:
  assumes ok: "ledger_ok n called held" and h: "held k q" "\<And>x. held k x \<Longrightarrow> x = q"
  shows "ledger_ok n (called @ [(q, out)]) (\<lambda>d x. held d x \<and> d \<noteq> k)"
proof (rule ledger_okI)
  note D = ledger_okD [OF ok]
  show "distinct (map fst (called @ [(q, out)]))" using D(1) D(3) [OF h(1)] by auto
  show "x < n \<longleftrightarrow> x \<in> fst ` set (called @ [(q, out)]) \<or> (\<exists>d. held d x \<and> d \<noteq> k)" for x
  proof (cases "x = q")
    case True
    then show ?thesis using D(2) [of q] h(1) by auto
  next
    case False
    then have "(\<exists>d. held d x \<and> d \<noteq> k) \<longleftrightarrow> (\<exists>d. held d x)" using h(2) by metis
    then show ?thesis using D(2) [of x] False by auto
  qed
  show "x \<notin> fst ` set (called @ [(q, out)])" if "held d x \<and> d \<noteq> k" for d x
    using that D(3) [of d x] D(4) [of k q d] h(1) by auto
  show "d = d'" if "held d x \<and> d \<noteq> k" and "held d' x \<and> d' \<noteq> k" for d d' x
    using that D(4) [of d x d'] by simp
qed

text \<open>A new request, held by an object that holds nothing else, or refused at once.\<close>

lemma ledger_open:
  assumes ok: "ledger_ok n called held" and free: "\<And>x. \<not> held k x"
  shows "ledger_ok (Suc n) called (\<lambda>d x. if d = k then x = n else held d x)"
proof (rule ledger_okI)
  note D = ledger_okD [OF ok]
  have n: "\<not> held d n" "n \<notin> fst ` set called" for d using D(2) [of n] by auto
  show "distinct (map fst called)" by (rule D(1))
  show "x < Suc n \<longleftrightarrow> x \<in> fst ` set called \<or> (\<exists>d. if d = k then x = n else held d x)" for x
  proof (cases "x = n")
    case True
    then show ?thesis by (auto intro: exI [of _ k])
  next
    case False
    then have "(\<exists>d. if d = k then x = n else held d x) \<longleftrightarrow> (\<exists>d. held d x)" using free by metis
    then show ?thesis using D(2) [of x] False by auto
  qed
  show "x \<notin> fst ` set called" if "if d = k then x = n else held d x" for d x
    using that n(2) D(3) [of d x] by (cases "d = k") auto
  show "d = d'" if "if d = k then x = n else held d x" and "if d' = k then x = n else held d' x" for d d' x
    using that n(1) D(4) [of d x d'] by (cases "d = k"; cases "d' = k") auto
qed

lemma ledger_refuse:
  assumes "ledger_ok n called held"
  shows "ledger_ok (Suc n) (called @ [(n, out)]) held"
proof (rule ledger_okI)
  note D = ledger_okD [OF assms]
  have n: "n \<notin> fst ` set called" "\<not> held k n" for k using D(2) [of n] by auto
  show "distinct (map fst (called @ [(n, out)]))" using D(1) n(1) by auto
  show "x < Suc n \<longleftrightarrow> x \<in> fst ` set (called @ [(n, out)]) \<or> (\<exists>k. held k x)" for x
    using D(2) [of x] by (cases "x = n") auto
  show "x \<notin> fst ` set (called @ [(n, out)])" if "held k x" for k x
    using that D(3) [of k x] n(2) [of k] by auto
  show "k = k'" if "held k x" and "held k' x" for k k' x using D(4) that .
qed

locale callback_system =
  fixes init :: 's and step :: "'s \<Rightarrow> 's \<Rightarrow> bool" and inv :: "'s \<Rightarrow> bool"
    and issued :: "'s \<Rightarrow> nat" and calls :: "'s \<Rightarrow> (nat \<times> 'o) list" and holds :: "'s \<Rightarrow> 'k \<Rightarrow> nat \<Rightarrow> bool"
  assumes init_inv: "inv init"
    and step_inv: "step s s' \<Longrightarrow> inv s \<Longrightarrow> inv s'"
    and inv_ledger: "inv s \<Longrightarrow> ledger_ok (issued s) (calls s) (holds s)"
begin

lemma reach_inv: "step\<^sup>*\<^sup>* init s \<Longrightarrow> inv s"
  by (induction rule: rtranclp_induct) (auto intro: init_inv step_inv)

lemma called_once: "step\<^sup>*\<^sup>* init s \<Longrightarrow> distinct (map fst (calls s))"
  using ledger_okD(1) inv_ledger reach_inv by blast

lemma only_issued_called: "step\<^sup>*\<^sup>* init s \<Longrightarrow> q \<in> fst ` set (calls s) \<Longrightarrow> q < issued s"
  using ledger_okD(2) [OF inv_ledger [OF reach_inv]] by blast

lemma not_lost:
  assumes "step\<^sup>*\<^sup>* init s" and "q < issued s" and "q \<notin> fst ` set (calls s)"
  shows "\<exists>!k. holds s k q"
  using assms ledger_okD(2,4) [OF inv_ledger [OF reach_inv [OF assms(1)]]] by metis

end

end
