(* ===== verification/Http_Client.thy ===== *)
theory Http_Client
  imports Callback_Ledger
begin

text \<open>
  \<^verbatim>\<open>net/http/client.cc\<close>: connections, the pool of idle connections, their timers, and the callbacks of requests. The
  transport (resolver, sockets, TLS, the HTTP parser of Boost.Beast) is the environment: each asynchronous
  operation completes, at any time, with an error or with the result that its handler is given. The contents of
  requests play no role in the client; responses are of any type \<open>'r\<close>.

  A connection is owned by the handler of its one outstanding operation (\<^verbatim>\<open>intrusive_ptr\<close>); the pool holds plain
  pointers. When a handler returns without having started another operation the connection is destroyed
  (\<open>release\<close>), whether or not the pool points to it. A step that uses a destroyed connection has no defined
  result, \<open>None\<close>.

  Every request has a callback (an empty one would be taken for no request). A callback is user code and may make further requests before it returns: \<open>react\<close> is what it does. The timer of a
  connection is what \<^verbatim>\<open>net/timer-list\<close> promises, a time at which it is due and at or after which it fires, \<open>None\<close>
  after it has fired; it is destroyed with the connection. Requests and connections are numbered; \<open>hc_called\<close> records
  the calls of callbacks, \<open>hc_progress\<close> those of progress callbacks.
\<close>

datatype protocol = Http | Https_verify_none

datatype pending = Resolving | Connecting | Handshaking | Writing | Reading_header | Reading_some

datatype 'r outcome = Failed errc | Answered 'r

type_synonym connection_key = "protocol \<times> string \<times> u16"

record connection =
  cn_key :: connection_key
  cn_request :: "nat option"
  cn_progress :: bool
  cn_pending :: "pending option"
  cn_pooled :: bool
  cn_timer :: "int option"

record 'r http_client =
  hc_now :: int
  hc_timeout :: int
  hc_conns :: "nat \<Rightarrow> connection option"
  hc_pool :: "connection_key \<Rightarrow> nat list option"
  hc_next_conn :: nat
  hc_requests :: nat
  hc_called :: "(nat \<times> 'r outcome) list"
  hc_progress :: "nat list"

definition http_client_new :: "int \<Rightarrow> int \<Rightarrow> 'r http_client" where
  "http_client_new now timeout =
     \<lparr>hc_now = now, hc_timeout = timeout, hc_conns = \<lambda>c. None, hc_pool = \<lambda>k. None, hc_next_conn = 0, hc_requests = 0,
      hc_called = [], hc_progress = []\<rparr>"

text \<open>What a callback does: nothing more, or a request, with the result of setting the host name for TLS, whether it has a
  progress callback, and what its callback does if it is called at once; and then the rest.\<close>

datatype react = Quiet | Request connection_key "errc option" bool react react

section \<open>Operations\<close>

definition put_conn :: "nat \<Rightarrow> connection \<Rightarrow> 'r http_client \<Rightarrow> 'r http_client" where
  "put_conn c cn s = s\<lparr>hc_conns := (hc_conns s)(c := Some cn)\<rparr>"

definition with_conn :: "nat \<Rightarrow> 'r http_client \<Rightarrow> (connection \<Rightarrow> 'r http_client option) \<Rightarrow> 'r http_client option" where
  "with_conn c s f = Option.bind (hc_conns s c) f"

text \<open>The start of an asynchronous operation, whose handler holds the connection, and the end of a handler.\<close>

definition begin_op :: "nat \<Rightarrow> pending \<Rightarrow> 'r http_client \<Rightarrow> 'r http_client option" where
  "begin_op c p s = with_conn c s (\<lambda>cn. Some (put_conn c (cn\<lparr>cn_pending := Some p\<rparr>) s))"

definition release :: "nat \<Rightarrow> 'r http_client \<Rightarrow> 'r http_client option" where
  "release c s = with_conn c s (\<lambda>cn. Some (s\<lparr>hc_conns := (hc_conns s)(c := None)\<rparr>))"

definition keep_alive :: "nat \<Rightarrow> 'r http_client \<Rightarrow> 'r http_client option" where
  "keep_alive c s =
     with_conn c s (\<lambda>cn. Some (put_conn c (cn\<lparr>cn_timer := map_option (\<lambda>_. hc_now s + hc_timeout s) (cn_timer cn)\<rparr>) s))"

definition hc_write :: "nat \<Rightarrow> 'r http_client \<Rightarrow> 'r http_client option" where
  "hc_write c s = Option.bind (keep_alive c s) (begin_op c Writing)"

definition new_conn :: "connection_key \<Rightarrow> nat \<Rightarrow> bool \<Rightarrow> 'r http_client \<Rightarrow> connection" where
  "new_conn key q progress s =
     \<lparr>cn_key = key, cn_request = Some q, cn_progress = progress, cn_pending = None, cn_pooled = False,
      cn_timer = Some (hc_now s + hc_timeout s)\<rparr>"

text \<open>\<^verbatim>\<open>Client::request\<close>; \<^verbatim>\<open>resolve\<close>, for TLS after the host name has been set (which fails with \<open>sni = Some ec\<close>);
  \<^verbatim>\<open>Connection::finish\<close>; and what a callback does.\<close>

function (sequential) hc_request :: "connection_key \<Rightarrow> errc option \<Rightarrow> bool \<Rightarrow> react \<Rightarrow> 'r http_client \<Rightarrow> 'r http_client option"
  and hc_resolve :: "nat \<Rightarrow> errc option \<Rightarrow> react \<Rightarrow> 'r http_client \<Rightarrow> 'r http_client option"
  and hc_finish :: "nat \<Rightarrow> 'r outcome \<Rightarrow> react \<Rightarrow> 'r http_client \<Rightarrow> 'r http_client option"
  and hc_user :: "react \<Rightarrow> 'r http_client \<Rightarrow> 'r http_client option" where
  "hc_request key sni progress r s =
     (let q = hc_requests s; s = s\<lparr>hc_requests := q + 1\<rparr>
      in case hc_pool s key of
           Some cs \<Rightarrow>
             (let c = hd cs; cs' = tl cs; s = s\<lparr>hc_pool := (hc_pool s)(key := if cs' = [] then None else Some cs')\<rparr>
              in with_conn c s (\<lambda>cn.
                   hc_write c (put_conn c (cn\<lparr>cn_request := Some q, cn_progress := progress, cn_pooled := False\<rparr>) s)))
         | None \<Rightarrow>
             (let c = hc_next_conn s
              in hc_resolve c sni r (put_conn c (new_conn key q progress s) (s\<lparr>hc_next_conn := c + 1\<rparr>))))"
| "hc_resolve c sni r s =
     with_conn c s (\<lambda>cn.
       case sni of
         Some ec \<Rightarrow> if fst (cn_key cn) = Https_verify_none then Option.bind (hc_finish c (Failed ec) r s) (release c)
                    else begin_op c Resolving s
       | None \<Rightarrow> begin_op c Resolving s)"
| "hc_finish c out r s =
     with_conn c s (\<lambda>cn.
       Option.bind
         (case cn_request cn of
            None \<Rightarrow> Some s
          | Some q \<Rightarrow> hc_user r (s\<lparr>hc_called := hc_called s @ [(q, out)]\<rparr>))
         (\<lambda>s. with_conn c s (\<lambda>cn. Some (put_conn c (cn\<lparr>cn_request := None, cn_progress := False\<rparr>) s))))"
| "hc_user Quiet s = Some s"
| "hc_user (Request key sni progress r rest) s = Option.bind (hc_request key sni progress r s) (hc_user rest)"
  by pat_completeness auto
termination
  by (relation "measure (\<lambda>x. case x of Inl (Inl (key, sni, p, r, s)) \<Rightarrow> 4 * size r + 3 | Inl (Inr (c, sni, r, s)) \<Rightarrow> 4 * size r + 2
      | Inr (Inl (c, out, r, s)) \<Rightarrow> 4 * size r + 1 | Inr (Inr (r, s)) \<Rightarrow> 4 * size r)") auto

declare hc_request.simps [simp del] hc_resolve.simps [simp del] hc_finish.simps [simp del]

text \<open>Taking a connection out of its list, and the list out of the map when it is empty.\<close>

definition pool_remove :: "connection_key \<Rightarrow> nat \<Rightarrow> 'r http_client \<Rightarrow> 'r http_client option" where
  "pool_remove key c s =
     (case hc_pool s key of
        None \<Rightarrow> None
      | Some cs \<Rightarrow>
          let cs' = remove1 c cs
          in Some (s\<lparr>hc_pool := (hc_pool s)(key := if cs' = [] then None else Some cs')\<rparr>))"

text \<open>\<^verbatim>\<open>ConnectionImpl::close\<close>: pending operations on the closed socket complete with an error, or with what had been
  queued for them.\<close>

definition hc_close :: "nat \<Rightarrow> react \<Rightarrow> 'r http_client \<Rightarrow> 'r http_client option" where
  "hc_close c r s =
     Option.bind (hc_finish c (Failed Timed_out) r s) (\<lambda>s.
       with_conn c s (\<lambda>cn.
         if cn_pooled cn then
           Option.bind (pool_remove (cn_key cn) c s) (\<lambda>s. Some (put_conn c (cn\<lparr>cn_pooled := False\<rparr>) s))
         else Some s))"

definition hc_handshake :: "nat \<Rightarrow> 'r http_client \<Rightarrow> 'r http_client option" where
  "hc_handshake c s =
     with_conn c s (\<lambda>cn. case fst (cn_key cn) of Http \<Rightarrow> hc_write c s | Https_verify_none \<Rightarrow> begin_op c Handshaking s)"

section \<open>Handlers\<close>

text \<open>An error: \<^verbatim>\<open>finish\<close>, with or without \<^verbatim>\<open>close\<close>, and the handler returns.\<close>

definition finish_and_leave :: "nat \<Rightarrow> errc \<Rightarrow> react \<Rightarrow> 'r http_client \<Rightarrow> 'r http_client option" where
  "finish_and_leave c ec r s = Option.bind (hc_finish c (Failed ec) r s) (release c)"

definition finish_and_close :: "nat \<Rightarrow> errc \<Rightarrow> react \<Rightarrow> 'r http_client \<Rightarrow> 'r http_client option" where
  "finish_and_close c ec r s =
     Option.bind (hc_finish c (Failed ec) r s) (\<lambda>s. Option.bind (hc_close c Quiet s) (release c))"

definition on_resolve :: "nat \<Rightarrow> errc option \<Rightarrow> react \<Rightarrow> 'r http_client \<Rightarrow> 'r http_client option" where
  "on_resolve c ec r s = (case ec of Some e \<Rightarrow> finish_and_leave c e r s | None \<Rightarrow> begin_op c Connecting s)"

definition on_connect :: "nat \<Rightarrow> errc option \<Rightarrow> react \<Rightarrow> 'r http_client \<Rightarrow> 'r http_client option" where
  "on_connect c ec r s = (case ec of Some e \<Rightarrow> finish_and_leave c e r s | None \<Rightarrow> hc_handshake c s)"

definition on_handshake :: "nat \<Rightarrow> errc option \<Rightarrow> react \<Rightarrow> 'r http_client \<Rightarrow> 'r http_client option" where
  "on_handshake c ec r s = (case ec of Some e \<Rightarrow> finish_and_close c e r s | None \<Rightarrow> hc_write c s)"

definition on_write :: "nat \<Rightarrow> errc option \<Rightarrow> react \<Rightarrow> 'r http_client \<Rightarrow> 'r http_client option" where
  "on_write c ec r s = (case ec of Some e \<Rightarrow> finish_and_close c e r s | None \<Rightarrow> begin_op c Reading_header s)"

definition on_read_header :: "nat \<Rightarrow> errc option \<Rightarrow> react \<Rightarrow> 'r http_client \<Rightarrow> 'r http_client option" where
  "on_read_header c ec r s =
     with_conn c s (\<lambda>cn.
       if cn_request cn = None then Option.bind (hc_close c r s) (release c)
       else (case ec of
               Some e \<Rightarrow> finish_and_close c e r s
             | None \<Rightarrow> Option.bind (keep_alive c s) (begin_op c Reading_some)))"

text \<open>The progress callback, if the request has one.\<close>

definition call_progress :: "nat \<Rightarrow> react \<Rightarrow> 'r http_client \<Rightarrow> 'r http_client option" where
  "call_progress c r s =
     with_conn c s (\<lambda>cn.
       case cn_request cn of
         None \<Rightarrow> Some s
       | Some q \<Rightarrow> if cn_progress cn then hc_user r (s\<lparr>hc_progress := hc_progress s @ [q]\<rparr>) else Some s)"

text \<open>The parser has not seen the whole response (\<open>Inr None\<close>), or it has (\<open>Inr (Some x)\<close>): then the connection goes
  to the pool and the handler returns.\<close>

definition on_read_some :: "nat \<Rightarrow> errc + 'r option \<Rightarrow> react \<Rightarrow> 'r http_client \<Rightarrow> 'r http_client option" where
  "on_read_some c res r s =
     (case res of
        Inl e \<Rightarrow> finish_and_close c e r s
      | Inr None \<Rightarrow>
          Option.bind (call_progress c r s) (\<lambda>s. Option.bind (keep_alive c s) (begin_op c Reading_some))
      | Inr (Some x) \<Rightarrow>
          Option.bind (hc_finish c (Answered x) r s) (\<lambda>s.
            with_conn c s (\<lambda>cn.
              let cs = (case hc_pool s (cn_key cn) of None \<Rightarrow> [] | Some cs \<Rightarrow> cs);
                  s = put_conn c (cn\<lparr>cn_pooled := True\<rparr>) (s\<lparr>hc_pool := (hc_pool s)(cn_key cn \<mapsto> c # cs)\<rparr>)
              in Option.bind (keep_alive c s) (release c))))"

definition on_conn_timer :: "nat \<Rightarrow> react \<Rightarrow> 'r http_client \<Rightarrow> 'r http_client option" where
  "on_conn_timer c r s = with_conn c s (\<lambda>cn. hc_close c r (put_conn c (cn\<lparr>cn_timer := None\<rparr>) s))"

section \<open>Steps\<close>

definition pending_at :: "'r http_client \<Rightarrow> nat \<Rightarrow> pending \<Rightarrow> bool" where
  "pending_at s c p \<longleftrightarrow> (\<exists>cn. hc_conns s c = Some cn \<and> cn_pending cn = Some p)"

inductive hc_step :: "'r http_client \<Rightarrow> 'r http_client option \<Rightarrow> bool" where
  tick: "hc_now s \<le> now \<Longrightarrow> hc_step s (Some (s\<lparr>hc_now := now\<rparr>))"
| request: "hc_step s (hc_request key sni progress r s)"
| resolved: "pending_at s c Resolving \<Longrightarrow> hc_step s (on_resolve c ec r s)"
| connected: "pending_at s c Connecting \<Longrightarrow> hc_step s (on_connect c ec r s)"
| shaken: "pending_at s c Handshaking \<Longrightarrow> hc_step s (on_handshake c ec r s)"
| written: "pending_at s c Writing \<Longrightarrow> hc_step s (on_write c ec r s)"
| header: "pending_at s c Reading_header \<Longrightarrow> hc_step s (on_read_header c ec r s)"
| some_read: "pending_at s c Reading_some \<Longrightarrow> hc_step s (on_read_some c res r s)"
| timeout: "hc_conns s c = Some cn \<Longrightarrow> cn_timer cn = Some x \<Longrightarrow> x \<le> hc_now s \<Longrightarrow> hc_step s (on_conn_timer c r s)"

definition hc_next :: "'r http_client \<Rightarrow> 'r http_client \<Rightarrow> bool" where
  "hc_next s s' \<longleftrightarrow> hc_step s (Some s')"

section \<open>Invariant\<close>

text \<open>The invariant outside the connections \<open>B\<close>, whose handlers are in the middle of their work: what such a connection
  holds does not count, because its callback has been called.\<close>

definition held :: "'r http_client \<Rightarrow> nat \<Rightarrow> nat \<Rightarrow> bool" where
  "held s c q \<longleftrightarrow> (\<exists>cn. hc_conns s c = Some cn \<and> cn_request cn = Some q)"

definition conn_ok :: "nat set \<Rightarrow> 'r http_client \<Rightarrow> nat \<Rightarrow> connection \<Rightarrow> bool" where
  "conn_ok B s c cn \<longleftrightarrow> c < hc_next_conn s \<and> \<not> cn_pooled cn \<and> (\<forall>x. cn_timer cn = Some x \<longrightarrow> x \<le> hc_now s + hc_timeout s) \<and>
     (c \<notin> B \<longrightarrow> cn_pending cn \<noteq> None \<and> (cn_request cn \<noteq> None \<longrightarrow> cn_timer cn \<noteq> None))"

definition pool_ok :: "'r http_client \<Rightarrow> bool" where
  "pool_ok s \<longleftrightarrow> (\<forall>key cs. hc_pool s key = Some cs \<longrightarrow> cs \<noteq> [] \<and> (\<forall>c \<in> set cs. hc_conns s c = None \<and> c < hc_next_conn s))"

definition hc_ok_in :: "nat set \<Rightarrow> 'r http_client \<Rightarrow> bool" where
  "hc_ok_in B s \<longleftrightarrow> (\<forall>c cn. hc_conns s c = Some cn \<longrightarrow> conn_ok B s c cn) \<and> pool_ok s \<and>
     ledger_ok (hc_requests s) (hc_called s) (\<lambda>c q. c \<notin> B \<and> held s c q)"

abbreviation hc_ok :: "'r http_client \<Rightarrow> bool" where
  "hc_ok s \<equiv> hc_ok_in {} s"

lemma hc_ok_inD:
  assumes "hc_ok_in B s"
  shows "hc_conns s c = Some cn \<Longrightarrow> conn_ok B s c cn"
    and "hc_pool s key = Some cs \<Longrightarrow> cs \<noteq> []" and "hc_pool s key = Some cs \<Longrightarrow> d \<in> set cs \<Longrightarrow> hc_conns s d = None"
    and "hc_pool s key = Some cs \<Longrightarrow> d \<in> set cs \<Longrightarrow> d < hc_next_conn s"
    and "ledger_ok (hc_requests s) (hc_called s) (\<lambda>c q. c \<notin> B \<and> held s c q)"
  using assms unfolding hc_ok_in_def pool_ok_def by blast+

lemma hc_ok_inI:
  assumes "\<And>c cn. hc_conns s c = Some cn \<Longrightarrow> conn_ok B s c cn"
    and "\<And>key cs. hc_pool s key = Some cs \<Longrightarrow> cs \<noteq> []" and "\<And>key cs d. hc_pool s key = Some cs \<Longrightarrow> d \<in> set cs \<Longrightarrow> hc_conns s d = None"
    and "\<And>key cs d. hc_pool s key = Some cs \<Longrightarrow> d \<in> set cs \<Longrightarrow> d < hc_next_conn s"
    and "ledger_ok (hc_requests s) (hc_called s) (\<lambda>c q. c \<notin> B \<and> held s c q)"
  shows "hc_ok_in B s"
  using assms unfolding hc_ok_in_def pool_ok_def by blast

lemma conn_ok_mono: "conn_ok B s c cn \<Longrightarrow> B \<subseteq> B' \<Longrightarrow> conn_ok B' s c cn"
  by (auto simp: conn_ok_def)

lemma conn_ok_cong:
  "hc_next_conn s' = hc_next_conn s \<Longrightarrow> hc_now s' = hc_now s \<Longrightarrow> hc_timeout s' = hc_timeout s \<Longrightarrow> conn_ok B s' c cn = conn_ok B s c cn"
  by (simp add: conn_ok_def)

text \<open>A handler calls the callback of its connection.\<close>

lemma ok_report:
  assumes ok: "hc_ok_in B s" and c: "c \<notin> B" "hc_conns s c = Some cn" "cn_request cn = Some q"
  shows "hc_ok_in (insert c B) (s\<lparr>hc_called := hc_called s @ [(q, out)]\<rparr>)"
proof (rule hc_ok_inI)
  note D = hc_ok_inD [OF ok]
  have "ledger_ok (hc_requests s) (hc_called s @ [(q, out)]) (\<lambda>d x. (d \<notin> B \<and> held s d x) \<and> d \<noteq> c)"
    by (rule ledger_report [OF D(5)]) (use c in \<open>auto simp: held_def\<close>)
  moreover have "(\<lambda>d x. (d \<notin> B \<and> held s d x) \<and> d \<noteq> c) = (\<lambda>d x. d \<notin> insert c B \<and> held (s\<lparr>hc_called := hc_called s @ [(q, out)]\<rparr>) d x)"
    by (auto simp: held_def fun_eq_iff)
  ultimately show "ledger_ok (hc_requests (s\<lparr>hc_called := hc_called s @ [(q, out)]\<rparr>)) (hc_called (s\<lparr>hc_called := hc_called s @ [(q, out)]\<rparr>))
      (\<lambda>d x. d \<notin> insert c B \<and> held (s\<lparr>hc_called := hc_called s @ [(q, out)]\<rparr>) d x)" by simp
  show "conn_ok (insert c B) (s\<lparr>hc_called := hc_called s @ [(q, out)]\<rparr>) d dn"
    if "hc_conns (s\<lparr>hc_called := hc_called s @ [(q, out)]\<rparr>) d = Some dn" for d dn
    using D(1) [of d dn] that by (auto simp: conn_ok_def)
qed (use hc_ok_inD [OF ok] in \<open>auto\<close>)

text \<open>A connection that holds nothing is inside or outside.\<close>

lemma ok_idle:
  assumes c: "hc_conns s c = Some cn" "cn_request cn = None"
  shows "hc_ok_in B s \<Longrightarrow> hc_ok_in (insert c B) s"
    and "hc_ok_in (insert c B) s \<Longrightarrow> cn_pending cn \<noteq> None \<Longrightarrow> hc_ok_in B s"
proof -
  have h: "(\<lambda>d x. d \<notin> insert c B \<and> held s d x) = (\<lambda>d x. d \<notin> B \<and> held s d x)" using c by (auto simp: held_def fun_eq_iff)
  show "hc_ok_in (insert c B) s" if ok: "hc_ok_in B s"
  proof (rule hc_ok_inI)
    note D = hc_ok_inD [OF ok]
    show "conn_ok (insert c B) s d dn" if "hc_conns s d = Some dn" for d dn by (rule conn_ok_mono [OF D(1) [OF that]]) auto
    show "ledger_ok (hc_requests s) (hc_called s) (\<lambda>d x. d \<notin> insert c B \<and> held s d x)" unfolding h by (rule D(5))
  qed (use hc_ok_inD [OF ok] in auto)
  show "hc_ok_in B s" if ok: "hc_ok_in (insert c B) s" and p: "cn_pending cn \<noteq> None"
  proof (rule hc_ok_inI)
    note D = hc_ok_inD [OF ok]
    show "conn_ok B s d dn" if "hc_conns s d = Some dn" for d dn
      using D(1) [OF that] c p that by (cases "d = c") (auto simp: conn_ok_def)
    show "ledger_ok (hc_requests s) (hc_called s) (\<lambda>d x. d \<notin> B \<and> held s d x)" using D(5) unfolding h .
  qed (use hc_ok_inD [OF ok] in auto)
qed

lemma ok_drop:
  assumes ok: "hc_ok_in (insert c B) s" and c: "hc_conns s c = Some cn"
  shows "hc_ok_in B (s\<lparr>hc_conns := (hc_conns s)(c := None)\<rparr>)"
proof (rule hc_ok_inI)
  note D = hc_ok_inD [OF ok]
  have "(\<lambda>d x. d \<notin> B \<and> held (s\<lparr>hc_conns := (hc_conns s)(c := None)\<rparr>) d x) = (\<lambda>d x. d \<notin> insert c B \<and> held s d x)"
    by (auto simp: held_def fun_eq_iff)
  then show "ledger_ok (hc_requests (s\<lparr>hc_conns := (hc_conns s)(c := None)\<rparr>)) (hc_called (s\<lparr>hc_conns := (hc_conns s)(c := None)\<rparr>))
      (\<lambda>d x. d \<notin> B \<and> held (s\<lparr>hc_conns := (hc_conns s)(c := None)\<rparr>) d x)" using D(5) by simp
  show "conn_ok B (s\<lparr>hc_conns := (hc_conns s)(c := None)\<rparr>) d dn"
    if "hc_conns (s\<lparr>hc_conns := (hc_conns s)(c := None)\<rparr>) d = Some dn" for d dn
    using D(1) [of d dn] that by (auto simp: conn_ok_def split: if_splits)
qed (use hc_ok_inD [OF ok] in \<open>auto split: if_splits\<close>)

text \<open>A connection changes, but not what it holds, unless it is inside.\<close>

lemma ok_put:
  assumes ok: "hc_ok_in B s" and c: "hc_conns s c = Some cn" and cn': "conn_ok B s c cn'" "c \<in> B \<or> cn_request cn' = cn_request cn"
  shows "hc_ok_in B (put_conn c cn' s)"
proof (rule hc_ok_inI)
  note D = hc_ok_inD [OF ok]
  have "(\<lambda>d x. d \<notin> B \<and> held (put_conn c cn' s) d x) = (\<lambda>d x. d \<notin> B \<and> held s d x)"
    using c cn'(2) by (auto simp: held_def put_conn_def fun_eq_iff)
  then show "ledger_ok (hc_requests (put_conn c cn' s)) (hc_called (put_conn c cn' s)) (\<lambda>d x. d \<notin> B \<and> held (put_conn c cn' s) d x)"
    using D(5) by (simp add: put_conn_def)
  show "conn_ok B (put_conn c cn' s) d dn" if "hc_conns (put_conn c cn' s) d = Some dn" for d dn
    using D(1) [of d dn] that cn'(1) by (auto simp: conn_ok_def put_conn_def split: if_splits)
  show "hc_conns (put_conn c cn' s) d = None" if "hc_pool (put_conn c cn' s) key = Some cs" and "d \<in> set cs" for key cs d
    using D(3) [of key cs d] that c by (auto simp: put_conn_def)
qed (use hc_ok_inD [OF ok] in \<open>auto simp: put_conn_def\<close>)

lemma ok_open:
  fixes s key progress
  defines "s' \<equiv> s\<lparr>hc_requests := hc_requests s + 1, hc_next_conn := hc_next_conn s + 1\<rparr>"
  assumes ok: "hc_ok_in B s" and B: "hc_next_conn s \<notin> B"
  shows "hc_ok_in B (put_conn (hc_next_conn s) (new_conn key (hc_requests s) progress s\<lparr>cn_pending := Some Resolving\<rparr>) s')"
    (is "hc_ok_in B (put_conn ?c ?cn s')")
proof (rule hc_ok_inI)
  note D = hc_ok_inD [OF ok]
  have new: "hc_conns s ?c = None" using D(1) [of ?c] by (cases "hc_conns s ?c") (auto simp: conn_ok_def)
  have "(\<lambda>d x. d \<notin> B \<and> held (put_conn ?c ?cn s') d x) = (\<lambda>d x. if d = ?c then x = hc_requests s else d \<notin> B \<and> held s d x)"
    using B by (auto simp: held_def put_conn_def new_conn_def s'_def fun_eq_iff)
  moreover have "ledger_ok (Suc (hc_requests s)) (hc_called s) (\<lambda>d x. if d = ?c then x = hc_requests s else d \<notin> B \<and> held s d x)"
    by (rule ledger_open [OF D(5)]) (use new in \<open>simp add: held_def\<close>)
  ultimately show "ledger_ok (hc_requests (put_conn ?c ?cn s')) (hc_called (put_conn ?c ?cn s')) (\<lambda>d x. d \<notin> B \<and> held (put_conn ?c ?cn s') d x)"
    by (simp add: put_conn_def s'_def)
  show "conn_ok B (put_conn ?c ?cn s') d dn" if "hc_conns (put_conn ?c ?cn s') d = Some dn" for d dn
    using D(1) [of d dn] that by (auto simp: conn_ok_def put_conn_def new_conn_def s'_def split: if_splits)
  show "hc_conns (put_conn ?c ?cn s') d = None" if "hc_pool (put_conn ?c ?cn s') key' = Some cs" and "d \<in> set cs" for key' cs d
    using D(3,4) [of key' cs d] that by (auto simp: put_conn_def s'_def)
  show "d < hc_next_conn (put_conn ?c ?cn s')" if "hc_pool (put_conn ?c ?cn s') key' = Some cs" and "d \<in> set cs" for key' cs d
    using D(4) [of key' cs d] that by (auto simp: put_conn_def s'_def)
qed (use hc_ok_inD [OF ok] in \<open>auto simp: put_conn_def s'_def\<close>)

lemma ok_pool:
  assumes ok: "hc_ok_in B s" and c: "hc_conns s c = None" "c < hc_next_conn s"
  shows "hc_ok_in B (s\<lparr>hc_pool := (hc_pool s)(key \<mapsto> c # (case hc_pool s key of None \<Rightarrow> [] | Some cs \<Rightarrow> cs))\<rparr>)"
    (is "hc_ok_in B ?s")
proof (rule hc_ok_inI)
  note D = hc_ok_inD [OF ok]
  have p: "hc_pool s k = Some ds \<or> ds = c # (case hc_pool s key of None \<Rightarrow> [] | Some cs \<Rightarrow> cs)" if "hc_pool ?s k = Some ds" for k ds
    using that by (auto split: if_splits)
  have m: "hc_conns s d = None \<and> d < hc_next_conn s" if "hc_pool ?s k = Some ds" and "d \<in> set ds" for k ds d
    using p [OF that(1)]
  proof
    assume "hc_pool s k = Some ds"
    then show ?thesis using D(3,4) that(2) by blast
  next
    assume ds: "ds = c # (case hc_pool s key of None \<Rightarrow> [] | Some cs \<Rightarrow> cs)"
    show ?thesis using D(3,4) [of key _ d] c ds that(2) by (cases "hc_pool s key") auto
  qed
  show "hc_conns ?s d = None" and "d < hc_next_conn ?s" if "hc_pool ?s k = Some ds" and "d \<in> set ds" for k ds d using m [OF that] by simp_all
  show "conn_ok B ?s d dn" if "hc_conns ?s d = Some dn" for d dn using D(1) [of d dn] that by (simp add: conn_ok_def)
  show "ds \<noteq> []" if "hc_pool ?s k = Some ds" for k ds using p [OF that] D(2) [of k ds] by auto
  show "ledger_ok (hc_requests ?s) (hc_called ?s) (\<lambda>d x. d \<notin> B \<and> held ?s d x)" using D(5) by (simp add: held_def)
qed

text \<open>What user code and the operations it may call keep: every other connection is as it was.\<close>

lemma release_ok:
  assumes "release c s = Some s'" and "hc_ok_in (insert c B) s"
  shows "hc_ok_in B s'" and "hc_conns s' = (hc_conns s)(c := None)"
  using assms ok_drop [of c B s] by (auto simp: release_def with_conn_def split: bind_splits)

lemma ok_fresh:
  assumes "hc_ok_in B s"
  shows "hc_conns s (hc_next_conn s) = None"
  using hc_ok_inD(1) [OF assms, of "hc_next_conn s"] by (cases "hc_conns s (hc_next_conn s)") (auto simp: conn_ok_def)

lemma hc_request_pooled:
  assumes "hc_ok_in B s" and "hc_pool s key = Some cs"
  shows "hc_request key sni progress r s = None"
proof -
  have "hc_conns s (hd cs) = None" using hc_ok_inD(2,3) [OF assms] by simp
  then show ?thesis using assms(2) by (simp add: hc_request.simps [of key] Let_def with_conn_def)
qed

lemma put_put [simp]: "put_conn c cn' (put_conn c cn s) = put_conn c cn' s"
  by (simp add: put_conn_def)

lemma put_same: "hc_conns s c = Some cn \<Longrightarrow> put_conn c cn s = s"
  by (cases s) (auto simp: put_conn_def fun_upd_idem)

lemma map_leD: "m \<subseteq>\<^sub>m m' \<Longrightarrow> m k = Some v \<Longrightarrow> m' k = Some v"
  by (auto simp: map_le_def dom_def)

text \<open>A new connection whose first operation cannot be started calls its callback before it waits for anything.\<close>

lemma ok_report_early:
  assumes ok: "hc_ok_in B (put_conn c (cn\<lparr>cn_pending := Some p\<rparr>) s)"
    and c: "c \<notin> B" "hc_conns s c = Some cn" "cn_request cn = Some q"
  shows "hc_ok_in (insert c B) (s\<lparr>hc_called := hc_called s @ [(q, out)]\<rparr>)"
proof -
  let ?p = "put_conn c (cn\<lparr>cn_pending := Some p\<rparr>) s"
  let ?s = "?p\<lparr>hc_called := hc_called ?p @ [(q, out)]\<rparr>"
  have p: "hc_conns ?p c = Some (cn\<lparr>cn_pending := Some p\<rparr>)" by (simp add: put_conn_def)
  have reported: "hc_ok_in (insert c B) ?s" by (rule ok_report [OF ok c(1) p]) (use c(3) in simp)
  have "hc_ok_in (insert c B) (put_conn c cn ?s)"
    by (rule ok_put [OF reported]) (use p hc_ok_inD(1) [OF ok p] in \<open>auto simp: conn_ok_def put_conn_def\<close>)
  moreover have "put_conn c cn ?s = s\<lparr>hc_called := hc_called s @ [(q, out)]\<rparr>"
    using c(2) by (cases s) (simp add: put_conn_def fun_upd_idem)
  ultimately show ?thesis by simp
qed

text \<open>After the callback the connection holds nothing.\<close>

lemma ok_reset:
  assumes ok: "hc_ok_in (insert c B) t" and le: "m \<subseteq>\<^sub>m hc_conns t" and c: "m c = Some cn"
    and s': "with_conn c t (\<lambda>cn. Some (put_conn c (cn\<lparr>cn_request := None, cn_progress := False\<rparr>) t)) = Some s'"
  shows "hc_ok_in (insert c B) s' \<and> m(c \<mapsto> cn\<lparr>cn_request := None, cn_progress := False\<rparr>) \<subseteq>\<^sub>m hc_conns s'"
proof -
  let ?cn = "cn\<lparr>cn_request := None, cn_progress := False\<rparr>"
  have t: "hc_conns t c = Some cn" by (rule map_leD [OF le c])
  with s' have s': "s' = put_conn c ?cn t" by (simp add: with_conn_def)
  have "hc_ok_in (insert c B) s'" unfolding s'
    by (rule ok_put [OF ok t]) (use hc_ok_inD(1) [OF ok t] in \<open>auto simp: conn_ok_def\<close>)
  moreover have "m(c \<mapsto> ?cn) \<subseteq>\<^sub>m hc_conns s'" unfolding s' using map_le_upd [OF le, of c "Some ?cn"] by (simp add: put_conn_def)
  ultimately show ?thesis ..
qed

text \<open>A request that finds no connection in the pool opens one.\<close>

lemma hc_request_opens:
  fixes s key progress
  defines "c \<equiv> hc_next_conn s" and "s1 \<equiv> s\<lparr>hc_requests := hc_requests s + 1\<rparr>"
    and "t \<equiv> s\<lparr>hc_requests := hc_requests s + 1, hc_next_conn := hc_next_conn s + 1\<rparr>"
  defines "cn \<equiv> new_conn key (hc_requests s) progress s1"
  assumes "hc_request key sni progress r s = Some s'" and "hc_ok_in B s" and "B \<subseteq> dom (hc_conns s)"
  shows "hc_pool s key = None" and "hc_resolve c sni r (put_conn c cn t) = Some s'" and "c \<notin> B"
    and "hc_ok_in B (put_conn c (cn\<lparr>cn_pending := Some Resolving\<rparr>) (put_conn c cn t))"
    and "(hc_conns (put_conn c cn t))(c := None) = hc_conns s" and "B \<subseteq> dom (hc_conns (put_conn c cn t))"
proof -
  show key: "hc_pool s key = None" using assms(5) hc_request_pooled [OF assms(6)] by (cases "hc_pool s key") simp_all
  then show "hc_resolve c sni r (put_conn c cn t) = Some s'" using assms(5)
    by (simp add: hc_request.simps [of key] Let_def c_def cn_def t_def s1_def)
  have fresh: "hc_conns s c = None" unfolding c_def by (rule ok_fresh [OF assms(6)])
  then show c: "c \<notin> B" using assms(7) by auto
  have cn: "new_conn key (hc_requests s) progress s = cn" by (simp add: new_conn_def cn_def s1_def)
  show "hc_ok_in B (put_conn c (cn\<lparr>cn_pending := Some Resolving\<rparr>) (put_conn c cn t))"
    using ok_open [OF assms(6) c [unfolded c_def], of key progress] unfolding cn put_put t_def c_def .
  show "(hc_conns (put_conn c cn t))(c := None) = hc_conns s" using fresh by (auto simp: put_conn_def t_def)
  show "B \<subseteq> dom (hc_conns (put_conn c cn t))" using assms(7) by (auto simp: put_conn_def t_def)
qed

lemma hc_react_ok:
  shows hc_request_ok: "hc_request key sni progress r s = Some s' \<Longrightarrow> hc_ok_in B s \<Longrightarrow> B \<subseteq> dom (hc_conns s) \<Longrightarrow>
      hc_ok_in B s' \<and> hc_conns s \<subseteq>\<^sub>m hc_conns s'"
    and hc_resolve_ok: "hc_resolve c sni r s = Some s' \<Longrightarrow> hc_conns s c = Some cn \<Longrightarrow> cn_request cn = Some q \<Longrightarrow> c \<notin> B \<Longrightarrow>
      hc_ok_in B (put_conn c (cn\<lparr>cn_pending := Some Resolving\<rparr>) s) \<Longrightarrow> B \<subseteq> dom (hc_conns s) \<Longrightarrow>
      hc_ok_in B s' \<and> (hc_conns s)(c := None) \<subseteq>\<^sub>m hc_conns s'"
    and hc_finish_ok: "hc_finish c out r s = Some s' \<Longrightarrow> hc_conns s c = Some cn \<Longrightarrow> cn_request cn = Some q \<Longrightarrow>
      hc_ok_in (insert c B) (s\<lparr>hc_called := hc_called s @ [(q, out)]\<rparr>) \<Longrightarrow> B \<subseteq> dom (hc_conns s) \<Longrightarrow>
      hc_ok_in (insert c B) s' \<and> (hc_conns s)(c \<mapsto> cn\<lparr>cn_request := None, cn_progress := False\<rparr>) \<subseteq>\<^sub>m hc_conns s'"
    and hc_user_ok: "hc_user r s = Some s' \<Longrightarrow> hc_ok_in B s \<Longrightarrow> B \<subseteq> dom (hc_conns s) \<Longrightarrow>
      hc_ok_in B s' \<and> hc_conns s \<subseteq>\<^sub>m hc_conns s'"
proof (induction key sni progress r s and c sni r s and c out r s and r s arbitrary: s' B and s' B cn q and s' B cn q and s' B
    rule: hc_request_hc_resolve_hc_finish_hc_user.induct)
  case (1 key sni progress r s)
  let ?c = "hc_next_conn s" and ?s = "s\<lparr>hc_requests := hc_requests s + 1\<rparr>"
  let ?cn = "new_conn key (hc_requests s) progress ?s" and ?t = "s\<lparr>hc_requests := hc_requests s + 1, hc_next_conn := hc_next_conn s + 1\<rparr>"
  note opens = hc_request_opens [OF 1(2-4)]
  have "hc_ok_in B s' \<and> (hc_conns (put_conn ?c ?cn ?t))(?c := None) \<subseteq>\<^sub>m hc_conns s'"
  proof (rule 1(1) [of "hc_requests s" ?s ?c _ "?cn" "hc_requests s"])
    show "hc_ok_in B (put_conn ?c (?cn\<lparr>cn_pending := Some Resolving\<rparr>) (put_conn ?c ?cn ?t))" by (rule opens(4))
    show "B \<subseteq> dom (hc_conns (put_conn ?c ?cn ?t))" by (rule opens(6))
  qed (use opens(1-3) in \<open>simp_all add: put_conn_def new_conn_def\<close>)
  then show ?case unfolding opens(5) .
next
  case (2 c sni r s)
  show ?case
  proof (cases "sni \<noteq> None \<and> fst (cn_key cn) = Https_verify_none")
    case False
    then have "s' = put_conn c (cn\<lparr>cn_pending := Some Resolving\<rparr>) s" using 2(2,3)
      by (auto simp: hc_resolve.simps [of c] with_conn_def begin_op_def split: option.splits if_splits)
    then show ?thesis using 2(6) by (auto simp: put_conn_def map_le_def)
  next
    case True
    then obtain ec where ec: "sni = Some ec" by auto
    with True 2(2,3) obtain t where t: "hc_finish c (Failed ec) r s = Some t" "release c t = Some s'"
      by (auto simp: hc_resolve.simps [of c] with_conn_def split: bind_splits)
    have "hc_ok_in (insert c B) t \<and> (hc_conns s)(c \<mapsto> cn\<lparr>cn_request := None, cn_progress := False\<rparr>) \<subseteq>\<^sub>m hc_conns t"
      by (rule 2(1) [OF ec conjunct2 [OF True] t(1) 2(3,4) ok_report_early [OF 2(6,5,3,4)] 2(7)])
    then have t2: "hc_ok_in (insert c B) t" "(hc_conns s)(c \<mapsto> cn\<lparr>cn_request := None, cn_progress := False\<rparr>) \<subseteq>\<^sub>m hc_conns t" by simp_all
    from map_le_upd [OF t2(2), of c None] release_ok [OF t(2) t2(1)] show ?thesis by (simp only: fun_upd_upd simp_thms)
  qed
next
  case (3 c out r s)
  let ?s = "s\<lparr>hc_called := hc_called s @ [(q, out)]\<rparr>"
  obtain t where t: "hc_user r ?s = Some t" and s': "with_conn c t (\<lambda>cn. Some (put_conn c (cn\<lparr>cn_request := None, cn_progress := False\<rparr>) t)) = Some s'"
    using 3(2-4) by (auto simp: hc_finish.simps [of c] with_conn_def split: bind_splits)
  have ok: "hc_ok_in (insert c B) t \<and> hc_conns ?s \<subseteq>\<^sub>m hc_conns t"
    by (rule 3(1) [OF 3(4) t 3(5)]) (use 3(3,6) in auto)
  then have "hc_ok_in (insert c B) t" "hc_conns s \<subseteq>\<^sub>m hc_conns t" by simp_all
  from ok_reset [OF this 3(3) s'] show ?case .
next
  case (4 s)
  then show ?case by simp
next
  case (5 key sni progress r rest s)
  then obtain t where t: "hc_request key sni progress r s = Some t" "hc_user rest t = Some s'" by (auto split: bind_splits)
  note t1 = 5(1) [OF t(1) 5(4,5)]
  then have "B \<subseteq> dom (hc_conns t)" using 5(5) map_le_implies_dom_le by blast
  with t1 5(2) [OF t, of B] show ?case by (blast intro: map_le_trans)
qed

section \<open>What the handlers keep\<close>

text \<open>The connection after \<^verbatim>\<open>finish\<close>, and a state in which its callback may be called.\<close>

definition idle :: "connection \<Rightarrow> connection" where
  "idle cn = cn\<lparr>cn_request := None, cn_progress := False\<rparr>"

definition reporting :: "nat \<Rightarrow> connection \<Rightarrow> 'r outcome \<Rightarrow> 'r http_client \<Rightarrow> bool" where
  "reporting c cn out s \<longleftrightarrow> hc_conns s c = Some cn \<and>
     hc_ok_in {c} (case cn_request cn of None \<Rightarrow> s | Some q \<Rightarrow> s\<lparr>hc_called := hc_called s @ [(q, out)]\<rparr>)"

lemma reporting_ok: "hc_ok s \<Longrightarrow> hc_conns s c = Some cn \<Longrightarrow> reporting c cn out s"
  using ok_report [of "{}" s c cn] ok_idle(1) [of s c cn "{}"] by (auto simp: reporting_def split: option.split)

lemma reporting_idle: "hc_ok_in {c} s \<Longrightarrow> hc_conns s c = Some (idle cn) \<Longrightarrow> reporting c (idle cn) out s"
  by (simp add: reporting_def idle_def)

lemma idle_ok:
  assumes "hc_ok_in {c} s" and "hc_conns s c = Some cn"
  shows "hc_ok_in {c} (put_conn c (idle cn) s)"
  by (rule ok_put [OF assms]) (use hc_ok_inD(1) [OF assms] in \<open>auto simp: conn_ok_def idle_def\<close>)

lemma finish_ok:
  assumes "reporting c cn out s" and "hc_finish c out r s = Some s'"
  shows "hc_ok_in {c} s'" and "hc_conns s' c = Some (idle cn)"
proof -
  have "hc_ok_in {c} s' \<and> hc_conns s' c = Some (idle cn)"
  proof (cases "cn_request cn")
    case None
    with assms idle_ok [of c s cn] show ?thesis
      by (auto simp: reporting_def hc_finish.simps [of c] with_conn_def idle_def put_conn_def)
  next
    case (Some q)
    with assms hc_finish_ok [OF assms(2), of cn q "{}"] map_leD [of "(hc_conns s)(c \<mapsto> idle cn)" "hc_conns s'" c "idle cn"]
    show ?thesis by (simp add: reporting_def idle_def)
  qed
  then show "hc_ok_in {c} s'" and "hc_conns s' c = Some (idle cn)" by simp_all
qed

lemma close_ok:
  assumes "reporting c cn (Failed Timed_out) s" and "hc_close c r s = Some s'"
  shows "hc_ok_in {c} s'" and "hc_conns s' c = Some (idle cn)"
proof -
  from assms(2) obtain t where t: "hc_finish c (Failed Timed_out) r s = Some t" by (auto simp: hc_close_def split: bind_splits)
  note f = finish_ok [OF assms(1) t]
  have "s' = t" using assms(2) t f(2) hc_ok_inD(1) [OF f] by (auto simp: hc_close_def with_conn_def conn_ok_def)
  then show "hc_ok_in {c} s'" and "hc_conns s' c = Some (idle cn)" using f by simp_all
qed

lemma op_ok:
  assumes ok: "hc_ok_in B s"
  shows keep_alive_ok: "keep_alive c s = Some s' \<Longrightarrow> hc_ok_in B s'"
    and begin_op_ok: "begin_op c p s = Some s' \<Longrightarrow> hc_ok_in B s'"
proof -
  show "hc_ok_in B s'" if k: "keep_alive c s = Some s'"
  proof -
    obtain cn where cn: "hc_conns s c = Some cn" and s': "s' = put_conn c (cn\<lparr>cn_timer := map_option (\<lambda>_. hc_now s + hc_timeout s) (cn_timer cn)\<rparr>) s"
      using k by (auto simp: keep_alive_def with_conn_def split: bind_splits)
    show ?thesis unfolding s'
      by (rule ok_put [OF ok cn]) (use hc_ok_inD(1) [OF ok cn] in \<open>auto simp: conn_ok_def\<close>)
  qed
  show "hc_ok_in B s'" if b: "begin_op c p s = Some s'"
  proof -
    obtain cn where cn: "hc_conns s c = Some cn" and s': "s' = put_conn c (cn\<lparr>cn_pending := Some p\<rparr>) s"
      using b by (auto simp: begin_op_def with_conn_def split: bind_splits)
    show ?thesis unfolding s'
      by (rule ok_put [OF ok cn]) (use hc_ok_inD(1) [OF ok cn] in \<open>auto simp: conn_ok_def\<close>)
  qed
qed

lemma hc_write_ok: "hc_ok_in B s \<Longrightarrow> hc_write c s = Some s' \<Longrightarrow> hc_ok_in B s'"
  by (auto simp: hc_write_def split: bind_splits intro: op_ok)

lemma hc_handshake_ok: "hc_ok_in B s \<Longrightarrow> hc_handshake c s = Some s' \<Longrightarrow> hc_ok_in B s'"
  by (auto simp: hc_handshake_def with_conn_def split: bind_splits protocol.splits intro: hc_write_ok begin_op_ok)

lemma finish_and_leave_ok:
  assumes "hc_ok s" and "finish_and_leave c ec r s = Some s'" and "hc_conns s c = Some cn"
  shows "hc_ok s'"
proof -
  from assms(2) obtain t where t: "hc_finish c (Failed ec) r s = Some t" "release c t = Some s'"
    by (auto simp: finish_and_leave_def split: bind_splits)
  show ?thesis by (rule release_ok [OF t(2) finish_ok(1) [OF reporting_ok [OF assms(1,3)] t(1)]])
qed

lemma finish_and_close_ok:
  assumes "hc_ok s" and "finish_and_close c ec r s = Some s'" and "hc_conns s c = Some cn"
  shows "hc_ok s'"
proof -
  from assms(2) obtain t u where t: "hc_finish c (Failed ec) r s = Some t" "hc_close c Quiet t = Some u" "release c u = Some s'"
    by (auto simp: finish_and_close_def split: bind_splits)
  note f = finish_ok [OF reporting_ok [OF assms(1,3)] t(1)]
  note g = close_ok [OF reporting_idle [OF f] t(2)]
  show ?thesis by (rule release_ok [OF t(3) g(1)])
qed

lemma hc_ok_progress [simp]: "hc_ok_in B (s\<lparr>hc_progress := l\<rparr>) = hc_ok_in B s"
  by (simp add: hc_ok_in_def conn_ok_def pool_ok_def held_def)

lemma call_progress_ok:
  assumes "hc_ok s" and "call_progress c r s = Some s'"
  shows "hc_ok s'"
  using assms by (auto simp: call_progress_def with_conn_def split: bind_splits option.splits if_splits dest: hc_user_ok)

lemma answered_ok:
  assumes ok: "hc_ok s" and cn: "hc_conns s c = Some cn" and s': "on_read_some c (Inr (Some x)) r s = Some s'"
  shows "hc_ok s'"
proof -
  from s' obtain t where t: "hc_finish c (Answered x) r s = Some t" by (auto simp: on_read_some_def split: bind_splits)
  note f = finish_ok [OF reporting_ok [OF ok cn] t]
  let ?d = "t\<lparr>hc_conns := (hc_conns t)(c := None)\<rparr>" and ?k = "cn_key (idle cn)"
  have "s' = ?d\<lparr>hc_pool := (hc_pool ?d)(?k \<mapsto> c # (case hc_pool ?d ?k of None \<Rightarrow> [] | Some cs \<Rightarrow> cs))\<rparr>"
    using s' t f(2) by (cases t) (simp add: on_read_some_def with_conn_def keep_alive_def release_def put_conn_def Let_def)
  also have "hc_ok \<dots>" by (rule ok_pool [OF ok_drop [OF f]]) (use hc_ok_inD(1) [OF f] in \<open>simp_all add: conn_ok_def\<close>)
  finally show ?thesis .
qed

lemma timed_out_ok:
  assumes ok: "hc_ok s" and cn: "hc_conns s c = Some cn" and s': "on_conn_timer c r s = Some s'"
  shows "hc_ok s'"
proof -
  let ?cn = "cn\<lparr>cn_timer := None\<rparr>" and ?out = "Failed Timed_out"
  let ?X = "\<lambda>s. case cn_request cn of None \<Rightarrow> s | Some q \<Rightarrow> s\<lparr>hc_called := hc_called s @ [(q, ?out)]\<rparr>"
  have X: "hc_conns (?X s) = hc_conns s" "hc_ok_in {c} (?X s)"
    using reporting_ok [OF ok cn, of ?out] by (simp_all add: reporting_def split: option.split)
  have "hc_ok_in {c} (put_conn c ?cn (?X s))"
    by (rule ok_put [OF X(2)]) (use hc_ok_inD(1) [OF X(2)] X(1) cn in \<open>auto simp: conn_ok_def\<close>)
  then have "reporting c ?cn ?out (put_conn c ?cn s)" by (cases s; cases "cn_request cn") (simp_all add: reporting_def put_conn_def)
  from close_ok [OF this] have f: "hc_ok_in {c} s'" "hc_conns s' c = Some (idle ?cn)" using s' cn by (simp_all add: on_conn_timer_def with_conn_def)
  show ?thesis by (rule ok_idle(2) [OF f(2) _ f(1)]) (use hc_ok_inD(1) [OF ok cn] in \<open>simp_all add: idle_def conn_ok_def\<close>)
qed

lemma tick_ok: "hc_ok s \<Longrightarrow> hc_now s \<le> now \<Longrightarrow> hc_ok (s\<lparr>hc_now := now\<rparr>)"
  by (fastforce simp: hc_ok_in_def conn_ok_def pool_ok_def held_def)

lemma new_ok: "hc_ok (http_client_new now timeout :: 'r http_client)"
proof -
  have "held (http_client_new now timeout :: 'r http_client) = (\<lambda>c q. False)" by (simp add: held_def http_client_new_def fun_eq_iff)
  then show ?thesis by (simp add: hc_ok_in_def pool_ok_def http_client_new_def ledger_new)
qed

lemmas handler_ok = finish_and_leave_ok finish_and_close_ok begin_op_ok keep_alive_ok hc_write_ok hc_handshake_ok call_progress_ok
  answered_ok timed_out_ok tick_ok

lemma on_read_header_ok:
  assumes ok: "hc_ok s" and cn: "hc_conns s c = Some cn" and s': "on_read_header c ec r s = Some s'"
  shows "hc_ok s'"
proof (cases "cn_request cn")
  case None
  then obtain t where t: "hc_close c r s = Some t" "release c t = Some s'"
    using s' cn by (auto simp: on_read_header_def with_conn_def split: bind_splits)
  show ?thesis by (rule release_ok [OF t(2) close_ok(1) [OF reporting_ok [OF ok cn] t(1)]])
next
  case (Some q)
  with s' ok cn show ?thesis
    by (auto simp: on_read_header_def with_conn_def split: option.splits bind_splits intro: handler_ok)
qed

lemma on_read_some_ok:
  assumes ok: "hc_ok s" and cn: "hc_conns s c = Some cn" and s': "on_read_some c res r s = Some s'"
  shows "hc_ok s'"
proof -
  consider (error) e where "res = Inl e" | (some) "res = Inr None" | (answered) x where "res = Inr (Some x)"
    by (cases res) (auto intro: option.exhaust)
  then show ?thesis
  proof cases
    case error
    then show ?thesis using s' by (intro finish_and_close_ok [OF ok _ cn]) (simp add: on_read_some_def)
  next
    case some
    then obtain t u where "call_progress c r s = Some t" "keep_alive c t = Some u" "begin_op c Reading_some u = Some s'"
      using s' by (auto simp: on_read_some_def split: bind_splits)
    then show ?thesis using ok call_progress_ok keep_alive_ok begin_op_ok by blast
  next
    case answered
    with answered_ok [OF ok cn] s' show ?thesis by simp
  qed
qed

lemma hc_step_ok:
  assumes "hc_step s res" and "hc_ok s" and "res = Some s'"
  shows "hc_ok s'"
  using assms
proof (induction rule: hc_step.induct)
  case (request s key sni progress r)
  then show ?case using hc_request_ok [of key sni progress r s s' "{}"] by simp
next
  case (header s c ec r)
  then show ?case using on_read_header_ok by (fastforce simp: pending_at_def)
next
  case (some_read s c res r)
  then show ?case using on_read_some_ok by (fastforce simp: pending_at_def)
qed (auto simp: pending_at_def on_resolve_def on_connect_def on_handshake_def on_write_def split: option.splits intro: handler_ok)

interpretation http: callback_system "http_client_new now timeout" hc_next hc_ok hc_requests hc_called held
proof unfold_locales
  show "hc_ok (http_client_new now timeout)" by (rule new_ok)
  show "hc_ok s'" if "hc_next s s'" and "hc_ok s" for s s' :: "'r http_client"
    using hc_step_ok that by (auto simp: hc_next_def)
  show "ledger_ok (hc_requests s) (hc_called s) (held s)" if "hc_ok s" for s :: "'r http_client"
    using hc_ok_inD(5) [OF that] by simp
qed

section \<open>Properties\<close>

text \<open>When the timer of a connection fires, the callback of its request is called.\<close>

lemma timeout_reports:
  assumes "hc_ok s" and "hc_conns s c = Some cn" and "cn_request cn = Some q"
  shows "\<exists>s'. on_conn_timer c Quiet s = Some s' \<and> hc_called s' = hc_called s @ [(q, Failed Timed_out)]"
  using assms hc_ok_inD(1) [OF assms(1,2)]
  by (simp add: on_conn_timer_def with_conn_def hc_close_def hc_finish.simps [of c] put_conn_def conn_ok_def)

text \<open>One exchange over plain HTTP, from the first operation to the response.\<close>

definition sample_key :: connection_key where
  "sample_key = (Http, ''ice'', 80)"

definition sample_at :: "pending \<Rightarrow> nat http_client" where
  "sample_at p = \<lparr>hc_now = 0, hc_timeout = 60, hc_conns = (\<lambda>c. None)(0 := Some \<lparr>cn_key = sample_key, cn_request = Some 0,
       cn_progress = False, cn_pending = Some p, cn_pooled = False, cn_timer = Some 60\<rparr>),
     hc_pool = \<lambda>k. None, hc_next_conn = 1, hc_requests = 1, hc_called = [], hc_progress = []\<rparr>"

definition sample_answered :: "nat http_client" where
  "sample_answered = \<lparr>hc_now = 0, hc_timeout = 60, hc_conns = \<lambda>c. None, hc_pool = (\<lambda>k. None)(sample_key := Some [0]),
     hc_next_conn = 1, hc_requests = 1, hc_called = [(0, Answered 200)], hc_progress = []\<rparr>"

lemma sample_steps:
  "hc_request sample_key None False Quiet (http_client_new 0 60) = Some (sample_at Resolving)"
  "on_resolve 0 None Quiet (sample_at Resolving) = Some (sample_at Connecting)"
  "on_connect 0 None Quiet (sample_at Connecting) = Some (sample_at Writing)"
  "on_write 0 None Quiet (sample_at Writing) = Some (sample_at Reading_header)"
  "on_read_header 0 None Quiet (sample_at Reading_header) = Some (sample_at Reading_some)"
  "on_read_some 0 (Inr (Some 200)) Quiet (sample_at Reading_some) = Some sample_answered"
  by (simp_all add: hc_request.simps Let_def hc_resolve.simps [of 0] http_client_new_def sample_key_def begin_op_def
      put_conn_def new_conn_def with_conn_def keep_alive_def on_resolve_def on_connect_def hc_handshake_def hc_write_def on_write_def
      on_read_header_def on_read_some_def hc_finish.simps [of 0] release_def sample_at_def sample_answered_def fun_upd_idem)

lemma sample_reachable:
  "hc_next\<^sup>*\<^sup>* (http_client_new 0 60) (sample_at Reading_some)" "hc_next\<^sup>*\<^sup>* (http_client_new 0 60) sample_answered"
proof -
  have p: "pending_at (sample_at p) 0 p" for p by (simp add: pending_at_def sample_at_def)
  have "hc_next (http_client_new 0 60) (sample_at Resolving)"
    using hc_step.request [of "http_client_new 0 60 :: nat http_client" sample_key None False Quiet] by (simp add: hc_next_def sample_steps)
  moreover have "hc_next (sample_at Resolving) (sample_at Connecting)"
    using resolved [OF p, of None Quiet] by (simp add: hc_next_def sample_steps)
  moreover have "hc_next (sample_at Connecting) (sample_at Writing)"
    using connected [OF p, of None Quiet] by (simp add: hc_next_def sample_steps)
  moreover have "hc_next (sample_at Writing) (sample_at Reading_header)"
    using written [OF p, of None Quiet] by (simp add: hc_next_def sample_steps)
  moreover have "hc_next (sample_at Reading_header) (sample_at Reading_some)"
    using header [OF p, of None Quiet] by (simp add: hc_next_def sample_steps)
  ultimately show r: "hc_next\<^sup>*\<^sup>* (http_client_new 0 60) (sample_at Reading_some)"
    by (meson converse_rtranclp_into_rtranclp rtranclp.rtrancl_refl)
  have "hc_next (sample_at Reading_some) sample_answered"
    using some_read [OF p, of "Inr (Some 200)" Quiet] by (simp add: hc_next_def sample_steps)
  with r show "hc_next\<^sup>*\<^sup>* (http_client_new 0 60) sample_answered" by (rule rtranclp.rtrancl_into_rtrancl)
qed

text \<open>C30. In every reachable state of the HTTP client, whatever the callbacks do, each request's callback has been called at
  most once, and no request is lost: one whose callback has not been called is held by exactly one connection, which
  waits for an asynchronous operation and whose timer is due within the timeout from now; when it fires, the callback
  is called.\<close>

theorem http_client_callback_once:
  assumes "hc_next\<^sup>*\<^sup>* (http_client_new now timeout) s"
  shows "distinct (map fst (hc_called s)) \<and>
    (\<forall>q < hc_requests s. q \<notin> fst ` set (hc_called s) \<longrightarrow>
      (\<exists>!c. held s c q) \<and>
      (\<exists>c cn p x. hc_conns s c = Some cn \<and> cn_request cn = Some q \<and> cn_pending cn = Some p \<and> cn_timer cn = Some x \<and>
        x \<le> hc_now s + hc_timeout s \<and>
        (\<exists>s'. on_conn_timer c Quiet s = Some s' \<and> hc_called s' = hc_called s @ [(q, Failed Timed_out)])))"
proof -
  note ok = http.reach_inv [OF assms]
  have w: "\<exists>c cn p x. hc_conns s c = Some cn \<and> cn_request cn = Some q \<and> cn_pending cn = Some p \<and> cn_timer cn = Some x \<and>
      x \<le> hc_now s + hc_timeout s \<and> (\<exists>s'. on_conn_timer c Quiet s = Some s' \<and> hc_called s' = hc_called s @ [(q, Failed Timed_out)])"
    if "\<exists>!c. held s c q" for q
  proof -
    obtain c cn where cn: "hc_conns s c = Some cn" "cn_request cn = Some q" using \<open>\<exists>!c. held s c q\<close> by (auto simp: held_def)
    with hc_ok_inD(1) [OF ok cn(1)] timeout_reports [OF ok cn] show ?thesis by (auto simp: conn_ok_def)
  qed
  show ?thesis
    by (intro conjI allI impI http.called_once [OF assms] http.not_lost [OF assms] w [OF http.not_lost [OF assms]])
qed

theorem http_client_callback_once_witness:
  "\<exists>!c. held (sample_at Reading_some) c 0"
  using http_client_callback_once [OF sample_reachable(1)] by (simp add: sample_at_def)

text \<open>C31. Idle connections cannot be reused: every connection in the pool has been destroyed when the handler that
  put it there returned, so in every reachable state a request to a protocol, host and port with an idle connection
  has no defined behaviour.\<close>

theorem http_client_reuse_undefined:
  assumes "hc_next\<^sup>*\<^sup>* (http_client_new now timeout) s" and "hc_pool s key = Some cs"
  shows "set cs \<inter> dom (hc_conns s) = {} \<and> hc_request key sni progress r s = None"
proof -
  note ok = http.reach_inv [OF assms(1)]
  have "hc_conns s c = None" if "c \<in> set cs" for c using hc_ok_inD(3) [OF ok assms(2) that] .
  then show ?thesis using hc_request_pooled [OF ok assms(2)] by auto
qed

theorem http_client_reuse_undefined_witness: "hc_request sample_key None False Quiet sample_answered = None"
  using http_client_reuse_undefined [OF sample_reachable(2), of sample_key "[0]"] by (simp add: sample_answered_def)

end
