(* ===== verification/Http_Server.thy ===== *)
theory Http_Server
  imports Trunk_Prelude
begin

text \<open>
  \<^verbatim>\<open>net/http/server.cc\<close>: the connections of the server and the accept loop. A connection reads a request, calls the
  handler, writes the response and reads again; one asynchronous operation or one handler call is outstanding at a time and owns
  the connection. The HTTP messages and the sockets are Boost's: requests and responses are of any types \<open>'q\<close> and
  \<open>'p\<close>, with the values \<open>q0\<close> and \<open>p0\<close> that their default constructors give and the test \<open>need_eof\<close> of a
  response. An operation completes at any time, a read with a request or an error, a write with or without an error.
  The handler calls its callback once, before it returns (\<open>Some (p, result)\<close>) or later (\<open>None\<close>); \<open>p\<close> is what it has
  made of the response it was given by then. The timer of the connection fires at any time while it is set.

  \<open>None\<close> as a state is the use of \<^verbatim>\<open>timer_\<close> after \<^verbatim>\<open>close\<close> has reset it, which has no defined behaviour.
  \<open>sc_handled\<close> records the handler calls, each with the request and the response it was given, \<open>sc_sent\<close> the
  responses whose write has completed.
\<close>

datatype awaiting = Reading | Handling | Responding

record ('q, 'p) server_conn =
  sc_awaiting :: "awaiting option"
  sc_timer :: bool
  sc_fired :: bool
  sc_open :: bool
  sc_request :: 'q
  sc_response :: 'p
  sc_handled :: "('q \<times> 'p) list"
  sc_sent :: "'p list"

section \<open>Operations\<close>

definition sc_read :: "'q \<Rightarrow> ('q, 'p) server_conn \<Rightarrow> ('q, 'p) server_conn" where
  "sc_read q0 s = s\<lparr>sc_request := q0, sc_awaiting := Some Reading\<rparr>"

definition server_conn_new :: "'q \<Rightarrow> 'p \<Rightarrow> ('q, 'p) server_conn" where
  "server_conn_new q0 p0 =
     sc_read q0 \<lparr>sc_awaiting = None, sc_timer = True, sc_fired = False, sc_open = True, sc_request = q0, sc_response = p0,
       sc_handled = [], sc_sent = []\<rparr>"

text \<open>The end of a handler that starts nothing: the connection is destroyed.\<close>

definition sc_release :: "('q, 'p) server_conn \<Rightarrow> ('q, 'p) server_conn" where
  "sc_release s = s\<lparr>sc_awaiting := None\<rparr>"

definition sc_close :: "('q, 'p) server_conn \<Rightarrow> ('q, 'p) server_conn" where
  "sc_close s = s\<lparr>sc_timer := False, sc_open := False\<rparr>"

text \<open>\<^verbatim>\<open>timer_->update()\<close>.\<close>

definition sc_update_timer :: "('q, 'p) server_conn \<Rightarrow> ('q, 'p) server_conn option" where
  "sc_update_timer s = (if sc_timer s then Some s else None)"

definition sc_write :: "('q, 'p) server_conn \<Rightarrow> ('q, 'p) server_conn" where
  "sc_write s = s\<lparr>sc_awaiting := Some Responding\<rparr>"

text \<open>The callback that the handler is given, called when the handler has made \<open>p\<close> of the response.\<close>

definition sc_callback :: "'p \<Rightarrow> errc option \<Rightarrow> ('q, 'p) server_conn \<Rightarrow> ('q, 'p) server_conn option" where
  "sc_callback p ec s =
     (let s = s\<lparr>sc_response := p\<rparr>
      in case ec of
           Some e \<Rightarrow> Some (sc_release (sc_close s))
         | None \<Rightarrow> sc_update_timer (sc_write s))"

definition sc_handle :: "('p \<times> errc option) option \<Rightarrow> ('q, 'p) server_conn \<Rightarrow> ('q, 'p) server_conn option" where
  "sc_handle sync s =
     (let s = s\<lparr>sc_handled := sc_handled s @ [(sc_request s, sc_response s)], sc_awaiting := Some Handling\<rparr>
      in case sync of None \<Rightarrow> Some s | Some (p, result) \<Rightarrow> sc_callback p result s)"

definition sc_on_read :: "errc + 'q \<Rightarrow> ('p \<times> errc option) option \<Rightarrow> ('q, 'p) server_conn \<Rightarrow> ('q, 'p) server_conn option" where
  "sc_on_read res sync s =
     (case res of
        Inl e \<Rightarrow> Some (sc_release (sc_close s))
      | Inr q \<Rightarrow> Option.bind (sc_handle sync (s\<lparr>sc_request := q\<rparr>)) sc_update_timer)"

definition sc_on_write :: "'q \<Rightarrow> ('p \<Rightarrow> bool) \<Rightarrow> errc option \<Rightarrow> ('q, 'p) server_conn \<Rightarrow> ('q, 'p) server_conn option" where
  "sc_on_write q0 need_eof ec s =
     (let s = (if ec = None then s\<lparr>sc_sent := sc_sent s @ [sc_response s]\<rparr> else s)
      in if ec \<noteq> None \<or> need_eof (sc_response s) then Some (sc_release (sc_close s)) else sc_update_timer (sc_read q0 s))"

definition sc_on_timer :: "('q, 'p) server_conn \<Rightarrow> ('q, 'p) server_conn" where
  "sc_on_timer s = sc_close (s\<lparr>sc_fired := True\<rparr>)"

section \<open>Steps\<close>

inductive sc_step :: "'q \<Rightarrow> ('p \<Rightarrow> bool) \<Rightarrow> ('q, 'p) server_conn \<Rightarrow> ('q, 'p) server_conn option \<Rightarrow> bool" for q0 need_eof where
  was_read: "sc_awaiting s = Some Reading \<Longrightarrow> sc_step q0 need_eof s (sc_on_read res sync s)"
| answered: "sc_awaiting s = Some Handling \<Longrightarrow> sc_step q0 need_eof s (sc_callback p ec s)"
| was_written: "sc_awaiting s = Some Responding \<Longrightarrow> sc_step q0 need_eof s (sc_on_write q0 need_eof ec s)"
| timeout: "sc_timer s \<Longrightarrow> sc_awaiting s \<noteq> None \<Longrightarrow> sc_step q0 need_eof s (Some (sc_on_timer s))"

inductive sc_reachable :: "'q \<Rightarrow> 'p \<Rightarrow> ('p \<Rightarrow> bool) \<Rightarrow> ('q, 'p) server_conn \<Rightarrow> bool" for q0 p0 need_eof where
  start: "sc_reachable q0 p0 need_eof (server_conn_new q0 p0)"
| step: "sc_reachable q0 p0 need_eof s \<Longrightarrow> sc_step q0 need_eof s (Some s') \<Longrightarrow> sc_reachable q0 p0 need_eof s'"

text \<open>The socket is open exactly while the timer is set, and it is closed under an outstanding operation only by the timer.\<close>

definition sc_life_ok :: "('q, 'p) server_conn \<Rightarrow> bool" where
  "sc_life_ok s \<longleftrightarrow> sc_open s = sc_timer s \<and> (sc_awaiting s \<noteq> None \<longrightarrow> sc_timer s = (\<not> sc_fired s)) \<and>
     (sc_awaiting s = None \<longrightarrow> \<not> sc_open s)"

text \<open>Responses are in step with requests, and each handler call is given the response that was sent before it.\<close>

definition sc_messages_ok :: "'q \<Rightarrow> 'p \<Rightarrow> ('p \<Rightarrow> bool) \<Rightarrow> ('q, 'p) server_conn \<Rightarrow> bool" where
  "sc_messages_ok q0 p0 need_eof s \<longleftrightarrow> list_all (\<lambda>p. \<not> need_eof p) (butlast (sc_sent s)) \<and>
     (sc_awaiting s \<noteq> None \<longrightarrow> list_all (\<lambda>p. \<not> need_eof p) (sc_sent s)) \<and>
     (case sc_awaiting s of
        Some Reading \<Rightarrow> map snd (sc_handled s) @ [sc_response s] = p0 # sc_sent s \<and> sc_request s = q0
      | Some _ \<Rightarrow> map snd (sc_handled s) = p0 # sc_sent s \<and> sc_request s = fst (last (sc_handled s))
      | None \<Rightarrow> map snd (sc_handled s) = p0 # sc_sent s \<or> (\<exists>p. map snd (sc_handled s) @ [p] = p0 # sc_sent s))"

lemmas sc_defs = sc_on_read_def sc_handle_def sc_callback_def sc_on_write_def sc_on_timer_def sc_close_def sc_release_def
  sc_read_def sc_write_def sc_update_timer_def Let_def

lemma sc_step_life:
  assumes "sc_step q0 need_eof s r" and "sc_life_ok s" and "r = Some s'"
  shows "sc_life_ok s'"
  using assms
  by (induction rule: sc_step.induct) (auto simp: sc_life_ok_def sc_defs split: option.splits if_splits sum.splits)

lemma butlast_all: "list_all P xs \<Longrightarrow> list_all P (butlast xs)"
  by (auto simp: list_all_iff dest: in_set_butlastD)

lemma sc_step_messages:
  assumes "sc_step q0 need_eof s r" and "sc_messages_ok q0 p0 need_eof s" and "r = Some s'"
  shows "sc_messages_ok q0 p0 need_eof s'"
  using assms
proof (induction rule: sc_step.induct)
  case (was_read s res sync)
  then show ?case
    by (auto simp: sc_messages_ok_def sc_defs butlast_all split: option.splits if_splits sum.splits)
next
  case (answered s p ec)
  then show ?case by (auto simp: sc_messages_ok_def sc_defs split: option.splits if_splits)
next
  case (was_written s ec)
  then show ?case by (auto simp: sc_messages_ok_def sc_defs butlast_all split: option.splits if_splits)
next
  case (timeout s)
  then show ?case by (auto simp: sc_messages_ok_def sc_defs split: option.splits awaiting.splits)
qed

lemma sc_new_ok: "sc_life_ok (server_conn_new q0 p0)" "sc_messages_ok q0 p0 need_eof (server_conn_new q0 p0)"
  by (simp_all add: sc_life_ok_def sc_messages_ok_def server_conn_new_def sc_read_def)

lemma sc_reachable_life: "sc_reachable q0 p0 need_eof s \<Longrightarrow> sc_life_ok s"
  by (induction rule: sc_reachable.induct) (blast intro: sc_new_ok sc_step_life)+

lemma sc_reachable_messages: "sc_reachable q0 p0 need_eof s \<Longrightarrow> sc_messages_ok q0 p0 need_eof s"
  by (induction rule: sc_reachable.induct) (blast intro: sc_new_ok sc_step_messages)+

lemma sc_new_awaiting [simp]: "sc_awaiting (server_conn_new q0 p0) = Some Reading"
  by (simp add: server_conn_new_def sc_read_def)

section \<open>Properties\<close>

text \<open>Two requests, served one after the other: the first handler call answers at once, the second later.\<close>

definition sample_second :: "(nat, string) server_conn" where
  "sample_second = \<lparr>sc_awaiting = Some Handling, sc_timer = True, sc_fired = False, sc_open = True, sc_request = 7, sc_response = ''one'',
     sc_handled = [(5, []), (7, ''one'')], sc_sent = [''one'']\<rparr>"

lemma sample_second_reachable: "sc_reachable 0 [] (\<lambda>p. p = ''close'') sample_second"
proof -
  let ?e = "\<lambda>p. p = ''close''"
  let ?a = "\<lparr>sc_awaiting = Some Responding, sc_timer = True, sc_fired = False, sc_open = True, sc_request = 5, sc_response = ''one'',
     sc_handled = [(5, [])], sc_sent = []\<rparr> :: (nat, string) server_conn"
  let ?b = "\<lparr>sc_awaiting = Some Reading, sc_timer = True, sc_fired = False, sc_open = True, sc_request = 0, sc_response = ''one'',
     sc_handled = [(5, [])], sc_sent = [''one'']\<rparr> :: (nat, string) server_conn"
  have "sc_on_read (Inr 5) (Some (''one'', None)) (server_conn_new 0 []) = Some ?a" by (simp add: sc_defs server_conn_new_def)
  then have "sc_reachable 0 [] ?e ?a"
    using sc_reachable.step [OF sc_reachable.start] was_read [of "server_conn_new 0 []" "0::nat" ?e "Inr 5" "Some (''one'', None)"]
    by simp
  moreover have "sc_on_write 0 ?e None ?a = Some ?b" by (simp add: sc_defs)
  ultimately have "sc_reachable 0 [] ?e ?b" using sc_reachable.step was_written [of ?a 0 ?e None] by simp
  moreover have "sc_on_read (Inr 7) None ?b = Some sample_second" by (simp add: sc_defs sample_second_def)
  ultimately show ?thesis using sc_reachable.step was_read [of ?b 0 ?e "Inr 7" None] by simp
qed

text \<open>C32. A connection of the HTTP server answers its requests one after the other, whatever the handler does and
  whenever operations complete: there is at most one handler call more than responses sent, none while the server waits for a
  request, and no response that ends the connection is followed by another. Each handler call is given the response that
  was sent before it, the first one an empty response: the response is not reset between requests. A step of a connection
  whose timer has not fired has a defined result unless the handler fails before it returns.\<close>

theorem http_server_serves:
  assumes "sc_reachable q0 p0 need_eof s"
  shows "length (sc_sent s) \<le> length (sc_handled s) \<and> length (sc_handled s) \<le> length (sc_sent s) + 1 \<and>
    (sc_awaiting s = Some Reading \<longrightarrow> length (sc_handled s) = length (sc_sent s)) \<and>
    list_all (\<lambda>p. \<not> need_eof p) (butlast (sc_sent s)) \<and>
    map snd (sc_handled s) = take (length (sc_handled s)) (p0 # sc_sent s) \<and>
    (sc_awaiting s \<noteq> None \<and> \<not> sc_fired s \<longrightarrow>
       (\<forall>res sync. sc_on_read res sync s = None \<longrightarrow> (\<exists>p e. sync = Some (p, Some e))) \<and>
       (\<forall>p ec. sc_callback p ec s \<noteq> None) \<and> (\<forall>ec. sc_on_write q0 need_eof ec s \<noteq> None))"
proof -
  have m: "sc_messages_ok q0 p0 need_eof s" by (rule sc_reachable_messages [OF assms])
  have "map snd (sc_handled s) = p0 # sc_sent s \<or> (\<exists>p. map snd (sc_handled s) @ [p] = p0 # sc_sent s)"
    using m by (auto simp: sc_messages_ok_def split: option.splits awaiting.splits)
  then have t: "map snd (sc_handled s) = take (length (sc_handled s)) (p0 # sc_sent s) \<and>
      length (sc_sent s) \<le> length (sc_handled s) \<and> length (sc_handled s) \<le> length (sc_sent s) + 1"
  proof (elim disjE exE)
    assume e: "map snd (sc_handled s) = p0 # sc_sent s"
    then have "length (sc_handled s) = length (p0 # sc_sent s)" by (metis length_map)
    with e show ?thesis by simp
  next
    fix p assume e: "map snd (sc_handled s) @ [p] = p0 # sc_sent s"
    then have "length (sc_handled s) = length (sc_sent s)" by (metis length_map length_append_singleton length_Cons nat.inject)
    moreover have "take (length (sc_handled s)) (map snd (sc_handled s) @ [p]) = map snd (sc_handled s)" by simp
    ultimately show ?thesis using e by simp
  qed
  have r: "length (sc_handled s) = length (sc_sent s)" if "sc_awaiting s = Some Reading"
    using m that by (auto simp: sc_messages_ok_def dest: arg_cong [of _ _ length])
  have d: "(\<forall>res sync. sc_on_read res sync s = None \<longrightarrow> (\<exists>p e. sync = Some (p, Some e))) \<and>
       (\<forall>p ec. sc_callback p ec s \<noteq> None) \<and> (\<forall>ec. sc_on_write q0 need_eof ec s \<noteq> None)"
    if "sc_awaiting s \<noteq> None \<and> \<not> sc_fired s"
    using that sc_reachable_life [OF assms] by (auto simp: sc_life_ok_def sc_defs split: option.splits sum.splits if_splits)
  show ?thesis using m t r d by (simp add: sc_messages_ok_def)
qed

theorem http_server_serves_witness: "map snd (sc_handled sample_second) = [] # sc_sent sample_second"
  using http_server_serves [OF sample_second_reachable] by (simp add: sample_second_def)



section \<open>Accepting connections\<close>

text \<open>The server: whether an \<^verbatim>\<open>async_accept\<close> is outstanding, and the connections in the order in which they were accepted.\<close>

record ('q, 'p) http_server =
  hs_accepting :: bool
  hs_conns :: "('q, 'p) server_conn list"

definition http_server_new :: "('q, 'p) http_server" where
  "http_server_new = \<lparr>hs_accepting = True, hs_conns = []\<rparr>"

definition hs_on_accept :: "'q \<Rightarrow> 'p \<Rightarrow> errc option \<Rightarrow> ('q, 'p) http_server \<Rightarrow> ('q, 'p) http_server" where
  "hs_on_accept q0 p0 ec hs =
     (case ec of
        Some e \<Rightarrow> hs\<lparr>hs_accepting := False\<rparr>
      | None \<Rightarrow> hs\<lparr>hs_conns := hs_conns hs @ [server_conn_new q0 p0], hs_accepting := True\<rparr>)"

inductive hs_step :: "'q \<Rightarrow> 'p \<Rightarrow> ('p \<Rightarrow> bool) \<Rightarrow> ('q, 'p) http_server \<Rightarrow> ('q, 'p) http_server \<Rightarrow> bool" for q0 p0 need_eof where
  accepted: "hs_accepting hs \<Longrightarrow> hs_step q0 p0 need_eof hs (hs_on_accept q0 p0 ec hs)"
| conn: "i < length (hs_conns hs) \<Longrightarrow> sc_step q0 need_eof (hs_conns hs ! i) (Some c) \<Longrightarrow>
    hs_step q0 p0 need_eof hs (hs\<lparr>hs_conns := (hs_conns hs)[i := c]\<rparr>)"

text \<open>Every connection of a server goes through the states of a single one.\<close>

lemma hs_conns_reachable:
  assumes "(hs_step q0 p0 need_eof)\<^sup>*\<^sup>* http_server_new hs"
  shows "list_all (sc_reachable q0 p0 need_eof) (hs_conns hs)"
  using assms
proof (induction rule: rtranclp_induct)
  case base
  then show ?case by (simp add: http_server_new_def)
next
  case (step hs hs')
  from step(2) step.IH show ?case
  proof cases
    case (accepted ec)
    with step.IH show ?thesis by (auto simp: hs_on_accept_def intro: sc_reachable.start split: option.split)
  next
    case (conn i c)
    have "sc_reachable q0 p0 need_eof (hs_conns hs ! i)" using step.IH conn(2) by (simp add: list_all_length)
    then have "sc_reachable q0 p0 need_eof c" using conn(3) by (rule sc_reachable.step)
    with step.IH conn show ?thesis by (auto simp: list_all_iff dest!: subsetD [OF set_update_subset_insert])
  qed
qed

text \<open>After one error of \<^verbatim>\<open>accept\<close>, for instance for want of file descriptors, the server never accepts another connection.\<close>

lemma hs_accept_error_is_final:
  assumes "(hs_step q0 p0 need_eof)\<^sup>*\<^sup>* (hs_on_accept q0 p0 (Some e) hs) hs'"
  shows "\<not> hs_accepting hs' \<and> length (hs_conns hs') = length (hs_conns hs)"
  using assms
proof (induction rule: rtranclp_induct)
  case base
  then show ?case by (simp add: hs_on_accept_def)
next
  case (step t u)
  from step(2) step.IH show ?case by cases auto
qed

end
