(* ===== verification/Icmp_Client.thy ===== *)
theory Icmp_Client
  imports Callback_Ledger
begin

text \<open>
  \<^verbatim>\<open>net/icmp-client.cc\<close>: echo requests with a table of operations by sequence number. An operation is kept alive
  by two references, that of the send handler and the one that \<^verbatim>\<open>start\<close> adds for \<^verbatim>\<open>finish\<close> to release; when both
  are gone it removes itself from the table. Calling \<^verbatim>\<open>finish\<close> again consumes the callback a second time, which
  has no defined result: \<open>None\<close>.

  Packets are bytes; those received have the IPv4 header of 20 bytes in front. Sequence numbers wrap.
\<close>

section \<open>Checksum\<close>

record icmp_header =
  ih_type :: u8
  ih_code :: u8
  ih_checksum :: u16
  ih_identifier :: u16
  ih_sequence :: u16

definition echo_reply :: u8 where
  "echo_reply = 0"

definition echo_request :: u8 where
  "echo_request = 8"

text \<open>Two bytes in network order.\<close>

definition big_u16 :: "u8 \<Rightarrow> u8 \<Rightarrow> u32" where
  "big_u16 hi lo = push_bit 8 (ucast hi) OR ucast lo"

fun checksum_loop :: "u32 \<Rightarrow> bytes \<Rightarrow> u32" where
  "checksum_loop acc (b0 # b1 # bs) = checksum_loop (acc + big_u16 b0 b1) bs"
| "checksum_loop acc [b0] = acc + push_bit 8 (ucast b0)"
| "checksum_loop acc [] = acc"

definition compute_checksum :: "bytes \<Rightarrow> icmp_header \<Rightarrow> icmp_header" where
  "compute_checksum buffer header =
     (let sum = big_u16 (ih_type header) (ih_code header);
          sum = sum + ucast (ih_identifier header);
          sum = sum + ucast (ih_sequence header);
          sum = checksum_loop sum buffer;
          sum = drop_bit 16 sum + (sum AND 0xffff);
          sum = sum + drop_bit 16 sum
      in header\<lparr>ih_checksum := ucast (NOT sum)\<rparr>)"

text \<open>The header in memory, its fields in network order.\<close>

definition icmp_bytes :: "icmp_header \<Rightarrow> bytes" where
  "icmp_bytes h =
     [ih_type h, ih_code h, ucast (drop_bit 8 (ih_checksum h)), ucast (ih_checksum h),
      ucast (drop_bit 8 (ih_identifier h)), ucast (ih_identifier h),
      ucast (drop_bit 8 (ih_sequence h)), ucast (ih_sequence h)]"

section \<open>Operations\<close>

datatype icmp_outcome = Icmp_failed errc | Icmp_reply bytes

record 'e icmp_op =
  io_request :: nat
  io_endpoint :: 'e
  io_sending :: bool
  io_started :: bool
  io_timer :: bool

record 'e icmp_client =
  ic_identifier :: u16
  ic_next :: u16
  ic_operations :: "u16 \<Rightarrow> 'e icmp_op option"
  ic_requests :: nat
  ic_sent :: "('e \<times> bytes) list"
  ic_called :: "(nat \<times> icmp_outcome) list"

definition icmp_client_new :: "u16 \<Rightarrow> 'e icmp_client" where
  "icmp_client_new identifier =
     \<lparr>ic_identifier = identifier, ic_next = 0, ic_operations = (\<lambda>q. None), ic_requests = 0, ic_sent = [], ic_called = []\<rparr>"

definition request_header :: "u16 \<Rightarrow> u16 \<Rightarrow> bytes \<Rightarrow> icmp_header" where
  "request_header identifier seq buffer =
     compute_checksum buffer
       \<lparr>ih_type = echo_request, ih_code = 0, ih_checksum = 0, ih_identifier = identifier, ih_sequence = seq\<rparr>"

text \<open>\<^verbatim>\<open>Operation\<close> and \<^verbatim>\<open>start\<close>.\<close>

definition icmp_start :: "u16 \<Rightarrow> nat \<Rightarrow> 'e \<Rightarrow> bytes \<Rightarrow> 'e icmp_client \<Rightarrow> 'e icmp_client" where
  "icmp_start seq q endpoint buffer s =
     s\<lparr>ic_operations := (ic_operations s)(seq := Some \<lparr>io_request = q, io_endpoint = endpoint, io_sending = True,
         io_started = True, io_timer = True\<rparr>),
       ic_sent := ic_sent s @ [(endpoint, icmp_bytes (request_header (ic_identifier s) seq buffer) @ buffer)]\<rparr>"

definition icmp_request :: "'e \<Rightarrow> bytes \<Rightarrow> 'e icmp_client \<Rightarrow> 'e icmp_client" where
  "icmp_request endpoint buffer s =
     (let q = ic_requests s; s = s\<lparr>ic_requests := q + 1\<rparr>; seq = ic_next s
      in if ic_operations s seq \<noteq> None then s\<lparr>ic_called := ic_called s @ [(q, Icmp_failed No_buffer_space)]\<rparr>
         else icmp_start seq q endpoint buffer (s\<lparr>ic_next := seq + 1\<rparr>))"

text \<open>Dropping a reference: the operation is destroyed, and erased from the table, with the last one.\<close>

definition icmp_put :: "u16 \<Rightarrow> 'e icmp_op \<Rightarrow> 'e icmp_client \<Rightarrow> 'e icmp_client" where
  "icmp_put seq op s =
     s\<lparr>ic_operations := (ic_operations s)(seq := if io_sending op \<or> io_started op then Some op else None)\<rparr>"

definition icmp_sent :: "u16 \<Rightarrow> 'e icmp_op \<Rightarrow> 'e icmp_client \<Rightarrow> 'e icmp_client" where
  "icmp_sent seq op s = icmp_put seq (op\<lparr>io_sending := False\<rparr>) s"

definition icmp_finish :: "u16 \<Rightarrow> icmp_outcome \<Rightarrow> 'e icmp_op \<Rightarrow> 'e icmp_client \<Rightarrow> 'e icmp_client option" where
  "icmp_finish seq out op s =
     (if \<not> io_started op then None
      else Some (icmp_put seq (op\<lparr>io_started := False\<rparr>) (s\<lparr>ic_called := ic_called s @ [(io_request op, out)]\<rparr>)))"

definition packet_u16 :: "bytes \<Rightarrow> nat \<Rightarrow> u16" where
  "packet_u16 p i = ucast (big_u16 (p ! i) (p ! (i + 1)))"

text \<open>The receive handler, after which \<^verbatim>\<open>receive\<close> is called again.\<close>

definition icmp_receive :: "bytes \<Rightarrow> 'e icmp_client \<Rightarrow> 'e icmp_client option" where
  "icmp_receive p s =
     (if length p < 20 + 8 then Some s
      else if p ! 20 \<noteq> echo_reply \<or> packet_u16 p 24 \<noteq> ic_identifier s then Some s
      else (case ic_operations s (packet_u16 p 26) of
              None \<Rightarrow> Some s
            | Some op \<Rightarrow> icmp_finish (packet_u16 p 26) (Icmp_reply (drop (20 + 8) p)) op s))"

definition icmp_timeout :: "u16 \<Rightarrow> 'e icmp_op \<Rightarrow> 'e icmp_client \<Rightarrow> 'e icmp_client option" where
  "icmp_timeout seq op s = icmp_finish seq (Icmp_failed Timed_out) (op\<lparr>io_timer := False\<rparr>) s"

inductive icmp_step :: "'e icmp_client \<Rightarrow> 'e icmp_client option \<Rightarrow> bool" where
  request: "icmp_step s (Some (icmp_request endpoint buffer s))"
| sent: "ic_operations s seq = Some op \<Longrightarrow> io_sending op \<Longrightarrow> icmp_step s (Some (icmp_sent seq op s))"
| receive: "icmp_step s (icmp_receive p s)"
| timeout: "ic_operations s seq = Some op \<Longrightarrow> io_timer op \<Longrightarrow> icmp_step s (icmp_timeout seq op s)"

definition icmp_next :: "'e icmp_client \<Rightarrow> 'e icmp_client \<Rightarrow> bool" where
  "icmp_next s s' \<longleftrightarrow> icmp_step s (Some s')"

section \<open>The checksum is the ones' complement sum\<close>

text \<open>A packet as 16-bit words, an odd byte padded with 0, added up. A receiver accepts it when the ones' complement sum
  of all words is all ones, which is: the sum is a multiple of \<open>2 ^ 16 - 1\<close> and not 0.\<close>

fun words_total :: "bytes \<Rightarrow> nat" where
  "words_total (b0 # b1 # bs) = unat b0 * 256 + unat b1 + words_total bs"
| "words_total [b0] = unat b0 * 256"
| "words_total [] = 0"

definition checksum_accepts :: "bytes \<Rightarrow> bool" where
  "checksum_accepts p \<longleftrightarrow> words_total p mod 65535 = 0 \<and> words_total p \<noteq> 0"

lemma unat_bound: "unat (w :: 'a::len word) < 2 ^ LENGTH('a)"
  by (rule unsigned_less)

lemma unat_byte: "unat (b :: u8) < 256"
  using unat_bound [of b] by simp

lemma unat_ucast_up:
  assumes "LENGTH('a::len) \<le> LENGTH('b::len)"
  shows "unat (ucast (w :: 'a word) :: 'b word) = unat w"
proof -
  have "unat w < 2 ^ LENGTH('a)" by (rule unsigned_less)
  also have "\<dots> \<le> 2 ^ LENGTH('b)" using assms by simp
  finally show ?thesis by (simp add: unsigned_ucast_eq take_bit_nat_eq_self)
qed

lemma unat_high_byte: "unat (push_bit 8 (ucast (b :: u8)) :: u32) = unat b * 256"
  using unat_byte [of b] by (simp add: push_bit_eq_mult unat_word_ariths unat_ucast_up mult.commute)

lemma unat_big_u16: "unat (big_u16 hi lo) = unat hi * 256 + unat lo"
proof -
  have "big_u16 hi lo = push_bit 8 (ucast hi) + ucast lo"
    unfolding big_u16_def
    by (rule disjunctive_add_eq_or [symmetric]) (auto simp: bit_eq_iff bit_simps dest: bit_imp_le_length)
  then show ?thesis using unat_byte [of hi] unat_byte [of lo]
    by (simp add: unat_word_ariths unat_high_byte unat_ucast_up)
qed

lemma unat_low_half: "unat (x AND 0xffff :: u32) = unat x mod 65536"
proof -
  have "x AND 0xffff = take_bit 16 x" by (simp add: take_bit_eq_mask mask_eq_exp_minus_1)
  then show ?thesis by (simp only: unsigned_take_bit_eq) (simp add: take_bit_eq_mod)
qed

lemma unat_high_half: "unat (drop_bit 16 x :: u32) = unat x div 65536"
  by (simp only: unat_drop_bit_eq) (simp add: drop_bit_eq_div)

lemma unat_not_low: "unat (ucast (NOT x :: u32) :: u16) = 65535 - unat x mod 65536"
proof -
  let ?w = "ucast x :: u16"
  have "(ucast (NOT x) :: u16) = NOT ?w" by (auto simp: bit_eq_iff bit_simps)
  also have "\<dots> = 65535 - ?w" by (simp add: not_eq_complement)
  finally have "(ucast (NOT x) :: u16) = 65535 - ?w" .
  moreover have "?w \<le> 65535" using unat_bound [of ?w] by (simp add: word_le_nat_alt)
  moreover have "unat ?w = unat x mod 65536" by (simp add: unsigned_ucast_eq take_bit_eq_mod)
  ultimately show ?thesis using unat_sub [of ?w 65535] by simp
qed

lemma unat_halves: "unat (ucast (drop_bit 8 w) :: u8) * 256 + unat (ucast w :: u8) = unat (w :: u16)"
proof -
  have "unat w < 65536" using unat_bound [of w] by simp
  then have "unat w div 256 mod 256 * 256 + unat w mod 256 = unat w" by simp
  moreover have "unat (drop_bit 8 w) = unat w div 256" by (simp only: unat_drop_bit_eq) (simp add: drop_bit_eq_div)
  ultimately show ?thesis by (simp add: unsigned_ucast_eq take_bit_eq_mod)
qed

lemma words_total_bound: "words_total bs \<le> 65535 * ((length bs + 1) div 2)"
proof (induction bs rule: words_total.induct)
  case (1 b0 b1 bs)
  then show ?case using unat_byte [of b0] unat_byte [of b1] by simp
next
  case (2 b0)
  then show ?case using unat_byte [of b0] by simp
qed simp

lemma unat_checksum_loop:
  "unat acc + words_total bs < 2 ^ 32 \<Longrightarrow> unat (checksum_loop acc bs) = unat acc + words_total bs"
proof (induction acc bs rule: checksum_loop.induct)
  case (1 acc b0 b1 bs)
  then have "unat (acc + big_u16 b0 b1) = unat acc + (unat b0 * 256 + unat b1)"
    by (simp add: unat_word_ariths unat_big_u16)
  with 1 show ?case by simp
next
  case (2 acc b0)
  then show ?case by (simp add: unat_word_ariths unat_high_byte)
qed simp

text \<open>Folding the carries twice leaves a 16-bit number with the same remainder.\<close>

definition fold_carries :: "nat \<Rightarrow> nat" where
  "fold_carries n = (let m = n div 65536 + n mod 65536 in (m + m div 65536) mod 65536)"

lemma fold_once: "(n div 65536 + n mod 65536) mod 65535 = n mod (65535 :: nat)"
proof -
  have "n = n div 65536 + n mod 65536 + n div 65536 * 65535" by simp
  then show ?thesis by (metis mod_mult_self1)
qed

lemma fold_twice:
  assumes "65536 \<le> m" and "m \<le> (131070 :: nat)"
  shows "(m + m div 65536) mod 65536 = m - 65535"
proof -
  have "m div 65536 = 1" using assms by (intro div_nat_eqI) simp_all
  moreover have "(m + 1) mod 65536 = m + 1 - 65536" using assms by (simp add: mod_if)
  ultimately show ?thesis using assms by simp
qed

lemma fold_carries_mod:
  assumes "n < 2 ^ 32"
  shows "fold_carries n mod 65535 = n mod 65535" and "fold_carries n \<le> 65535"
proof -
  define m where "m = n div 65536 + n mod 65536"
  have "n div 65536 < 65536" using assms by (simp add: div_less_iff_less_mult)
  moreover have "n mod 65536 < 65536" by simp
  ultimately have m: "m \<le> 131070" unfolding m_def by linarith
  have f: "fold_carries n = (m + m div 65536) mod 65536" by (simp add: fold_carries_def m_def Let_def)
  have "fold_carries n mod 65535 = m mod 65535"
  proof (cases "m < 65536")
    case True
    then show ?thesis by (simp add: f)
  next
    case False
    then show ?thesis using m fold_twice [of m] le_mod_geq [of 65535 m] by (simp add: f)
  qed
  then show "fold_carries n mod 65535 = n mod 65535" using fold_once [of n] by (simp add: m_def)
  have "(m + m div 65536) mod 65536 < 65536" by simp
  then show "fold_carries n \<le> 65535" unfolding f by linarith
qed

definition header_total :: "icmp_header \<Rightarrow> nat" where
  "header_total h = unat (ih_type h) * 256 + unat (ih_code h) + unat (ih_identifier h) + unat (ih_sequence h)"

lemma words_total_packet:
  "words_total (icmp_bytes h @ buf) = header_total h + unat (ih_checksum h) + words_total buf"
  using unat_halves [of "ih_checksum h"] unat_halves [of "ih_identifier h"] unat_halves [of "ih_sequence h"]
  by (simp add: icmp_bytes_def header_total_def)

lemma header_total_bound: "header_total h \<le> 196605"
  using unat_byte [of "ih_type h"] unat_byte [of "ih_code h"] unat_bound [of "ih_identifier h"] unat_bound [of "ih_sequence h"]
  by (simp add: header_total_def)

lemma unat_fold_again: "unat (y + drop_bit 16 y :: u32) mod 65536 = (unat y + unat y div 65536) mod 65536"
proof -
  have "(65536 :: nat) dvd 2 ^ LENGTH(32)" by simp
  then show ?thesis by (simp only: unat_word_ariths unat_high_half mod_mod_cancel)
qed

lemma unat_checksum:
  assumes "header_total h + words_total buf < 2 ^ 32"
  shows "unat (ih_checksum (compute_checksum buf h)) = 65535 - fold_carries (header_total h + words_total buf)"
proof -
  let ?acc = "big_u16 (ih_type h) (ih_code h) + ucast (ih_identifier h) + ucast (ih_sequence h) :: u32"
  have acc: "unat ?acc = header_total h"
    using header_total_bound [of h] by (simp add: unat_word_ariths unat_big_u16 unat_ucast_up header_total_def)
  let ?x = "checksum_loop ?acc buf"
  have x: "unat ?x = header_total h + words_total buf" (is "_ = ?n")
    using unat_checksum_loop [of ?acc buf] assms acc by simp
  let ?y = "drop_bit 16 ?x + (?x AND 0xffff)"
  have "?n div 65536 < 65536" using assms by (simp add: div_less_iff_less_mult)
  moreover have "?n mod 65536 < 65536" by simp
  ultimately have small: "?n div 65536 + ?n mod 65536 < 131072" by linarith
  then have y: "unat ?y = ?n div 65536 + ?n mod 65536"
    by (simp only: unat_word_ariths unat_high_half unat_low_half x) simp
  have "unat (?y + drop_bit 16 ?y) mod 65536 = fold_carries ?n"
    unfolding unat_fold_again y by (simp add: fold_carries_def Let_def)
  then show ?thesis by (simp add: compute_checksum_def Let_def unat_not_low)
qed

text \<open>The sum does not overflow for buffers of up to 131068 bytes, twice what an IPv4 packet can hold.\<close>

lemma checksum_accepted:
  assumes "length buf \<le> 131068"
  shows "checksum_accepts (icmp_bytes (compute_checksum buf h) @ buf)"
proof -
  let ?n = "header_total h + words_total buf"
  have "(length buf + 1) div 2 \<le> 65534" using assms by linarith
  then have "words_total buf \<le> 65535 * 65534"
    using words_total_bound [of buf] by (meson le_trans mult_le_mono2)
  then have n: "?n < 2 ^ 32" using header_total_bound [of h] by simp
  have h: "header_total (compute_checksum buf h) = header_total h" by (simp add: compute_checksum_def header_total_def Let_def)
  note f = fold_carries_mod [OF n]
  have t: "words_total (icmp_bytes (compute_checksum buf h) @ buf) = ?n + (65535 - fold_carries ?n)"
    by (simp only: words_total_packet h unat_checksum [OF n])
  have "(?n + (65535 - fold_carries ?n)) mod 65535 = (fold_carries ?n + (65535 - fold_carries ?n)) mod 65535"
    using f(1) by (metis mod_add_left_eq)
  also have "\<dots> = 0" using f(2) by simp
  finally have "(?n + (65535 - fold_carries ?n)) mod 65535 = 0" .
  moreover have "?n + (65535 - fold_carries ?n) \<noteq> 0"
  proof (cases "?n = 0")
    case True
    then show ?thesis by (simp add: fold_carries_def)
  qed auto
  ultimately show ?thesis unfolding checksum_accepts_def t by simp
qed

section \<open>Invariant\<close>

text \<open>An operation holds its request until \<^verbatim>\<open>finish\<close>.\<close>

definition icmp_held :: "'e icmp_client \<Rightarrow> u16 \<Rightarrow> nat \<Rightarrow> bool" where
  "icmp_held s seq q \<longleftrightarrow> (\<exists>op. ic_operations s seq = Some op \<and> io_started op \<and> io_request op = q)"

definition icmp_ok :: "'e icmp_client \<Rightarrow> bool" where
  "icmp_ok s \<longleftrightarrow> ledger_ok (ic_requests s) (ic_called s) (icmp_held s) \<and>
     (\<forall>seq op. ic_operations s seq = Some op \<longrightarrow>
        (io_sending op \<or> io_started op) \<and> (io_started op \<or> io_request op \<in> fst ` set (ic_called s))) \<and>
     (\<forall>(e, p) \<in> set (ic_sent s). \<exists>seq buffer. p = icmp_bytes (request_header (ic_identifier s) seq buffer) @ buffer)"

lemma icmp_new_ok: "icmp_ok (icmp_client_new ident :: 'e icmp_client)"
proof -
  have "icmp_held (icmp_client_new ident :: 'e icmp_client) = (\<lambda>k q. False)"
    by (simp add: icmp_held_def icmp_client_new_def fun_eq_iff)
  then show ?thesis by (simp add: icmp_ok_def icmp_client_new_def ledger_new)
qed

lemma icmp_request_ok:
  assumes "icmp_ok s"
  shows "icmp_ok (icmp_request endpoint buffer s)"
proof (cases "ic_operations s (ic_next s) = None")
  case True
  let ?s = "icmp_request endpoint buffer s"
  have eq: "?s = icmp_start (ic_next s) (ic_requests s) endpoint buffer (s\<lparr>ic_requests := ic_requests s + 1, ic_next := ic_next s + 1\<rparr>)"
    using True by (simp add: icmp_request_def Let_def)
  have "icmp_held ?s = (\<lambda>k q. if k = ic_next s then q = ic_requests s else icmp_held s k q)"
    unfolding eq by (auto simp: icmp_held_def icmp_start_def fun_eq_iff)
  moreover have "\<not> icmp_held s (ic_next s) q" for q using True by (simp add: icmp_held_def)
  ultimately have "ledger_ok (ic_requests ?s) (ic_called ?s) (icmp_held ?s)"
    using assms ledger_open [of "ic_requests s" "ic_called s" "icmp_held s" "ic_next s"]
    by (simp add: icmp_ok_def eq icmp_start_def)
  then show ?thesis using assms unfolding icmp_ok_def eq by (auto simp: icmp_start_def)
next
  case False
  let ?s = "icmp_request endpoint buffer s"
  have eq: "?s = s\<lparr>ic_requests := ic_requests s + 1, ic_called := ic_called s @ [(ic_requests s, Icmp_failed No_buffer_space)]\<rparr>"
    using False by (simp add: icmp_request_def Let_def)
  have "icmp_held ?s = icmp_held s" unfolding eq by (simp add: icmp_held_def fun_eq_iff)
  then have "ledger_ok (ic_requests ?s) (ic_called ?s) (icmp_held ?s)"
    using assms ledger_refuse [of "ic_requests s" "ic_called s" "icmp_held s"] by (simp add: icmp_ok_def eq)
  then show ?thesis using assms unfolding icmp_ok_def eq by auto
qed

lemma icmp_sent_ok:
  assumes "icmp_ok s" and "ic_operations s seq = Some op"
  shows "icmp_ok (icmp_sent seq op s)"
proof -
  have "icmp_held (icmp_sent seq op s) = icmp_held s"
    using assms(2) by (auto simp: icmp_held_def icmp_sent_def icmp_put_def fun_eq_iff)
  then show ?thesis using assms unfolding icmp_ok_def by (auto simp: icmp_sent_def icmp_put_def)
qed

lemma icmp_finish_ok:
  assumes ok: "icmp_ok s" and op: "ic_operations s seq = Some op" and op': "io_started op' = io_started op"
    "io_sending op' = io_sending op" "io_request op' = io_request op" and fin: "icmp_finish seq out op' s = Some s'"
  shows "icmp_ok s'"
proof -
  let ?q = "io_request op"
  have st: "io_started op" using fin op' by (auto simp: icmp_finish_def split: if_splits)
  have eq: "s' = icmp_put seq (op'\<lparr>io_started := False\<rparr>) (s\<lparr>ic_called := ic_called s @ [(?q, out)]\<rparr>)"
    using fin op' by (auto simp: icmp_finish_def split: if_splits)
  have h: "icmp_held s seq ?q" "\<And>x. icmp_held s seq x \<Longrightarrow> x = ?q" using op st by (auto simp: icmp_held_def)
  have "icmp_held s' = (\<lambda>d x. icmp_held s d x \<and> d \<noteq> seq)"
    unfolding eq by (auto simp: icmp_held_def icmp_put_def fun_eq_iff)
  then have "ledger_ok (ic_requests s') (ic_called s') (icmp_held s')"
    using ledger_report [of "ic_requests s" "ic_called s" "icmp_held s", OF _ h] ok by (simp add: icmp_ok_def eq icmp_put_def)
  then show ?thesis using ok op' unfolding icmp_ok_def eq by (auto simp: icmp_put_def split: if_splits)
qed

lemma icmp_step_ok:
  assumes "icmp_step s r" and "icmp_ok s" and "r = Some s'"
  shows "icmp_ok s'"
  using assms
proof (induction rule: icmp_step.induct)
  case (request s endpoint buffer)
  then show ?case using icmp_request_ok [OF request(1), of endpoint buffer] by simp
next
  case (sent s seq op)
  then show ?case using icmp_sent_ok [OF sent(3,1)] by simp
next
  case (receive s p)
  then show ?case
    by (auto simp: icmp_receive_def split: if_splits option.splits dest: icmp_finish_ok [OF receive(1) _ refl refl refl])
next
  case (timeout s seq op)
  then show ?case using icmp_finish_ok [OF timeout(3,1), of "op\<lparr>io_timer := False\<rparr>"] by (simp add: icmp_timeout_def)
qed

interpretation icmp: callback_system "icmp_client_new ident" icmp_next icmp_ok ic_requests ic_called icmp_held for ident
proof unfold_locales
  show "icmp_ok (icmp_client_new ident)" by (rule icmp_new_ok)
  show "icmp_ok s'" if "icmp_next s s'" and "icmp_ok s" for s s' :: "'e icmp_client"
    using icmp_step_ok that by (auto simp: icmp_next_def)
  show "ledger_ok (ic_requests s) (ic_called s) (icmp_held s)" if "icmp_ok s" for s :: "'e icmp_client"
    using that by (simp add: icmp_ok_def)
qed

section \<open>Properties\<close>

text \<open>The packet of a peer that echoes: any IPv4 header, the reply type, the identifier and sequence number of the
  request, any code and checksum, and the data.\<close>

definition echo_of :: "bytes \<Rightarrow> u8 \<Rightarrow> u16 \<Rightarrow> u16 \<Rightarrow> u16 \<Rightarrow> bytes \<Rightarrow> bytes" where
  "echo_of ip code checksum ident seq buffer =
     ip @ icmp_bytes \<lparr>ih_type = echo_reply, ih_code = code, ih_checksum = checksum, ih_identifier = ident, ih_sequence = seq\<rparr> @ buffer"

lemma ucast_big_u16: "ucast (big_u16 (ucast (drop_bit 8 w)) (ucast w)) = (w :: u16)"
proof -
  have "unat (ucast (big_u16 (ucast (drop_bit 8 w)) (ucast w)) :: u16) = unat w"
    using unat_halves [of w] unat_bound [of w] by (simp add: unsigned_ucast_eq take_bit_eq_mod unat_big_u16)
  then show ?thesis by (simp add: unsigned_word_eqI)
qed

lemma icmp_receive_echo:
  assumes "length ip = 20"
  shows "icmp_receive (echo_of ip code checksum (ic_identifier s) seq buffer) s =
    (case ic_operations s seq of None \<Rightarrow> Some s | Some op \<Rightarrow> icmp_finish seq (Icmp_reply buffer) op s)"
proof -
  let ?p = "echo_of ip code checksum (ic_identifier s) seq buffer"
  have "?p ! 20 = echo_reply" "packet_u16 ?p 24 = ic_identifier s" "packet_u16 ?p 26 = seq"
    using assms by (simp_all add: echo_of_def icmp_bytes_def packet_u16_def nth_append ucast_big_u16)
  moreover have "drop (20 + 8) ?p = buffer" "\<not> length ?p < 20 + 8"
    using assms by (simp_all add: echo_of_def icmp_bytes_def)
  ultimately show ?thesis by (auto simp: icmp_receive_def split: option.split)
qed

text \<open>C34. Echo requests and their callbacks. In every reachable state of the client each callback has been called at most
  once and no request is lost: one whose callback has not been called is held by exactly one operation; every
  packet that was sent with up to 131068 bytes of data carries a checksum that receivers accept; and when a peer
  echoes the data of a waiting request, its callback is called with exactly that data.\<close>

theorem icmp_echo:
  assumes "icmp_next\<^sup>*\<^sup>* (icmp_client_new ident) s"
  shows "distinct (map fst (ic_called s)) \<and>
    (\<forall>q < ic_requests s. q \<notin> fst ` set (ic_called s) \<longrightarrow> (\<exists>!seq. icmp_held s seq q)) \<and>
    (\<forall>(e, p) \<in> set (ic_sent s). length p \<le> 131076 \<longrightarrow> checksum_accepts p) \<and>
    (\<forall>seq q ip code checksum buffer. length ip = 20 \<and> icmp_held s seq q \<longrightarrow>
       (\<exists>s'. icmp_receive (echo_of ip code checksum (ic_identifier s) seq buffer) s = Some s' \<and>
          ic_called s' = ic_called s @ [(q, Icmp_reply buffer)]))"
proof -
  have ok: "icmp_ok s" using icmp.reach_inv [OF assms] .
  have "checksum_accepts p" if ep: "(e, p) \<in> set (ic_sent s)" and len: "length p \<le> 131076" for e p
  proof -
    obtain seq buffer where p: "p = icmp_bytes (request_header (ic_identifier s) seq buffer) @ buffer"
      using ok ep by (auto simp: icmp_ok_def)
    with len have "length buffer \<le> 131068" by (simp add: icmp_bytes_def)
    then show ?thesis unfolding p request_header_def by (rule checksum_accepted)
  qed
  moreover have "\<exists>s'. icmp_receive (echo_of ip code checksum (ic_identifier s) seq buffer) s = Some s' \<and>
      ic_called s' = ic_called s @ [(q, Icmp_reply buffer)]"
    if "length ip = 20" and "icmp_held s seq q" for seq q ip code checksum buffer
    using that by (auto simp: icmp_receive_echo icmp_held_def icmp_finish_def icmp_put_def)
  ultimately show ?thesis using icmp.called_once [OF assms] icmp.not_lost [OF assms] by blast
qed

lemma first_request: "icmp_next (icmp_client_new ident) (icmp_request endpoint buffer (icmp_client_new ident))"
  unfolding icmp_next_def by (rule request)

theorem icmp_echo_witness:
  "distinct (map fst (ic_called (icmp_request (0 :: nat) [1, 2, 3] (icmp_client_new 7)))) \<and>
   checksum_accepts (snd (hd (ic_sent (icmp_request (0 :: nat) [1, 2, 3] (icmp_client_new 7)))))"
proof -
  let ?s = "icmp_request (0 :: nat) [1, 2, 3] (icmp_client_new 7)"
  have "icmp_next\<^sup>*\<^sup>* (icmp_client_new 7) ?s" by (rule r_into_rtranclp) (rule first_request)
  note e = icmp_echo [OF this]
  have "ic_sent ?s = [(0, icmp_bytes (request_header 7 0 [1, 2, 3]) @ [1, 2, 3])]"
    by (simp add: icmp_request_def icmp_client_new_def icmp_start_def Let_def)
  moreover have "length (icmp_bytes h) = 8" for h by (simp add: icmp_bytes_def)
  ultimately show ?thesis using e by simp
qed



end
