(* ===== verification/Hex_Dumper.thy ===== *)
theory Hex_Dumper
  imports File_Utils
begin

text \<open>
  \<^verbatim>\<open>util/hex-dumper.h\<close> and \<^verbatim>\<open>util/hex-dumper.cc\<close>: lines of an offset, the bytes in hexadecimal in groups of two, and
  the bytes as characters. Every line is laid out in the same buffer, which keeps what the line before left
  in it, and written with \<^verbatim>\<open>io::write\<close>. With a width of 0 the loop never ends.
\<close>

record hex_dumper =
  dump_width :: nat
  dump_buffer :: bytes

section \<open>Definitions\<close>

definition to_hex :: "nat \<Rightarrow> u8" where
  "to_hex v = (if v < 10 then 48 + of_nat v else 97 + of_nat v - 10)"

definition to_char :: "u8 \<Rightarrow> u8" where
  "to_char v = (if 32 \<le> v \<and> v \<le> 127 then v else 46)"

definition put_uint8_hex :: "u8 \<Rightarrow> bytes" where
  "put_uint8_hex v = [to_hex (unat (drop_bit 4 v)), to_hex (unat (v AND 0xf))]"

fun put_uint32_hex :: "nat \<Rightarrow> u32 \<Rightarrow> bytes" where
  "put_uint32_hex 0 v = []"
| "put_uint32_hex (Suc n) v = to_hex (unat (drop_bit 28 v)) # put_uint32_hex n (push_bit 4 v)"

definition char_start :: "nat \<Rightarrow> nat" where
  "char_start w = (w * 5 + 23) div 2"

definition hex_dumper_new :: "nat \<Rightarrow> hex_dumper" where
  "hex_dumper_new w = \<lparr>dump_width = w, dump_buffer = replicate (char_start w + w + 1) 32\<rparr>"

text \<open>The two loops of \<^verbatim>\<open>dump_line\<close>.\<close>

fun fill_bytes :: "nat \<Rightarrow> nat \<Rightarrow> bytes \<Rightarrow> bytes \<Rightarrow> bytes" where
  "fill_bytes w i [] buf = buf"
| "fill_bytes w i (b # bs) buf =
     fill_bytes w (i + 1) bs ((overwrite (i * 5 div 2 + 10) (put_uint8_hex b) buf)[char_start w + i := to_char b])"

fun fill_blanks :: "nat \<Rightarrow> nat \<Rightarrow> bytes \<Rightarrow> bytes" where
  "fill_blanks i 0 buf = buf"
| "fill_blanks i (Suc n) buf = fill_blanks (i + 1) n (buf[i * 5 div 2 + 10 := 32, i * 5 div 2 + 11 := 32])"

definition lay_out :: "hex_dumper \<Rightarrow> u32 \<Rightarrow> bytes \<Rightarrow> bytes" where
  "lay_out d offset xs =
     (let w = dump_width d; size = length xs;
          buf = overwrite 0 (put_uint32_hex 8 offset) (dump_buffer d);
          buf = buf[8 := 58];
          buf = fill_bytes w 0 xs buf;
          buf = fill_blanks size (w - size) buf
      in buf[char_start w + size := 10])"

definition dump_line ::
    "'f file_ops \<Rightarrow> hex_dumper \<Rightarrow> u32 \<Rightarrow> bytes \<Rightarrow> 'f \<Rightarrow> (errc option \<times> hex_dumper \<times> 'f) option" where
  "dump_line ops d offset input f =
     (let size = min (length input) (dump_width d);
          buf = lay_out d offset (take size input)
      in Option.bind (write_all ops f (take (char_start (dump_width d) + size + 1) buf)) (\<lambda>(ec, f').
           Some (ec, d\<lparr>dump_buffer := buf\<rparr>, f')))"

partial_function (option) dump ::
    "'f file_ops \<Rightarrow> hex_dumper \<Rightarrow> u32 \<Rightarrow> bytes \<Rightarrow> 'f \<Rightarrow> (errc option \<times> hex_dumper \<times> 'f) option" where
  "dump ops d offset input f =
     (if length input \<ge> dump_width d then
        Option.bind (dump_line ops d offset input f) (\<lambda>(ec, d', f').
          if ec \<noteq> None then Some (ec, d', f')
          else dump ops d' (offset + of_nat (dump_width d)) (drop (dump_width d) input) f')
      else if input \<noteq> [] then dump_line ops d offset input f
      else Some (None, d, f))"

section \<open>The text of a dump\<close>

text \<open>Two-character cells, a space after every second one and after the last.\<close>

fun spaced :: "bytes list \<Rightarrow> bytes" where
  "spaced (a # b # cs) = a @ b @ [32] @ spaced cs"
| "spaced [a] = a @ [32]"
| "spaced [] = []"

definition hex_line :: "nat \<Rightarrow> u32 \<Rightarrow> bytes \<Rightarrow> bytes" where
  "hex_line w offset xs =
     put_uint32_hex 8 offset @ [58, 32] @ spaced (map put_uint8_hex xs @ replicate (w - length xs) [32, 32]) @ [32] @
     map to_char xs @ [10]"

function hex_text :: "nat \<Rightarrow> u32 \<Rightarrow> bytes \<Rightarrow> bytes" where
  "hex_text w offset xs =
     (if xs = [] \<or> w = 0 then [] else hex_line w offset (take w xs) @ hex_text w (offset + of_nat w) (drop w xs))"
  by pat_completeness auto
termination
  by (relation "measure (\<lambda>(w, offset, xs). length xs)") auto

declare hex_text.simps [simp del]

section \<open>The layout of a line\<close>

definition cells_ok :: "bytes list \<Rightarrow> bool" where
  "cells_ok cells \<longleftrightarrow> (\<forall>c \<in> set cells. length c = 2)"

lemma length_spaced: "cells_ok cells \<Longrightarrow> length (spaced cells) = (5 * length cells + 1) div 2"
  by (induction cells rule: spaced.induct) (auto simp: cells_ok_def)

lemma cells_ok_update: "cells_ok cells \<Longrightarrow> length c = 2 \<Longrightarrow> cells_ok (cells[i := c])"
  by (auto simp: cells_ok_def dest!: set_update_subset_insert [THEN subsetD])

lemma overwrite_prefix: "overwrite (length p + i) c (p @ r) = p @ overwrite i c r"
  by (simp add: overwrite_def)

lemma overwrite_spaced:
  "cells_ok cells \<Longrightarrow> i < length cells \<Longrightarrow> length c = 2 \<Longrightarrow>
   overwrite (i * 5 div 2) c (spaced cells @ r) = spaced (cells[i := c]) @ r"
proof (induction cells arbitrary: i rule: spaced.induct)
  case (1 a b cs)
  then have ab: "length a = 2" "length b = 2" "cells_ok cs" by (auto simp: cells_ok_def)
  consider "i = 0" | "i = 1" | j where "i = Suc (Suc j)" by (metis One_nat_def not0_implies_Suc)
  then show ?case
  proof cases
    case (3 j)
    have "Suc (Suc j) * 5 div 2 = length (a @ b @ [32 :: u8]) + j * 5 div 2" using ab by simp
    then show ?thesis using 1 3 ab overwrite_prefix [of "a @ b @ [32]" "j * 5 div 2" c "spaced cs @ r"] by simp
  qed (use 1 ab in \<open>simp_all add: overwrite_def\<close>)
next
  case (2 a)
  then show ?case by (auto simp: cells_ok_def overwrite_def)
qed simp

text \<open>The buffer: 10 bytes of offset, the cells, a space, and the characters with one more byte.\<close>

definition shaped :: "bytes \<Rightarrow> bytes list \<Rightarrow> bytes \<Rightarrow> bytes" where
  "shaped pre cells chars = pre @ spaced cells @ [32] @ chars"

lemma shaped_put_cell:
  assumes "length pre = 10" and "cells_ok cells" and "i < length cells" and "length c = 2"
  shows "overwrite (i * 5 div 2 + 10) c (shaped pre cells chars) = shaped pre (cells[i := c]) chars"
  using overwrite_prefix [of pre "i * 5 div 2" c] overwrite_spaced [OF assms(2-4)] assms(1)
  by (simp add: shaped_def add.commute)

lemma shaped_put_char:
  assumes "length pre = 10" and "cells_ok cells" and "i < length chars"
  shows "(shaped pre cells chars)[char_start (length cells) + i := x] = shaped pre cells (chars[i := x])"
proof -
  have "char_start (length cells) + i = length (pre @ spaced cells @ [32]) + i"
    using assms length_spaced [of cells] by (simp add: char_start_def)
  then show ?thesis using list_update_append [of "pre @ spaced cells @ [32]" chars] by (simp add: shaped_def)
qed

lemma overwrite_Cons: "i < length xs \<Longrightarrow> overwrite (i + 1) cs (xs[i := c]) = overwrite i (c # cs) xs"
  by (simp add: overwrite_def take_Suc_conv_app_nth drop_update_cancel)

lemma overwrite_pair: "k + 1 < length buf \<Longrightarrow> buf[k := a, k + 1 := b] = overwrite k [a, b] buf"
  by (rule nth_equalityI) (auto simp: nth_overwrite buffer_simps nth_list_update nth_Cons')

lemma length_put_uint8_hex: "length (put_uint8_hex b) = 2"
  by (simp add: put_uint8_hex_def)

lemma fill_bytes_shaped:
  assumes "length pre = 10"
  shows "cells_ok cells \<Longrightarrow> length cells = w \<Longrightarrow> length chars = w + 1 \<Longrightarrow> i + length bs \<le> w \<Longrightarrow>
    fill_bytes w i bs (shaped pre cells chars) =
    shaped pre (overwrite i (map put_uint8_hex bs) cells) (overwrite i (map to_char bs) chars)"
proof (induction bs arbitrary: i cells chars)
  case Nil
  then show ?case by (simp add: overwrite_def)
next
  case (Cons b bs)
  have "fill_bytes w i (b # bs) (shaped pre cells chars) =
      fill_bytes w (i + 1) bs (shaped pre (cells[i := put_uint8_hex b]) (chars[i := to_char b]))"
    using Cons.prems assms shaped_put_cell [OF assms, of cells i "put_uint8_hex b" chars]
      shaped_put_char [OF assms, of "cells[i := put_uint8_hex b]" i chars "to_char b"]
    by (simp add: cells_ok_update length_put_uint8_hex)
  also have "\<dots> = shaped pre (overwrite (i + 1) (map put_uint8_hex bs) (cells[i := put_uint8_hex b]))
      (overwrite (i + 1) (map to_char bs) (chars[i := to_char b]))"
    using Cons.prems by (intro Cons.IH) (simp_all add: cells_ok_update length_put_uint8_hex)
  finally show ?case using Cons.prems overwrite_Cons [of i cells] overwrite_Cons [of i chars] by simp
qed

lemma length_shaped: "length pre = 10 \<Longrightarrow> cells_ok cells \<Longrightarrow> length (shaped pre cells chars) = char_start (length cells) + length chars"
  by (simp add: shaped_def length_spaced char_start_def)

lemma fill_blanks_shaped:
  assumes "length pre = 10"
  shows "cells_ok cells \<Longrightarrow> i + n \<le> length cells \<Longrightarrow>
    fill_blanks i n (shaped pre cells chars) = shaped pre (overwrite i (replicate n [32, 32]) cells) chars"
proof (induction n arbitrary: i cells)
  case 0
  then show ?case by (simp add: overwrite_def)
next
  case (Suc n)
  have "i * 5 div 2 + 10 + 1 < length (shaped pre cells chars)"
    using Suc.prems length_shaped [OF assms Suc.prems(1), of chars] by (simp add: char_start_def)
  then have "(shaped pre cells chars)[i * 5 div 2 + 10 := 32, i * 5 div 2 + 11 := 32] = shaped pre (cells[i := [32, 32]]) chars"
    using overwrite_pair [of "i * 5 div 2 + 10" "shaped pre cells chars" 32 32]
      shaped_put_cell [OF assms Suc.prems(1), of i "[32, 32]" chars] Suc.prems by (simp add: add.commute)
  then show ?case using Suc.IH [of "cells[i := [32, 32]]" "i + 1"] Suc.prems overwrite_Cons [of i cells]
    by (simp add: cells_ok_update)
qed

text \<open>A buffer that a line can be laid out in.\<close>

definition dumper_ok :: "hex_dumper \<Rightarrow> bool" where
  "dumper_ok d \<longleftrightarrow> (\<exists>pre cells chars. dump_buffer d = shaped pre cells chars \<and> length pre = 10 \<and> pre ! 9 = 32 \<and>
     cells_ok cells \<and> length cells = dump_width d \<and> length chars = dump_width d + 1)"

lemma length_put_uint32_hex [simp]: "length (put_uint32_hex n v) = n"
  by (induction n arbitrary: v) simp_all

lemma shaped_put_offset:
  assumes "length pre = 10" and "pre ! 9 = 32"
  shows "(overwrite 0 (put_uint32_hex 8 offset) (shaped pre cells chars))[8 := 58] =
    shaped (put_uint32_hex 8 offset @ [58, 32]) cells chars"
proof -
  have "length (drop 8 pre) = Suc (Suc 0)" using assms(1) by simp
  then obtain a b where "drop 8 pre = [a, b]" unfolding length_Suc_conv by auto
  moreover from this have "b = 32" using assms nth_drop [of 8 pre 1] by simp
  ultimately have "overwrite 0 (put_uint32_hex 8 offset) (shaped pre cells chars) =
      put_uint32_hex 8 offset @ [a, 32] @ spaced cells @ [32] @ chars"
    using assms(1) by (simp add: overwrite_def shaped_def)
  then show ?thesis by (simp add: list_update_append shaped_def)
qed

lemma lay_out_shaped:
  assumes "dumper_ok d" and "length xs \<le> dump_width d"
  obtains chars where "lay_out d offset xs = shaped (put_uint32_hex 8 offset @ [58, 32])
      (map put_uint8_hex xs @ replicate (dump_width d - length xs) [32, 32]) (map to_char xs @ 10 # chars)"
    and "length chars = dump_width d - length xs"
proof -
  let ?w = "dump_width d" and ?n = "length xs" and ?pre = "put_uint32_hex 8 offset @ [58, 32]"
  from assms(1) obtain pre cells chars where s: "dump_buffer d = shaped pre cells chars" "length pre = 10" "pre ! 9 = 32"
    "cells_ok cells" "length cells = ?w" "length chars = ?w + 1" unfolding dumper_ok_def by blast
  let ?cells = "map put_uint8_hex xs @ drop ?n cells" and ?chars = "map to_char xs @ drop ?n chars"
  have "fill_bytes ?w 0 xs (shaped ?pre cells chars) = shaped ?pre ?cells ?chars"
    using s assms(2) fill_bytes_shaped [of ?pre cells ?w chars 0 xs] by (simp add: overwrite_def)
  moreover have "cells_ok ?cells" using s(4) by (auto simp: cells_ok_def length_put_uint8_hex dest: in_set_dropD)
  then have "fill_blanks ?n (?w - ?n) (shaped ?pre ?cells ?chars) =
      shaped ?pre (map put_uint8_hex xs @ replicate (?w - ?n) [32, 32]) ?chars"
    using s assms(2) fill_blanks_shaped [of ?pre ?cells ?n "?w - ?n" ?chars] by (simp add: overwrite_def)
  moreover have "(shaped ?pre (map put_uint8_hex xs @ replicate (?w - ?n) [32, 32]) ?chars)[char_start ?w + ?n := 10] =
      shaped ?pre (map put_uint8_hex xs @ replicate (?w - ?n) [32, 32]) (?chars[?n := 10])"
    using s assms(2) shaped_put_char [of ?pre "map put_uint8_hex xs @ replicate (?w - ?n) [32, 32]" ?n ?chars 10]
    by (simp add: cells_ok_def length_put_uint8_hex ball_Un)
  moreover have "?chars[?n := 10] = map to_char xs @ 10 # drop (?n + 1) chars"
    using s(6) assms(2) by (simp add: list_update_append Cons_nth_drop_Suc [of ?n chars, symmetric])
  ultimately have "lay_out d offset xs = shaped ?pre (map put_uint8_hex xs @ replicate (?w - ?n) [32, 32])
      (map to_char xs @ 10 # drop (?n + 1) chars)"
    using s shaped_put_offset [OF s(2,3), of offset cells chars] by (simp add: lay_out_def Let_def)
  then show thesis by (rule that) (use s(6) assms(2) in simp)
qed

lemma lay_out_line:
  assumes "dumper_ok d" and "length xs \<le> dump_width d"
  shows "take (char_start (dump_width d) + length xs + 1) (lay_out d offset xs) = hex_line (dump_width d) offset xs"
    and "dumper_ok (d\<lparr>dump_buffer := lay_out d offset xs\<rparr>)"
proof -
  let ?w = "dump_width d"
  let ?cells = "map put_uint8_hex xs @ replicate (?w - length xs) [32, 32]"
  obtain chars where l: "lay_out d offset xs = shaped (put_uint32_hex 8 offset @ [58, 32]) ?cells (map to_char xs @ 10 # chars)"
    "length chars = ?w - length xs" using lay_out_shaped [OF assms] .
  have c: "cells_ok ?cells" "length ?cells = ?w" using assms(2) by (auto simp: cells_ok_def length_put_uint8_hex)
  have "lay_out d offset xs = hex_line ?w offset xs @ chars" unfolding l(1) by (simp add: shaped_def hex_line_def)
  moreover have "length (hex_line ?w offset xs) = char_start ?w + length xs + 1"
    using length_spaced [OF c(1)] c(2) by (simp add: hex_line_def char_start_def)
  ultimately show "take (char_start ?w + length xs + 1) (lay_out d offset xs) = hex_line ?w offset xs"
    by (metis append_eq_conv_conj)
  have "length (put_uint32_hex 8 offset @ [58, 32]) = 10" "(put_uint32_hex 8 offset @ [58, 32]) ! 9 = 32"
    by (simp_all add: nth_append)
  moreover have "length (map to_char xs @ 10 # chars) = ?w + 1" using l(2) assms(2) by simp
  ultimately show "dumper_ok (d\<lparr>dump_buffer := lay_out d offset xs\<rparr>)"
    unfolding dumper_ok_def using l(1) c by (intro exI conjI) (assumption | simp)+
qed

lemma hex_dumper_new_ok: "dumper_ok (hex_dumper_new w)"
proof -
  have sp: "spaced (replicate w [32, 32]) = replicate ((5 * w + 1) div 2) 32"
  proof (induction w rule: induct_nat_012)
    case (ge2 n)
    have "(5 * Suc (Suc n) + 1) div 2 = 5 + (5 * n + 1) div 2" by simp
    then show ?case using ge2 by (simp only: replicate_Suc spaced.simps) (simp add: numeral_eq_Suc)
  qed (simp_all add: numeral_3_eq_3)
  have "char_start w + w + 1 = 10 + ((5 * w + 1) div 2 + (1 + (w + 1)))" by (simp add: char_start_def)
  then have "dump_buffer (hex_dumper_new w) = shaped (replicate 10 32) (replicate w [32, 32]) (replicate (w + 1) 32)"
    by (simp only: hex_dumper_new_def hex_dumper.simps shaped_def sp replicate_add) (simp add: numeral_eq_Suc)
  moreover have "cells_ok (replicate w [32, 32])" "replicate 10 32 ! 9 = (32 :: u8)"
    by (simp_all add: cells_ok_def)
  ultimately show ?thesis unfolding dumper_ok_def
    by (intro exI [of _ "replicate 10 32"] exI [of _ "replicate w [32, 32]"] exI [of _ "replicate (w + 1) 32"])
      (simp add: hex_dumper_new_def)
qed

lemma hex_line_min: "length xs \<le> w \<Longrightarrow> xs \<noteq> [] \<Longrightarrow> hex_text w offset xs = hex_line w offset xs"
  by (cases "w = 0") (simp_all add: hex_text.simps [of w offset xs] hex_text.simps [of w _ "[]"])

section \<open>Dumps to files\<close>

context full_file
begin

lemma dump_line_full:
  assumes ok: "dumper_ok d" and end_: "pos f = length (contents f)"
  obtains d' f' where "dump_line ops d offset input f = Some (None, d', f')"
    and "dumper_ok d'" "dump_width d' = dump_width d"
    and "contents f' = contents f @ hex_line (dump_width d) offset (take (dump_width d) input)" "pos f' = length (contents f')"
proof -
  let ?xs = "take (min (length input) (dump_width d)) input"
  have xs: "?xs = take (dump_width d) input" "length ?xs = min (length input) (dump_width d)" by (simp_all add: min_def)
  have "length ?xs \<le> dump_width d" by simp
  note l = lay_out_line [OF ok this, of offset]
  obtain f' where w: "write_all ops f (hex_line (dump_width d) offset ?xs) = Some (None, f')"
    and c: "contents f' = put_bytes (pos f) (hex_line (dump_width d) offset ?xs) (contents f)"
    and p: "pos f' = pos f + length (hex_line (dump_width d) offset ?xs)"
    by (rule write_all_full [of f "hex_line (dump_width d) offset ?xs"]) (use end_ in simp)
  have dl: "dump_line ops d offset input f = Some (None, d\<lparr>dump_buffer := lay_out d offset ?xs\<rparr>, f')"
    using l(1) w unfolding dump_line_def Let_def xs(2) by simp
  have "contents f' = contents f @ hex_line (dump_width d) offset ?xs" using c end_ by (simp add: buffer_simps)
  then show thesis by (intro that [OF dl l(2)]) (use p end_ xs(1) in simp_all)
qed

lemma dump_full:
  assumes "0 < dump_width d" and "dumper_ok d" and "pos f = length (contents f)"
  shows "\<exists>d' f'. dump ops d offset input f = Some (None, d', f') \<and> dumper_ok d' \<and> dump_width d' = dump_width d \<and>
    contents f' = contents f @ hex_text (dump_width d) offset input \<and> pos f' = length (contents f')"
  using assms
proof (induction "length input" arbitrary: d f offset input rule: less_induct)
  case less
  let ?w = "dump_width d"
  obtain d1 f1 where 1: "dump_line ops d offset input f = Some (None, d1, f1)" "dumper_ok d1" "dump_width d1 = ?w"
    "contents f1 = contents f @ hex_line ?w offset (take ?w input)" "pos f1 = length (contents f1)"
    using dump_line_full [OF less.prems(2,3)] .
  show ?case
  proof (cases "length input \<ge> ?w")
    case True
    with less.prems(1) have ne: "input \<noteq> []" "length (drop ?w input) < length input" by auto
    from less.hyps [OF ne(2), of d1 f1 "offset + of_nat ?w"] less.prems(1) 1 obtain d' f' where
      "dump ops d1 (offset + of_nat ?w) (drop ?w input) f1 = Some (None, d', f')" "dumper_ok d'" "dump_width d' = ?w"
      "contents f' = contents f1 @ hex_text ?w (offset + of_nat ?w) (drop ?w input)" "pos f' = length (contents f')" by auto
    with True 1 ne(1) less.prems(1) show ?thesis
      by (simp add: dump.simps [of ops d offset input f] hex_text.simps [of ?w offset input])
  next
    case False
    show ?thesis
    proof (cases "input = []")
      case True
      with False less.prems show ?thesis
        by (simp add: dump.simps [of ops d offset "[]" f] hex_text.simps [of ?w offset "[]"])
    next
      case ne: False
      with False 1 hex_line_min [of input ?w offset] show ?thesis
        by (simp add: dump.simps [of ops d offset input f])
    qed
  qed
qed

end

text \<open>C36. Hex dumps: for every positive width a dump to a memory file returns and appends exactly the specified text, one
  line of offset, grouped hexadecimal cells and characters for every piece of that width, whatever lines the dumper
  laid out before; and the dumper can be used again.\<close>

theorem hex_dump_text:
  assumes "0 < dump_width d" and "dumper_ok d" and "position f = length (content f)"
  shows "\<exists>d' f'. dump memory_ops d offset input f = Some (None, d', f') \<and> dumper_ok d' \<and> dump_width d' = dump_width d \<and>
    content f' = content f @ hex_text (dump_width d) offset input \<and> position f' = length (content f')"
  by (rule memory.dump_full [OF assms])

definition ascii_bytes :: "string \<Rightarrow> bytes" where
  "ascii_bytes s = map of_char s"

theorem hex_dump_text_witness:
  "\<exists>d' f'. dump memory_ops (hex_dumper_new 7) 12 (ascii_bytes ''hello world'' @ [10]) (memory_file_new []) = Some (None, d', f') \<and>
    content f' = ascii_bytes ''0000000c: 6865 6c6c 6f20 77  hello w'' @ [10] @ ascii_bytes ''00000013: 6f72 6c64 0a       orld.'' @ [10]"
proof -
  have p: "put_uint32_hex (numeral k) v = to_hex (unat (drop_bit 28 v)) # put_uint32_hex (pred_numeral k) (push_bit 4 v)" for k v
    by (simp add: numeral_eq_Suc)
  have r: "replicate 2 x = [x, x]" for x :: bytes by (simp add: numeral_2_eq_2)
  have 1: "hex_line 7 12 (ascii_bytes ''hello w'') = ascii_bytes ''0000000c: 6865 6c6c 6f20 77  hello w'' @ [10]"
    by (simp add: hex_line_def ascii_bytes_def put_uint8_hex_def to_hex_def to_char_def p)
  have 2: "hex_line 7 19 (ascii_bytes ''orld'' @ [10]) = ascii_bytes ''00000013: 6f72 6c64 0a       orld.'' @ [10]"
    by (simp add: hex_line_def ascii_bytes_def put_uint8_hex_def to_hex_def to_char_def p r)
  have "hex_text 7 12 (ascii_bytes ''hello world'' @ [10]) =
      ascii_bytes ''0000000c: 6865 6c6c 6f20 77  hello w'' @ [10] @ ascii_bytes ''00000013: 6f72 6c64 0a       orld.'' @ [10]"
    using 1 2 by (simp add: hex_text.simps [of 7 12] hex_text.simps [of 7 19] hex_text.simps [of 7 26] ascii_bytes_def)
  then show ?thesis
    using hex_dump_text [OF _ hex_dumper_new_ok, of 7 "memory_file_new []" 12 "ascii_bytes ''hello world'' @ [10]"]
    by (simp add: hex_dumper_new_def memory_file_new_def) blast
qed

text \<open>With a width of 0 a dump to a memory file never ends.\<close>

lemma dump_some_width:
  assumes "dump ops d offset input f = Some r" and "ops = memory_ops" and "position f \<le> length (content f)"
  shows "dump_width d \<noteq> 0"
  using assms
proof (induction rule: dump.raw_induct [rotated, consumes 1])
  case (1 dump' ops d offset input f r)
  show ?case
  proof
    assume z: "dump_width d = 0"
    let ?xs = "take (char_start 0 + 1) (lay_out d offset [])"
    obtain f' where w: "write_all memory_ops f ?xs = Some (None, f')"
      and c: "content f' = put_bytes (position f) ?xs (content f)" and p: "position f' = position f + length ?xs"
      using memory.write_all_full [OF 1(4)] .
    have "position f' \<le> length (content f')" using c p 1(4) by (simp add: length_put_bytes)
    moreover have "dump' memory_ops (d\<lparr>dump_buffer := lay_out d offset []\<rparr>) offset input f' = Some r"
      using 1(2,3) z w by (simp add: dump_line_def Let_def)
    ultimately show False using 1(1) [of memory_ops "d\<lparr>dump_buffer := lay_out d offset []\<rparr>" offset input f' r] z 1(3) by simp
  qed
qed

end
