(* ===== verification/Ostream.thy ===== *)
theory Ostream
  imports File_Utils
begin

text \<open>
  \<^verbatim>\<open>io/stream.h\<close> and \<^verbatim>\<open>io/stream.cc\<close>: an output stream over a file with a buffer of 8192 bytes. The members of
  \<^verbatim>\<open>std::streambuf\<close> and \<^verbatim>\<open>std::ostream\<close> that the class relies on are modelled too: \<^verbatim>\<open>sputc\<close>, which calls \<^verbatim>\<open>overflow\<close>
  when the buffer is full; \<^verbatim>\<open>xsputn\<close>, which repeats it; and formatted output, which sets \<^verbatim>\<open>badbit\<close> when not
  everything could be put, after which further output does nothing. \<open>None\<close> is a write that never returns.
\<close>

record 'f ostream =
  os_file :: 'f
  os_pending :: bytes
  os_bad :: bool

definition stream_capacity :: nat where
  "stream_capacity = 8192"

definition ostream_new :: "'f \<Rightarrow> 'f ostream" where
  "ostream_new f = \<lparr>os_file = f, os_pending = [], os_bad = False\<rparr>"

text \<open>\<^verbatim>\<open>sync\<close>, with \<open>False\<close> for the result \<^verbatim>\<open>-1\<close>.\<close>

definition os_sync :: "'f file_ops \<Rightarrow> 'f ostream \<Rightarrow> (bool \<times> 'f ostream) option" where
  "os_sync ops s =
     (if os_pending s = [] then Some (True, s)
      else Option.bind (write_all ops (os_file s) (os_pending s)) (\<lambda>(ec, f').
             if ec \<noteq> None then Some (False, s\<lparr>os_file := f'\<rparr>)
             else Some (True, s\<lparr>os_file := f', os_pending := []\<rparr>)))"

definition os_overflow :: "'f file_ops \<Rightarrow> u8 \<Rightarrow> 'f ostream \<Rightarrow> (bool \<times> 'f ostream) option" where
  "os_overflow ops c s =
     Option.bind (os_sync ops s) (\<lambda>(good, s').
       if \<not> good then Some (False, s') else Some (True, s'\<lparr>os_pending := os_pending s' @ [c]\<rparr>))"

definition os_sputc :: "'f file_ops \<Rightarrow> u8 \<Rightarrow> 'f ostream \<Rightarrow> (bool \<times> 'f ostream) option" where
  "os_sputc ops c s =
     (if length (os_pending s) < stream_capacity then Some (True, s\<lparr>os_pending := os_pending s @ [c]\<rparr>)
      else os_overflow ops c s)"

fun os_xsputn :: "'f file_ops \<Rightarrow> bytes \<Rightarrow> 'f ostream \<Rightarrow> (bool \<times> 'f ostream) option" where
  "os_xsputn ops [] s = Some (True, s)"
| "os_xsputn ops (c # cs) s =
     Option.bind (os_sputc ops c s) (\<lambda>(good, s'). if good then os_xsputn ops cs s' else Some (False, s'))"

definition os_output :: "'f file_ops \<Rightarrow> bytes \<Rightarrow> 'f ostream \<Rightarrow> 'f ostream option" where
  "os_output ops cs s =
     (if os_bad s then Some s
      else Option.bind (os_xsputn ops cs s) (\<lambda>(good, s'). Some (s'\<lparr>os_bad := \<not> good\<rparr>)))"

fun os_outputs :: "'f file_ops \<Rightarrow> bytes list \<Rightarrow> 'f ostream \<Rightarrow> 'f ostream option" where
  "os_outputs ops [] s = Some s"
| "os_outputs ops (cs # rest) s = Option.bind (os_output ops cs s) (os_outputs ops rest)"

text \<open>The destructor.\<close>

definition os_destroy :: "'f file_ops \<Rightarrow> 'f ostream \<Rightarrow> 'f option" where
  "os_destroy ops s = map_option (\<lambda>(good, s'). os_file s') (os_sync ops s)"

section \<open>Delivery\<close>

context full_file
begin

text \<open>What has been put is in the file or waits in the buffer.\<close>

definition delivered :: "'f ostream \<Rightarrow> bytes \<Rightarrow> bool" where
  "delivered s out \<longleftrightarrow> contents (os_file s) @ os_pending s = out \<and> pos (os_file s) = length (contents (os_file s)) \<and>
     length (os_pending s) \<le> stream_capacity \<and> \<not> os_bad s"

lemma sync_delivered:
  assumes "delivered s out"
  obtains s' where "os_sync ops s = Some (True, s')" and "delivered s' out" and "os_pending s' = []"
proof (cases "os_pending s = []")
  case True
  then show thesis using assms by (intro that [of s]) (simp_all add: os_sync_def)
next
  case False
  have end_: "pos (os_file s) = length (contents (os_file s))" using assms by (simp add: delivered_def)
  obtain f' where w: "write_all ops (os_file s) (os_pending s) = Some (None, f')"
    and c: "contents f' = put_bytes (pos (os_file s)) (os_pending s) (contents (os_file s))"
    and p: "pos f' = pos (os_file s) + length (os_pending s)"
    using write_all_full [of "os_file s" "os_pending s"] end_ by (metis order_refl)
  then show thesis using False assms end_
    by (intro that [of "s\<lparr>os_file := f', os_pending := []\<rparr>"]) (auto simp: os_sync_def delivered_def buffer_simps simp flip: length_append)
qed

lemma sputc_delivered:
  assumes "delivered s out"
  obtains s' where "os_sputc ops c s = Some (True, s')" and "delivered s' (out @ [c])"
proof (cases "length (os_pending s) < stream_capacity")
  case True
  then show thesis using assms by (intro that [of "s\<lparr>os_pending := os_pending s @ [c]\<rparr>"]) (auto simp: os_sputc_def delivered_def)
next
  case False
  obtain s' where "os_sync ops s = Some (True, s')" "delivered s' out" "os_pending s' = []" using sync_delivered [OF assms] .
  with False show thesis
    by (intro that [of "s'\<lparr>os_pending := [c]\<rparr>"]) (auto simp: os_sputc_def os_overflow_def delivered_def stream_capacity_def)
qed

lemma xsputn_delivered:
  assumes "delivered s out"
  shows "\<exists>s'. os_xsputn ops cs s = Some (True, s') \<and> delivered s' (out @ cs)"
  using assms
proof (induction cs arbitrary: s out)
  case (Cons c cs)
  obtain s1 where 1: "os_sputc ops c s = Some (True, s1)" "delivered s1 (out @ [c])" using sputc_delivered [OF Cons.prems] .
  from Cons.IH [OF 1(2)] 1(1) show ?case by simp
qed simp

lemma outputs_delivered:
  assumes "delivered s out"
  shows "\<exists>s'. os_outputs ops css s = Some s' \<and> delivered s' (out @ concat css)"
  using assms
proof (induction css arbitrary: s out)
  case (Cons cs css)
  obtain s1 where "os_xsputn ops cs s = Some (True, s1)" "delivered s1 (out @ cs)" using xsputn_delivered [OF Cons.prems] by blast
  moreover from this have "s1\<lparr>os_bad := False\<rparr> = s1" by (cases s1) (simp add: delivered_def)
  moreover have "\<not> os_bad s" using Cons.prems by (simp add: delivered_def)
  ultimately have "os_output ops cs s = Some s1" "delivered s1 (out @ cs)" by (simp_all add: os_output_def)
  with Cons.IH [of s1 "out @ cs"] show ?case by simp
qed simp

lemma ostream_delivers:
  assumes "pos f = length (contents f)"
  shows "\<exists>f'. Option.bind (os_outputs ops css (ostream_new f)) (os_destroy ops) = Some f' \<and> contents f' = contents f @ concat css"
proof -
  have "delivered (ostream_new f) (contents f)" using assms by (simp add: delivered_def ostream_new_def)
  then obtain s1 where 1: "os_outputs ops css (ostream_new f) = Some s1" "delivered s1 (contents f @ concat css)"
    using outputs_delivered by blast
  obtain s2 where "os_sync ops s1 = Some (True, s2)" "delivered s2 (contents f @ concat css)" "os_pending s2 = []"
    using sync_delivered [OF 1(2)] .
  with 1(1) show ?thesis by (simp add: os_destroy_def delivered_def)
qed

end

text \<open>C37. Everything that is written to an output stream reaches the file: after any sequence of outputs, of any lengths, and
  the destruction of the stream, a memory file holds what it held before followed by the outputs in order.\<close>

theorem ostream_memory:
  assumes "position f = length (content f)"
  shows "\<exists>f'. Option.bind (os_outputs memory_ops css (ostream_new f)) (os_destroy memory_ops) = Some f' \<and>
    content f' = content f @ concat css"
  by (rule memory.ostream_delivers [OF assms])

theorem ostream_memory_witness:
  "\<exists>f'. Option.bind (os_outputs memory_ops [[1, 2], [], [3]] (ostream_new (memory_file_new [])))
      (os_destroy memory_ops) = Some f' \<and> content f' = [1, 2, 3]"
  using ostream_memory [of "memory_file_new []" "[[1, 2], [], [3]]"] by (simp add: memory_file_new_def)

section \<open>After a failed write\<close>

text \<open>A file that takes one byte and then reports an error once. The state is what it holds and whether it has failed.\<close>

definition flaky_write :: "bytes \<times> nat \<Rightarrow> bytes \<Rightarrow> (errc + nat) \<times> bytes \<times> nat" where
  "flaky_write f xs = (case f of (c, n) \<Rightarrow>
     if n = 0 then (Inr (min 1 (length xs)), c @ take 1 xs, 1)
     else if n = 1 then (Inl No_buffer_space, c, 2)
     else (Inr (length xs), c @ xs, 2))"

definition flaky_ops :: "(bytes \<times> nat) file_ops" where
  "flaky_ops = \<lparr>read_op = \<lambda>f n. (Inr [], f), write_op = flaky_write, pread_op = \<lambda>f p n. (Inr [], f),
     pwrite_op = \<lambda>f p xs. (Inr 0, f), seek_op = \<lambda>f p. (None, f), tell_op = \<lambda>f. (Inr 0, f), size_op = \<lambda>f. (Inr 0, f)\<rparr>"

text \<open>\<^verbatim>\<open>sync\<close> keeps the whole buffer when the write fails, so bytes that were written before the error are written again
  by the next \<^verbatim>\<open>sync\<close>.\<close>

lemma sync_repeats_written_bytes:
  "\<exists>s'. os_sync flaky_ops \<lparr>os_file = ([], 0), os_pending = [1, 2], os_bad = False\<rparr> = Some (False, s') \<and>
     os_destroy flaky_ops s' = Some ([1, 1, 2], 2)"
  by (intro exI [of _ "\<lparr>os_file = ([1], 2), os_pending = [1, 2], os_bad = False\<rparr>"])
    (simp add: os_sync_def os_destroy_def flaky_ops_def flaky_write_def write_all.simps)

end
