(* ===== verification/Embed_Data.thy ===== *)
theory Embed_Data
  imports Lower_Bound
begin

text \<open>
  \<^verbatim>\<open>util/embed-data.cc\<close> and the part of \<^verbatim>\<open>tools/embed/generate-embed-data.cc\<close> that it relies on: the names of the
  embedded files, sorted and without duplicates, and the search by name. The names are compared as unsigned bytes.
  The outer \<open>None\<close> of the search is an index outside \<^verbatim>\<open>contents_\<close>.
\<close>

record embed_data =
  ed_names :: "bytes list"
  ed_contents :: "bytes list"

definition get_content_by_name :: "embed_data \<Rightarrow> bytes \<Rightarrow> bytes option option" where
  "get_content_by_name d name =
     (case lower_bound (\<lambda>n. Some (n < name)) (ed_names d) of
        None \<Rightarrow> None
      | Some i \<Rightarrow>
          if i = length (ed_names d) \<or> ed_names d ! i \<noteq> name then Some None
          else if i < length (ed_contents d) then Some (Some (ed_contents d ! i))
          else None)"

text \<open>The list \<^verbatim>\<open>files\<close> of the generator, from its positional arguments, the first of which is the program;
  \<^verbatim>\<open>std::unique\<close> removes adjacent duplicates.\<close>

definition embedded_files :: "bytes list \<Rightarrow> bytes list" where
  "embedded_files positional_args =
     (if length positional_args > 1 then remdups_adj (sort (drop 1 positional_args)) else [])"

text \<open>The object that the generated source defines, for a directory of files.\<close>

definition generated :: "(bytes \<Rightarrow> bytes) \<Rightarrow> bytes list \<Rightarrow> embed_data" where
  "generated read_file positional_args =
     \<lparr>ed_names = embedded_files positional_args, ed_contents = map read_file (embedded_files positional_args)\<rparr>"

lemma lookup_sorted:
  assumes "sorted names"
  shows "get_content_by_name \<lparr>ed_names = names, ed_contents = map read_file names\<rparr> name =
    Some (if name \<in> set names then Some (read_file name) else None)"
proof -
  let ?d = "\<lparr>ed_names = names, ed_contents = map read_file names\<rparr>"
  have "\<And>i j. i \<le> j \<Longrightarrow> j < length names \<Longrightarrow> names ! j < name \<Longrightarrow> names ! i < name"
    using assms sorted_nth_mono order_le_less_trans by blast
  then obtain k where k: "lower_bound (\<lambda>n. Some (n < name)) names = Some k" "k \<le> length names"
    "\<And>i. i < k \<Longrightarrow> names ! i < name" "\<And>i. k \<le> i \<Longrightarrow> i < length names \<Longrightarrow> \<not> names ! i < name"
    using lower_bound_spec [of names "\<lambda>n. Some (n < name)" "\<lambda>n. n < name"] by blast
  show ?thesis
  proof (cases "name \<in> set names")
    case True
    then obtain i where i: "i < length names" "names ! i = name" by (auto simp: in_set_conv_nth)
    have "k \<le> i" using k(3) [of i] i(2) by (metis less_irrefl not_le_imp_less)
    then have kl: "k < length names" using i(1) by simp
    have "names ! k \<le> name" using sorted_nth_mono [OF assms \<open>k \<le> i\<close> i(1)] i(2) by simp
    moreover have "\<not> names ! k < name" using k(4) [of k] kl by simp
    ultimately have "names ! k = name" by simp
    with k(1) kl True show ?thesis by (simp add: get_content_by_name_def)
  next
    case False
    then have "k = length names \<or> names ! k \<noteq> name" using k(2) by (metis le_neq_implies_less nth_mem)
    with k(1) False show ?thesis by (simp add: get_content_by_name_def)
  qed
qed

text \<open>C38. Embedded files: whatever files the generator is given, in any order and with repetitions, the lookup by name in
  the object it generates returns the content of exactly those files, and nothing for other names.\<close>

theorem embedded_lookup:
  "get_content_by_name (generated read_file (program # files)) name =
   Some (if name \<in> set files then Some (read_file name) else None)"
proof -
  have "sorted (embedded_files (program # files))" by (simp add: embedded_files_def sorted_remdups_adj)
  moreover have "set (embedded_files (program # files)) = set files" by (auto simp: embedded_files_def)
  ultimately show ?thesis by (simp add: generated_def lookup_sorted)
qed

end
