(* ===== verification/Native_File.thy ===== *)
theory Native_File
  imports File_Utils Utf
begin

text \<open>
  \<^verbatim>\<open>io/posix/file\<close>, \<^verbatim>\<open>io/win32/file\<close> and \<^verbatim>\<open>io/native-file\<close>: files of the operating system. The system calls are
  parameters, the records \<open>posix_calls\<close> and \<open>win32_calls\<close> over a state of the system; an error number is a left
  value. The calls on a handle that is shared are the operations of \<^verbatim>\<open>io::File\<close>; a \<^verbatim>\<open>File\<close> also owns its
  handle. The field for the log records what was opened and closed through a file.
\<close>

datatype handle_event = Opened int | Closed int

datatype open_flag = O_RDONLY | O_RDWR | O_CREAT | O_TRUNC

datatype whence = Seek_set | Seek_cur

record 'k posix_calls =
  sys_read :: "'k \<Rightarrow> int \<Rightarrow> nat \<Rightarrow> (int + bytes) \<times> 'k"
  sys_write :: "'k \<Rightarrow> int \<Rightarrow> bytes \<Rightarrow> (int + nat) \<times> 'k"
  sys_pread :: "'k \<Rightarrow> int \<Rightarrow> nat \<Rightarrow> int \<Rightarrow> (int + bytes) \<times> 'k"
  sys_pwrite :: "'k \<Rightarrow> int \<Rightarrow> bytes \<Rightarrow> int \<Rightarrow> (int + nat) \<times> 'k"
  sys_lseek :: "'k \<Rightarrow> int \<Rightarrow> int \<Rightarrow> whence \<Rightarrow> (int + nat) \<times> 'k"
  sys_fstat_size :: "'k \<Rightarrow> int \<Rightarrow> (int + int) \<times> 'k"
  sys_open :: "'k \<Rightarrow> bytes \<Rightarrow> open_flag list \<Rightarrow> nat \<Rightarrow> (int + nat) \<times> 'k"
  sys_close :: "'k \<Rightarrow> int \<Rightarrow> 'k"

text \<open>The error of a call, or its result converted.\<close>

definition sys_result :: "('a \<Rightarrow> 'b) \<Rightarrow> (int + 'a) \<times> 'k \<Rightarrow> (errc + 'b) \<times> 'k" where
  "sys_result conv r = (case r of (Inl e, k) \<Rightarrow> (Inl (System e), k) | (Inr x, k) \<Rightarrow> (Inr (conv x), k))"

section \<open>POSIX files\<close>

definition px_read :: "'k posix_calls \<Rightarrow> int \<Rightarrow> 'k \<Rightarrow> nat \<Rightarrow> (errc + bytes) \<times> 'k" where
  "px_read calls fd k n = sys_result (\<lambda>xs. xs) (sys_read calls k fd n)"

definition px_write :: "'k posix_calls \<Rightarrow> int \<Rightarrow> 'k \<Rightarrow> bytes \<Rightarrow> (errc + nat) \<times> 'k" where
  "px_write calls fd k xs = sys_result (\<lambda>n. n) (sys_write calls k fd xs)"

definition px_pread :: "'k posix_calls \<Rightarrow> int \<Rightarrow> 'k \<Rightarrow> int \<Rightarrow> nat \<Rightarrow> (errc + bytes) \<times> 'k" where
  "px_pread calls fd k offset n = sys_result (\<lambda>xs. xs) (sys_pread calls k fd n offset)"

definition px_pwrite :: "'k posix_calls \<Rightarrow> int \<Rightarrow> 'k \<Rightarrow> int \<Rightarrow> bytes \<Rightarrow> (errc + nat) \<times> 'k" where
  "px_pwrite calls fd k offset xs = sys_result (\<lambda>n. n) (sys_pwrite calls k fd xs offset)"

definition px_seek :: "'k posix_calls \<Rightarrow> int \<Rightarrow> 'k \<Rightarrow> int \<Rightarrow> errc option \<times> 'k" where
  "px_seek calls fd k offset =
     (case sys_lseek calls k fd offset Seek_set of (Inl e, k') \<Rightarrow> (Some (System e), k') | (Inr _, k') \<Rightarrow> (None, k'))"

definition px_tell :: "'k posix_calls \<Rightarrow> int \<Rightarrow> 'k \<Rightarrow> (errc + int) \<times> 'k" where
  "px_tell calls fd k = sys_result int (sys_lseek calls k fd 0 Seek_cur)"

definition px_size :: "'k posix_calls \<Rightarrow> int \<Rightarrow> 'k \<Rightarrow> (errc + int) \<times> 'k" where
  "px_size calls fd k = sys_result (\<lambda>n. n) (sys_fstat_size calls k fd)"

definition posix_ops :: "'k posix_calls \<Rightarrow> int \<Rightarrow> 'k file_ops" where
  "posix_ops calls fd =
     \<lparr>read_op = px_read calls fd, write_op = px_write calls fd, pread_op = px_pread calls fd, pwrite_op = px_pwrite calls fd,
      seek_op = px_seek calls fd, tell_op = px_tell calls fd, size_op = px_size calls fd\<rparr>"

text \<open>The standard streams: shared files, which nothing closes.\<close>

definition posix_std_input :: "'k posix_calls \<Rightarrow> 'k file_ops" where
  "posix_std_input calls = posix_ops calls 0"

definition posix_std_output :: "'k posix_calls \<Rightarrow> 'k file_ops" where
  "posix_std_output calls = posix_ops calls 1"

definition posix_std_error :: "'k posix_calls \<Rightarrow> 'k file_ops" where
  "posix_std_error calls = posix_ops calls 2"

record 'k posix_file =
  pf_system :: 'k
  pf_fd :: int
  pf_log :: "handle_event list"

definition posix_file_new :: "'k \<Rightarrow> 'k posix_file" where
  "posix_file_new k = \<lparr>pf_system = k, pf_fd = -1, pf_log = []\<rparr>"

definition posix_close :: "'k posix_calls \<Rightarrow> 'k posix_file \<Rightarrow> 'k posix_file" where
  "posix_close calls f =
     (if pf_fd f < 0 then f
      else f\<lparr>pf_system := sys_close calls (pf_system f) (pf_fd f), pf_log := pf_log f @ [Closed (pf_fd f)], pf_fd := -1\<rparr>)"

definition posix_open :: "'k posix_calls \<Rightarrow> bytes \<Rightarrow> open_flag list \<Rightarrow> nat \<Rightarrow> 'k posix_file \<Rightarrow> errc option \<times> 'k posix_file" where
  "posix_open calls filename flags mode f =
     (let f = posix_close calls f
      in case sys_open calls (pf_system f) filename flags mode of
           (Inl e, k) \<Rightarrow> (Some (System e), f\<lparr>pf_system := k\<rparr>)
         | (Inr fd, k) \<Rightarrow> (None, f\<lparr>pf_system := k, pf_fd := int fd, pf_log := pf_log f @ [Opened (int fd)]\<rparr>))"

definition posix_create :: "'k posix_calls \<Rightarrow> bytes \<Rightarrow> 'k posix_file \<Rightarrow> errc option \<times> 'k posix_file" where
  "posix_create calls filename f = posix_open calls filename [O_CREAT, O_RDWR, O_TRUNC] 420 f"

section \<open>Windows files\<close>

text \<open>Counts are 32-bit words here. A positioned call is given its offset in two halves.\<close>

datatype disposition = Create_always | Open_existing

datatype access_right = Generic_read | Generic_write

record 'k win32_calls =
  read_file :: "'k \<Rightarrow> int \<Rightarrow> u32 \<Rightarrow> (u32 \<times> u32) option \<Rightarrow> (int + bytes) \<times> 'k"
  write_file :: "'k \<Rightarrow> int \<Rightarrow> bytes \<Rightarrow> u32 \<Rightarrow> (u32 \<times> u32) option \<Rightarrow> (int + nat) \<times> 'k"
  set_file_pointer :: "'k \<Rightarrow> int \<Rightarrow> int \<Rightarrow> whence \<Rightarrow> (int + int) \<times> 'k"
  get_file_size :: "'k \<Rightarrow> int \<Rightarrow> (int + int) \<times> 'k"
  create_file :: "'k \<Rightarrow> u16 list \<Rightarrow> access_right list \<Rightarrow> disposition \<Rightarrow> int \<times> int \<times> 'k"
  close_handle :: "'k \<Rightarrow> int \<Rightarrow> 'k"

definition invalid_handle_value :: int where
  "invalid_handle_value = -1"

definition overlapped :: "int \<Rightarrow> u32 \<times> u32" where
  "overlapped offset = (word_of_int offset, word_of_int (drop_bit 32 offset))"

definition w32_read :: "'k win32_calls \<Rightarrow> int \<Rightarrow> 'k \<Rightarrow> nat \<Rightarrow> (errc + bytes) \<times> 'k" where
  "w32_read calls h k n = sys_result (\<lambda>xs. xs) (read_file calls k h (of_nat n) None)"

definition w32_write :: "'k win32_calls \<Rightarrow> int \<Rightarrow> 'k \<Rightarrow> bytes \<Rightarrow> (errc + nat) \<times> 'k" where
  "w32_write calls h k xs = sys_result (\<lambda>n. n) (write_file calls k h xs (of_nat (length xs)) None)"

definition w32_pread :: "'k win32_calls \<Rightarrow> int \<Rightarrow> 'k \<Rightarrow> int \<Rightarrow> nat \<Rightarrow> (errc + bytes) \<times> 'k" where
  "w32_pread calls h k offset n = sys_result (\<lambda>xs. xs) (read_file calls k h (of_nat n) (Some (overlapped offset)))"

definition w32_pwrite :: "'k win32_calls \<Rightarrow> int \<Rightarrow> 'k \<Rightarrow> int \<Rightarrow> bytes \<Rightarrow> (errc + nat) \<times> 'k" where
  "w32_pwrite calls h k offset xs =
     sys_result (\<lambda>n. n) (write_file calls k h xs (of_nat (length xs)) (Some (overlapped offset)))"

definition w32_seek :: "'k win32_calls \<Rightarrow> int \<Rightarrow> 'k \<Rightarrow> int \<Rightarrow> errc option \<times> 'k" where
  "w32_seek calls h k offset =
     (case set_file_pointer calls k h offset Seek_set of (Inl e, k') \<Rightarrow> (Some (System e), k') | (Inr _, k') \<Rightarrow> (None, k'))"

definition w32_tell :: "'k win32_calls \<Rightarrow> int \<Rightarrow> 'k \<Rightarrow> (errc + int) \<times> 'k" where
  "w32_tell calls h k = sys_result (\<lambda>n. n) (set_file_pointer calls k h 0 Seek_cur)"

definition w32_size :: "'k win32_calls \<Rightarrow> int \<Rightarrow> 'k \<Rightarrow> (errc + int) \<times> 'k" where
  "w32_size calls h k = sys_result (\<lambda>n. n) (get_file_size calls k h)"

definition win32_ops :: "'k win32_calls \<Rightarrow> int \<Rightarrow> 'k file_ops" where
  "win32_ops calls h =
     \<lparr>read_op = w32_read calls h, write_op = w32_write calls h, pread_op = w32_pread calls h, pwrite_op = w32_pwrite calls h,
      seek_op = w32_seek calls h, tell_op = w32_tell calls h, size_op = w32_size calls h\<rparr>"

text \<open>\<open>get_std_handle\<close> is the system's \<^verbatim>\<open>GetStdHandle\<close>.\<close>

datatype std_handle = Std_input_handle | Std_output_handle | Std_error_handle

definition win32_std_input :: "'k win32_calls \<Rightarrow> (std_handle \<Rightarrow> int) \<Rightarrow> 'k file_ops" where
  "win32_std_input calls get_std_handle = win32_ops calls (get_std_handle Std_input_handle)"

definition win32_std_output :: "'k win32_calls \<Rightarrow> (std_handle \<Rightarrow> int) \<Rightarrow> 'k file_ops" where
  "win32_std_output calls get_std_handle = win32_ops calls (get_std_handle Std_output_handle)"

definition win32_std_error :: "'k win32_calls \<Rightarrow> (std_handle \<Rightarrow> int) \<Rightarrow> 'k file_ops" where
  "win32_std_error calls get_std_handle = win32_ops calls (get_std_handle Std_error_handle)"

record 'k win32_file =
  wf_system :: 'k
  wf_handle :: int
  wf_log :: "handle_event list"

definition win32_file_new :: "'k \<Rightarrow> 'k win32_file" where
  "win32_file_new k = \<lparr>wf_system = k, wf_handle = invalid_handle_value, wf_log = []\<rparr>"

definition win32_close :: "'k win32_calls \<Rightarrow> 'k win32_file \<Rightarrow> 'k win32_file" where
  "win32_close calls f =
     (if wf_handle f = invalid_handle_value then f
      else f\<lparr>wf_system := close_handle calls (wf_system f) (wf_handle f), wf_log := wf_log f @ [Closed (wf_handle f)],
             wf_handle := invalid_handle_value\<rparr>)"

text \<open>\<^verbatim>\<open>CreateFileW\<close> returns the handle, the last error and the state.\<close>

definition win32_create_file ::
    "'k win32_calls \<Rightarrow> u16 list \<Rightarrow> access_right list \<Rightarrow> disposition \<Rightarrow> 'k win32_file \<Rightarrow> errc option \<times> 'k win32_file" where
  "win32_create_file calls filename access disp f =
     (let f = win32_close calls f
      in case create_file calls (wf_system f) filename access disp of
           (h, e, k) \<Rightarrow>
             if h = invalid_handle_value then (Some (System e), f\<lparr>wf_system := k\<rparr>)
             else (None, f\<lparr>wf_system := k, wf_handle := h, wf_log := wf_log f @ [Opened h]\<rparr>))"

definition win32_create :: "'k win32_calls \<Rightarrow> u16 list \<Rightarrow> 'k win32_file \<Rightarrow> errc option \<times> 'k win32_file" where
  "win32_create calls filename f = win32_create_file calls filename [Generic_read, Generic_write] Create_always f"

definition win32_open :: "'k win32_calls \<Rightarrow> u16 list \<Rightarrow> access_right list \<Rightarrow> 'k win32_file \<Rightarrow> errc option \<times> 'k win32_file" where
  "win32_open calls filename access f = win32_create_file calls filename access Open_existing f"

section \<open>Native files\<close>

definition native_open_posix :: "'k posix_calls \<Rightarrow> bytes \<Rightarrow> 'k posix_file \<Rightarrow> errc option \<times> 'k posix_file" where
  "native_open_posix calls filename f = posix_open calls filename [O_RDONLY] 0 f"

definition native_create_posix :: "'k posix_calls \<Rightarrow> bytes \<Rightarrow> 'k posix_file \<Rightarrow> errc option \<times> 'k posix_file" where
  "native_create_posix calls filename f = posix_create calls filename f"

definition native_open_win32 :: "'k win32_calls \<Rightarrow> bytes \<Rightarrow> 'k win32_file \<Rightarrow> errc option \<times> 'k win32_file" where
  "native_open_win32 calls filename f = win32_open calls (utf8_to_utf16 filename) [Generic_read] f"

definition native_create_win32 :: "'k win32_calls \<Rightarrow> bytes \<Rightarrow> 'k win32_file \<Rightarrow> errc option \<times> 'k win32_file" where
  "native_create_win32 calls filename f = win32_create calls (utf8_to_utf16 filename) f"

section \<open>Ownership of handles\<close>

text \<open>What a class that owns a handle promises: closing releases the handle it has and leaves it without one; opening
  closes first and then owns the new handle, or none. Whatever is done with it, every handle it opened is closed exactly
  once, before the next one is opened.\<close>

locale owned_handle =
  fixes valid :: "int \<Rightarrow> bool" and handle :: "'s \<Rightarrow> int" and log :: "'s \<Rightarrow> handle_event list"
    and close :: "'s \<Rightarrow> 's" and opens :: "'s \<Rightarrow> 's \<Rightarrow> bool"
  assumes close_log: "log (close s) = log s @ (if valid (handle s) then [Closed (handle s)] else [])"
    and close_handle: "\<not> valid (handle (close s))"
    and opens_log: "opens s s' \<Longrightarrow>
      log s' = log (close s) @ (if valid (handle s') then [Opened (handle s')] else [])"
begin

definition uses :: "'s \<Rightarrow> 's \<Rightarrow> bool" where
  "uses s s' \<longleftrightarrow> opens s s' \<or> s' = close s"

definition balanced :: "'s \<Rightarrow> bool" where
  "balanced s \<longleftrightarrow> (\<exists>hs. log s = concat (map (\<lambda>h. [Opened h, Closed h]) hs) @ (if valid (handle s) then [Opened (handle s)] else []))"

lemma balanced_close: "balanced s \<Longrightarrow> \<exists>hs. log (close s) = concat (map (\<lambda>h. [Opened h, Closed h]) hs)"
  unfolding balanced_def close_log
proof (elim exE)
  fix hs
  assume l: "log s = concat (map (\<lambda>h. [Opened h, Closed h]) hs) @ (if valid (handle s) then [Opened (handle s)] else [])"
  show "\<exists>hs. log s @ (if valid (handle s) then [Closed (handle s)] else []) = concat (map (\<lambda>h. [Opened h, Closed h]) hs)"
    by (rule exI [of _ "hs @ (if valid (handle s) then [handle s] else [])"]) (simp add: l)
qed

lemma balanced_uses: "uses s s' \<Longrightarrow> balanced s \<Longrightarrow> balanced s'"
  using balanced_close [of s] close_handle [of s] opens_log [of s s'] by (auto simp: uses_def balanced_def)

lemma closed_once:
  assumes "log s = []" and "\<not> valid (handle s)" and "uses\<^sup>*\<^sup>* s s'"
  shows "\<exists>hs. log (close s') = concat (map (\<lambda>h. [Opened h, Closed h]) hs)"
proof -
  have "balanced s'" using assms(3)
  proof (induction rule: rtranclp_induct)
    case base
    then show ?case using assms(1,2) by (auto simp: balanced_def intro: exI [of _ "[]"])
  next
    case (step t u)
    then show ?case using balanced_uses by blast
  qed
  then show ?thesis by (rule balanced_close)
qed

end

definition posix_opens :: "'k posix_calls \<Rightarrow> 'k posix_file \<Rightarrow> 'k posix_file \<Rightarrow> bool" where
  "posix_opens calls f f' \<longleftrightarrow> (\<exists>filename flags mode. f' = snd (posix_open calls filename flags mode f))"

definition win32_opens :: "'k win32_calls \<Rightarrow> 'k win32_file \<Rightarrow> 'k win32_file \<Rightarrow> bool" where
  "win32_opens calls f f' \<longleftrightarrow> (\<exists>filename access disp. f' = snd (win32_create_file calls filename access disp f))"

interpretation posix: owned_handle "\<lambda>h. 0 \<le> h" pf_fd pf_log "posix_close calls" "posix_opens calls" for calls :: "'k posix_calls"
proof unfold_locales
  show "pf_log s' = pf_log (posix_close calls s) @ (if 0 \<le> pf_fd s' then [Opened (pf_fd s')] else [])"
    if "posix_opens calls s s'" for s s' :: "'k posix_file"
  proof -
    obtain filename flags mode where s': "s' = snd (posix_open calls filename flags mode s)"
      using \<open>posix_opens calls s s'\<close> by (auto simp: posix_opens_def)
    have "pf_fd (posix_close calls s) < 0" by (simp add: posix_close_def)
    then show ?thesis unfolding s' posix_open_def Let_def by (auto split: prod.split sum.split)
  qed
qed (auto simp: posix_close_def)

interpretation win32: owned_handle "\<lambda>h. h \<noteq> invalid_handle_value" wf_handle wf_log "win32_close calls" "win32_opens calls" for calls :: "'k win32_calls"
proof unfold_locales
  show "wf_log s' = wf_log (win32_close calls s) @ (if wf_handle s' \<noteq> invalid_handle_value then [Opened (wf_handle s')] else [])"
    if "win32_opens calls s s'" for s s' :: "'k win32_file"
  proof -
    obtain filename access disp where s': "s' = snd (win32_create_file calls filename access disp s)"
      using \<open>win32_opens calls s s'\<close> by (auto simp: win32_opens_def)
    have "wf_handle (win32_close calls s) = invalid_handle_value" by (simp add: win32_close_def)
    then show ?thesis unfolding s' win32_create_file_def Let_def by (auto split: prod.split)
  qed
qed (auto simp: win32_close_def)

text \<open>A system that hands out the descriptor 3 and knows nothing else.\<close>

definition sample_posix :: "unit posix_calls" where
  "sample_posix = \<lparr>sys_read = \<lambda>k fd n. (Inr [], k), sys_write = \<lambda>k fd xs. (Inr 0, k), sys_pread = \<lambda>k fd n p. (Inr [], k),
     sys_pwrite = \<lambda>k fd xs p. (Inr 0, k), sys_lseek = \<lambda>k fd p w. (Inr 0, k), sys_fstat_size = \<lambda>k fd. (Inr 0, k),
     sys_open = \<lambda>k name flags mode. (Inr 3, k), sys_close = \<lambda>k fd. k\<rparr>"

definition sample_win32 :: "unit win32_calls" where
  "sample_win32 = \<lparr>read_file = \<lambda>k h n o'. (Inr [], k), write_file = \<lambda>k h xs n o'. (Inr (unat n), k),
     set_file_pointer = \<lambda>k h p w. (Inr 0, k), get_file_size = \<lambda>k h. (Inr 0, k),
     create_file = \<lambda>k name access disp. (7, 0, k), close_handle = \<lambda>k h. k\<rparr>"

text \<open>C39. Handles of files: whatever sequence of \<^verbatim>\<open>open\<close>, \<^verbatim>\<open>create\<close> and \<^verbatim>\<open>close\<close> a default-constructed \<^verbatim>\<open>File\<close> goes through,
  with whatever results of the system calls, once it is destroyed every handle it was given has been closed exactly
  once, before the next one was opened; on POSIX and on Windows.\<close>

theorem native_handles_closed_once:
  assumes "(\<lambda>s s'. posix_opens calls s s' \<or> s' = posix_close calls s)\<^sup>*\<^sup>* (posix_file_new k) f"
    and "(\<lambda>s s'. win32_opens wcalls s s' \<or> s' = win32_close wcalls s)\<^sup>*\<^sup>* (win32_file_new wk) g"
  shows "(\<exists>hs. pf_log (posix_close calls f) = concat (map (\<lambda>h. [Opened h, Closed h]) hs)) \<and>
    (\<exists>hs. wf_log (win32_close wcalls g) = concat (map (\<lambda>h. [Opened h, Closed h]) hs))"
proof
  have "(posix.uses calls)\<^sup>*\<^sup>* (posix_file_new k) f" using assms(1) by (simp add: posix.uses_def [abs_def])
  then show "\<exists>hs. pf_log (posix_close calls f) = concat (map (\<lambda>h. [Opened h, Closed h]) hs)"
    by (intro posix.closed_once) (simp_all add: posix_file_new_def)
  have "(win32.uses wcalls)\<^sup>*\<^sup>* (win32_file_new wk) g" using assms(2) by (simp add: win32.uses_def [abs_def])
  then show "\<exists>hs. wf_log (win32_close wcalls g) = concat (map (\<lambda>h. [Opened h, Closed h]) hs)"
    by (intro win32.closed_once) (simp_all add: win32_file_new_def)
qed

theorem native_handles_closed_once_witness:
  "(\<exists>hs. pf_log (posix_close sample_posix (snd (native_open_posix sample_posix [97] (posix_file_new ())))) =
      concat (map (\<lambda>h. [Opened h, Closed h]) hs)) \<and>
   pf_log (snd (native_open_posix sample_posix [97] (posix_file_new ()))) = [Opened 3]"
proof -
  let ?f = "snd (native_open_posix sample_posix [97] (posix_file_new ()))"
  have "posix_opens sample_posix (posix_file_new ()) ?f" by (auto simp: posix_opens_def native_open_posix_def)
  then have "(\<lambda>s s'. posix_opens sample_posix s s' \<or> s' = posix_close sample_posix s)\<^sup>*\<^sup>* (posix_file_new ()) ?f"
    by (simp add: r_into_rtranclp)
  from native_handles_closed_once [OF this, of sample_win32 "()" "win32_file_new ()"] show ?thesis
    by (simp add: native_open_posix_def posix_open_def posix_close_def posix_file_new_def sample_posix_def)
qed

section \<open>POSIX files keep the contract of files\<close>

text \<open>What POSIX documents of the calls on the descriptor of a regular file, with the contents of the file and the
  offset of the descriptor as functions of the state: a read transfers bytes at the offset, and none only at the end of
  the file or if none are asked for; a write of some bytes takes at least one of them; both move the offset. Either may
  be short and either may fail. A seek from the start sets the offset.\<close>

definition posix_laws :: "'k posix_calls \<Rightarrow> int \<Rightarrow> ('k \<Rightarrow> bytes) \<Rightarrow> ('k \<Rightarrow> nat) \<Rightarrow> bool" where
  "posix_laws calls fd contents pos \<longleftrightarrow>
     (\<forall>k n r k'. sys_read calls k fd n = (r, k') \<longrightarrow> contents k' = contents k) \<and>
     (\<forall>k n xs k'. sys_read calls k fd n = (Inr xs, k') \<longrightarrow>
        length xs \<le> n \<and> xs = take (length xs) (drop (pos k) (contents k)) \<and> pos k' = pos k + length xs \<and>
        (xs = [] \<longrightarrow> n = 0 \<or> length (contents k) \<le> pos k)) \<and>
     (\<forall>k xs n k'. xs \<noteq> [] \<and> sys_write calls k fd xs = (Inr n, k') \<longrightarrow>
        0 < n \<and> n \<le> length xs \<and> pos k' = pos k + n \<and> contents k' = put_bytes (pos k) (take n xs) (contents k)) \<and>
     (\<forall>k offset n k'. sys_lseek calls k fd offset Seek_set = (Inr n, k') \<longrightarrow>
        contents k' = contents k \<and> int (pos k') = offset)"

lemma posix_lawsD:
  assumes "posix_laws calls fd contents pos"
  shows "sys_read calls k fd n = (r, k') \<Longrightarrow> contents k' = contents k"
    and "sys_read calls k fd n = (Inr xs, k') \<Longrightarrow>
      length xs \<le> n \<and> xs = take (length xs) (drop (pos k) (contents k)) \<and> pos k' = pos k + length xs \<and>
      (xs = [] \<longrightarrow> n = 0 \<or> length (contents k) \<le> pos k)"
    and "xs \<noteq> [] \<Longrightarrow> sys_write calls k fd xs = (Inr m, k') \<Longrightarrow>
      0 < m \<and> m \<le> length xs \<and> pos k' = pos k + m \<and> contents k' = put_bytes (pos k) (take m xs) (contents k)"
    and "sys_lseek calls k fd offset Seek_set = (Inr m, k') \<Longrightarrow> contents k' = contents k \<and> int (pos k') = offset"
  using assms unfolding posix_laws_def by blast+

lemma sys_result_Inr: "sys_result conv r = (Inr y, k) \<longleftrightarrow> (\<exists>x. r = (Inr x, k) \<and> y = conv x)"
  by (auto simp: sys_result_def split: prod.splits sum.splits)

lemma sys_result_Inl: "sys_result conv r = (Inl e, k) \<longleftrightarrow> (\<exists>n. r = (Inl n, k) \<and> e = System n)"
  by (auto simp: sys_result_def split: prod.splits sum.splits)

lemma sys_result_state: "sys_result conv r = (y, k) \<Longrightarrow> \<exists>x. r = (x, k)"
  by (auto simp: sys_result_def split: prod.splits sum.splits)

lemma posix_file_contract:
  assumes "posix_laws calls fd contents pos"
  shows "file_contract (posix_ops calls fd) contents pos"
proof unfold_locales
  note laws = posix_lawsD [OF assms]
  show "contents f' = contents f" if "read_op (posix_ops calls fd) f n = (r, f')" for f n r f'
    using that laws(1) by (auto simp: posix_ops_def px_read_def dest!: sys_result_state)
  show "length xs \<le> n \<and> xs = take (length xs) (drop (pos f) (contents f)) \<and> pos f' = pos f + length xs"
    if "read_op (posix_ops calls fd) f n = (Inr xs, f')" for f n xs f'
    using that laws(2) [of f n xs f'] by (simp add: posix_ops_def px_read_def sys_result_Inr)
  show "n = 0 \<or> length (contents f) \<le> pos f" if "read_op (posix_ops calls fd) f n = (Inr [], f')" for f n f'
    using that laws(2) [of f n "[]" f'] by (simp add: posix_ops_def px_read_def sys_result_Inr)
  show "0 < m \<and> m \<le> length xs \<and> pos f' = pos f + m \<and> contents f' = put_bytes (pos f) (take m xs) (contents f)"
    if "xs \<noteq> []" and "write_op (posix_ops calls fd) f xs = (Inr m, f')" for f xs m f'
    using that(2) laws(3) [OF that(1), of f m f'] by (simp add: posix_ops_def px_write_def sys_result_Inr)
qed

text \<open>A disk with one file, which transfers at most three bytes at a time and fails every write at offset 7.\<close>

definition slow_disk :: "(bytes \<times> nat) posix_calls" where
  "slow_disk = \<lparr>sys_read = \<lambda>(c, p) fd n. let xs = take (min 3 n) (drop p c) in (Inr xs, (c, p + length xs)),
     sys_write = \<lambda>(c, p) fd xs. if p = 7 then (Inl 28, (c, p)) else let ys = take 3 xs in (Inr (length ys), (put_bytes p ys c, p + length ys)),
     sys_pread = \<lambda>(c, p) fd n offset. (Inr (take (min 3 n) (drop (nat offset) c)), (c, p)),
     sys_pwrite = \<lambda>(c, p) fd xs offset. let ys = take 3 xs in (Inr (length ys), (put_bytes (nat offset) ys c, p)),
     sys_lseek = \<lambda>(c, p) fd offset w. if w = Seek_cur then (Inr p, (c, p)) else if offset < 0 then (Inl 22, (c, p)) else (Inr (nat offset), (c, nat offset)),
     sys_fstat_size = \<lambda>(c, p) fd. (Inr (int (length c)), (c, p)), sys_open = \<lambda>k name flags mode. (Inr 3, k), sys_close = \<lambda>k fd. k\<rparr>"

lemma slow_disk_laws: "posix_laws slow_disk fd fst snd"
  unfolding posix_laws_def
proof (intro conjI allI impI)
  fix k :: "bytes \<times> nat" and n r k'
  assume "sys_read slow_disk k fd n = (r, k')"
  then show "fst k' = fst k" by (cases k) (auto simp: slow_disk_def Let_def)
next
  fix k :: "bytes \<times> nat" and n k' xs
  assume r: "sys_read slow_disk k fd n = (Inr xs, k')"
  obtain c p where k: "k = (c, p)" by fastforce
  show "length xs \<le> n" "xs = take (length xs) (drop (snd k) (fst k))" "snd k' = snd k + length xs" 
    using r by (auto simp: slow_disk_def Let_def k min_def)
  show "n = 0 \<or> length (fst k) \<le> snd k" if "xs = []" using r that by (auto simp: slow_disk_def Let_def k)
next
  fix k :: "bytes \<times> nat" and n k' and xs :: bytes
  assume w: "xs \<noteq> [] \<and> sys_write slow_disk k fd xs = (Inr n, k')"
  obtain c p where k: "k = (c, p)" by fastforce
  have n: "n = min (length xs) 3" "k' = (put_bytes p (take n xs) c, p + n)"
    using w by (auto simp: slow_disk_def Let_def k min_def split: if_splits)
  show "0 < n" "n \<le> length xs" "snd k' = snd k + n" "fst k' = put_bytes (snd k) (take n xs) (fst k)"
    using w by (simp_all add: n(1) n(2) k)
next
  fix k :: "bytes \<times> nat" and offset n k'
  assume s: "sys_lseek slow_disk k fd offset Seek_set = (Inr n, k')"
  obtain c p where k: "k = (c, p)" by fastforce
  show "fst k' = fst k" "int (snd k') = offset" using s by (auto simp: slow_disk_def k split: if_splits)
qed

text \<open>C21. The loops of \<^verbatim>\<open>io/file-utils\<close> on a POSIX file, over system calls that may transfer less than asked for and may fail:
  \<^verbatim>\<open>io::write\<close> to an empty file returns, either with the error of a failed \<^verbatim>\<open>write\<close> call or with exactly the buffer in the
  file; after a seek back \<^verbatim>\<open>io::read_to_end\<close>, in chunks of any positive size, returns either the error of a failed \<^verbatim>\<open>read\<close>
  call or exactly the buffer that was written.\<close>

theorem posix_write_read_to_end:
  assumes "posix_laws calls fd contents pos" and "contents k = []" and "pos k = 0" and "0 < buffer_size"
  shows "\<exists>w k1. write_all (posix_ops calls fd) k xs = Some (w, k1) \<and>
    (\<forall>e. w = Some e \<longrightarrow> (\<exists>n k0 ys. e = System n \<and> sys_write calls k0 fd ys = (Inl n, k1))) \<and>
    (w = None \<longrightarrow> contents k1 = xs \<and>
      (\<forall>k2. seek_op (posix_ops calls fd) k1 0 = (None, k2) \<longrightarrow>
        (\<exists>r k3. read_to_end (posix_ops calls fd) buffer_size k2 = Some (r, k3) \<and>
          (r = Inr xs \<or> (\<exists>n k0. r = Inl (System n) \<and> sys_read calls k0 fd buffer_size = (Inl n, k3))))))"
proof -
  let ?ops = "posix_ops calls fd"
  note contract = posix_file_contract [OF assms(1)]
  obtain w k1 where w: "write_all ?ops k xs = Some (w, k1)"
    and v: "case w of Some e \<Rightarrow> \<exists>g ys. write_op ?ops g ys = (Inl e, k1)
      | None \<Rightarrow> contents k1 = put_bytes (pos k) xs (contents k) \<and> pos k1 = pos k + length xs"
    using file_contract.write_all_contents [OF contract, of k xs] assms(3) by auto
  have err: "\<exists>n k0 ys. e = System n \<and> sys_write calls k0 fd ys = (Inl n, k1)" if "w = Some e" for e
    using v that by (auto simp: posix_ops_def px_write_def sys_result_Inl)
  have c: "contents k1 = xs" if "w = None"
    using v that assms(2,3) put_bytes_at_end [of "[]" xs] by simp
  have again: "\<exists>r k3. read_to_end ?ops buffer_size k2 = Some (r, k3) \<and>
      (r = Inr xs \<or> (\<exists>n k0. r = Inl (System n) \<and> sys_read calls k0 fd buffer_size = (Inl n, k3)))"
    if "w = None" and seek: "seek_op ?ops k1 0 = (None, k2)" for k2
  proof -
    obtain m where "sys_lseek calls k1 fd 0 Seek_set = (Inr m, k2)"
      using seek by (auto simp: posix_ops_def px_seek_def split: prod.splits sum.splits)
    from posix_lawsD(4) [OF assms(1) this] c [OF that(1)] have k2: "contents k2 = xs" "pos k2 = 0" by simp_all
    obtain r k3 where r: "read_to_end_loop ?ops buffer_size k2 [] = Some (r, k3)"
      and rv: "case r of Inl e \<Rightarrow> \<exists>g. read_op ?ops g buffer_size = (Inl e, k3)
        | Inr ys \<Rightarrow> ys = [] @ file_contract.rest contents pos k2"
      using file_contract.read_to_end_loop_rest [OF contract assms(4), of k2 "[]"] by blast
    have "r = Inr xs \<or> (\<exists>n k0. r = Inl (System n) \<and> sys_read calls k0 fd buffer_size = (Inl n, k3))"
      using rv k2 by (auto simp: file_contract.rest_def [OF contract] posix_ops_def px_read_def sys_result_Inl split: sum.splits)
    with r show ?thesis unfolding read_to_end_def by blast
  qed
  from w err c again show ?thesis by blast
qed

theorem posix_write_read_to_end_witness:
  "\<exists>k1 k2 r k3. write_all (posix_ops slow_disk 3) ([], 0) [1, 2, 3, 4, 5] = Some (None, k1) \<and> fst k1 = [1, 2, 3, 4, 5] \<and>
    seek_op (posix_ops slow_disk 3) k1 0 = (None, k2) \<and> read_to_end (posix_ops slow_disk 3) 4096 k2 = Some (r, k3) \<and> r = Inr [1, 2, 3, 4, 5]"
proof -
  let ?ops = "posix_ops slow_disk 3" and ?xs = "[1, 2, 3, 4, 5] :: bytes"
  have step: "write_op ?ops (c, p) ys = (Inr (min (length ys) 3), (put_bytes p (take 3 ys) c, p + min (length ys) 3))" if "p \<noteq> 7" for c p ys
    using that by (simp add: posix_ops_def px_write_def sys_result_def slow_disk_def Let_def)
  have w: "write_all ?ops ([], 0) ?xs = Some (None, (?xs, 5))"
    by (simp add: write_all.simps [of ?ops] step put_bytes_def overwrite_def resize_def)
  have s: "seek_op ?ops (?xs, 5) 0 = (None, (?xs, 0))" by (simp add: posix_ops_def px_seek_def slow_disk_def)
  have never: "sys_read slow_disk k0 3 4096 \<noteq> (Inl n, k3)" for k0 n k3
    by (cases k0) (simp add: slow_disk_def Let_def)
  have "fst ([], 0) = ([] :: bytes)" "snd ([], 0) = (0 :: nat)" "(0 :: nat) < 4096" by simp_all
  from posix_write_read_to_end [OF slow_disk_laws this, of 3 ?xs] w s never show ?thesis by fastforce
qed

section \<open>Sizes on Windows\<close>

lemma overlapped_offset:
  assumes "0 \<le> offset" and "offset < 2 ^ 64"
  shows "int (unat (fst (overlapped offset))) + 2 ^ 32 * int (unat (snd (overlapped offset))) = offset"
proof -
  have "offset div 2 ^ 32 < 2 ^ 32" "0 \<le> offset div 2 ^ 32"
    using assms by (simp_all add: pos_imp_zdiv_nonneg_iff)
  then have "uint (word_of_int (offset div 2 ^ 32) :: u32) = offset div 2 ^ 32" by (simp add: unsigned_of_int take_bit_int_eq_self)
  moreover have "uint (word_of_int offset :: u32) = offset mod 2 ^ 32" by (simp add: unsigned_of_int take_bit_eq_mod)
  ultimately show ?thesis by (simp add: overlapped_def drop_bit_eq_div)
qed

lemma write_all_stuck:
  assumes "write_all ops f xs = Some r" and "write_op ops f xs = (Inr 0, f)"
  shows "xs = []"
  using assms
proof (induction rule: write_all.raw_induct [rotated, consumes 1])
  case (1 write_all' ops f xs r)
  show ?case
  proof (rule ccontr)
    assume ne: "xs \<noteq> []"
    then have "write_all' ops f xs = Some r" using 1(2,3) by simp
    with 1(1) [of ops f xs r] 1(3) ne show False by simp
  qed
qed

text \<open>C40. The Windows calls count bytes in 32 bits and \<^verbatim>\<open>buffer.size()\<close> is cut to that: for a buffer whose size is a positive
  multiple of 4 GiB, \<^verbatim>\<open>io::read\<close> reports the end of file without having read anything, and \<^verbatim>\<open>io::write\<close> never returns.\<close>

theorem win32_4gib_transfers:
  assumes "\<And>k. read_file calls k h 0 None = (Inr [], k)" and "\<And>k ys. write_file calls k h ys 0 None = (Inr 0, k)"
    and "0 < n" and "n mod 2 ^ 32 = 0"
  shows "read_all (win32_ops calls h) k n = (None, [], k) \<and>
    (length xs = n \<longrightarrow> write_all (win32_ops calls h) k xs = None)"
proof -
  have z: "(of_nat n :: u32) = 0" using assms(4) by (simp add: word_of_nat_eq_0_iff mod_0_imp_dvd)
  have "read_all (win32_ops calls h) k n = (None, [], k)"
    using assms(1,3) z by (simp add: read_all.simps [of _ k n] win32_ops_def w32_read_def sys_result_def)
  moreover have "write_all (win32_ops calls h) k xs = None" if "length xs = n"
  proof (rule ccontr)
    assume "write_all (win32_ops calls h) k xs \<noteq> None"
    then obtain r where "write_all (win32_ops calls h) k xs = Some r" by blast
    moreover have "write_op (win32_ops calls h) k xs = (Inr 0, k)"
      using assms(2) z \<open>length xs = n\<close> by (simp add: win32_ops_def w32_write_def sys_result_def)
    ultimately have "xs = []" by (rule write_all_stuck)
    with \<open>length xs = n\<close> assms(3) show False by simp
  qed
  ultimately show ?thesis by blast
qed

theorem win32_4gib_transfers_witness:
  "write_all (win32_ops sample_win32 7) () (replicate (2 ^ 32) 0) = None"
  using win32_4gib_transfers [of sample_win32 7 "2 ^ 32" "()" "replicate (2 ^ 32) 0"] by (simp add: sample_win32_def)

end
