(* ===== verification/Embed_Generator.thy ===== *)
theory Embed_Generator
  imports Embed_Data Native_File Net_Types
begin

text \<open>
  \<^verbatim>\<open>tools/embed/generate-embed-data.cc\<close>: the texts of the header and of the source that the tool generates, and the loop that
  loads the embedded files, on a POSIX system. \<^verbatim>\<open>absl::CHexEscape\<close> is a parameter. The result of the tool is its error, if
  any, and what it has sent to its two output streams (\<^verbatim>\<open>io/stream\<close>) until then; the logging is not modelled.
\<close>

definition newline :: string where
  "newline = [CHR 0x0A]"

text \<open>A double quote.\<close>

definition quote :: string where
  "quote = [CHR 0x22]"

section \<open>Numbers and initialisers\<close>

definition hex_digit :: "nat \<Rightarrow> char" where
  "hex_digit n = char_of (if n < 10 then 48 + n else 87 + n)"

text \<open>An \<^verbatim>\<open>int\<close> after \<^verbatim>\<open>std::hex\<close>.\<close>

fun hex_number :: "nat \<Rightarrow> string" where
  "hex_number n = (if n < 16 then [hex_digit n] else hex_number (n div 16) @ [hex_digit (n mod 16)])"

declare hex_number.simps [simp del]

definition byte_literal :: "u8 \<Rightarrow> string" where
  "byte_literal b = ''0x'' @ hex_number (unat b)"

fun separated :: "string list \<Rightarrow> string" where
  "separated [] = []"
| "separated [s] = s"
| "separated (s # t # ts) = s @ '', '' @ separated (t # ts)"

text \<open>The items of an initialiser, \<open>n\<close> to a line.\<close>

function item_lines :: "nat \<Rightarrow> string list \<Rightarrow> string" where
  "item_lines n items =
     (if items = [] \<or> n = 0 then []
      else ''    '' @ separated (take n items) @ '','' @ newline @ item_lines n (drop n items))"
  by pat_completeness auto
termination
  by (relation "measure (\<lambda>(n, items). length items)") auto

declare item_lines.simps [simp del]

definition content_name :: "nat \<Rightarrow> string" where
  "content_name i = ''content'' @ decimal_text i"

definition array_text :: "nat \<Rightarrow> bytes \<Rightarrow> string" where
  "array_text i data =
     ''std::array<uint8_t, '' @ decimal_text (length data) @ ''> '' @ content_name i @ ''{{'' @ newline @
     item_lines 8 (map byte_literal data) @ ''}};'' @ newline @ newline"

section \<open>The generated files\<close>

record embed_flags =
  variable_name :: string
  cc_namespace :: string
  output_cc :: bytes
  output_h :: bytes

definition open_namespace :: "embed_flags \<Rightarrow> string" where
  "open_namespace fl = (if cc_namespace fl \<noteq> [] then ''namespace '' @ cc_namespace fl @ '' {'' @ newline else [])"

definition close_namespace :: "embed_flags \<Rightarrow> string" where
  "close_namespace fl =
     (if cc_namespace fl \<noteq> [] then newline @ ''}  // namespace '' @ cc_namespace fl @ newline else [])"

definition extern_line :: "embed_flags \<Rightarrow> string" where
  "extern_line fl = ''extern const ::util::EmbedData '' @ variable_name fl @ '';'' @ newline"

definition header_text :: "embed_flags \<Rightarrow> string" where
  "header_text fl =
     ''#include '' @ quote @ ''util/embed-data.h'' @ quote @ newline @ newline @
     (if cc_namespace fl \<noteq> [] then open_namespace fl @ newline else []) @ extern_line fl @ close_namespace fl"

definition names_text :: "(bytes \<Rightarrow> string) \<Rightarrow> bytes list \<Rightarrow> string" where
  "names_text escape files =
     ''std::array<std::string_view, '' @ decimal_text (length files) @ ''> names{{'' @ newline @
     concat (map (\<lambda>name. ''    '' @ quote @ escape name @ quote @ '','' @ newline) files) @ ''}};'' @ newline @ newline"

definition source_start :: "embed_flags \<Rightarrow> (bytes \<Rightarrow> string) \<Rightarrow> bytes list \<Rightarrow> string" where
  "source_start fl escape files =
     ''#include <array>'' @ newline @ ''#include <string_view>'' @ newline @ newline @
     ''#include '' @ quote @ ''base/types.h'' @ quote @ newline @ ''#include '' @ quote @ ''util/embed-data.h'' @ quote @ newline @ newline @
     open_namespace fl @ ''namespace {'' @ newline @ newline @ names_text escape files"

definition source_rest :: "embed_flags \<Rightarrow> bytes list \<Rightarrow> string" where
  "source_rest fl files =
     ''std::array<ConstBufferSpan, '' @ decimal_text (length files) @ ''> contents{{'' @ newline @
     item_lines 4 (map content_name [0 ..< length files]) @ ''}};'' @ newline @ newline @ ''}  // namespace'' @ newline @ newline @
     extern_line fl @ ''const ::util::EmbedData '' @ variable_name fl @ ''(names, contents);'' @ newline @ close_namespace fl"

section \<open>The tool\<close>

text \<open>A file opened, read to its end and closed when it goes out of scope.\<close>

definition load_file :: "'k posix_calls \<Rightarrow> 'k \<Rightarrow> bytes \<Rightarrow> ((errc + bytes) \<times> 'k) option" where
  "load_file calls k name =
     (case native_open_posix calls name (posix_file_new k) of
        (Some ec, f) \<Rightarrow> Some (Inl ec, pf_system (posix_close calls f))
      | (None, f) \<Rightarrow>
          map_option (\<lambda>(r, k'). (r, pf_system (posix_close calls (f\<lparr>pf_system := k'\<rparr>))))
            (read_to_end (posix_ops calls (pf_fd f)) 8192 (pf_system f)))"

fun content_arrays :: "'k posix_calls \<Rightarrow> 'k \<Rightarrow> nat \<Rightarrow> bytes list \<Rightarrow> (errc option \<times> string \<times> 'k) option" where
  "content_arrays calls k i [] = Some (None, [], k)"
| "content_arrays calls k i (name # names) =
     (case load_file calls k name of
        None \<Rightarrow> None
      | Some (Inl ec, k') \<Rightarrow> Some (Some ec, [], k')
      | Some (Inr data, k') \<Rightarrow>
          map_option (\<lambda>(ec, t, k''). (ec, array_text i data @ t, k'')) (content_arrays calls k' (i + 1) names))"

definition generate_embed_data ::
    "embed_flags \<Rightarrow> (bytes \<Rightarrow> string) \<Rightarrow> 'k posix_calls \<Rightarrow> 'k \<Rightarrow> bytes list \<Rightarrow> (errc option \<times> string \<times> string) option" where
  "generate_embed_data fl escape calls k positional_args =
     (let files = embedded_files positional_args
      in case native_create_posix calls (output_cc fl) (posix_file_new k) of
           (Some ec, cc_file) \<Rightarrow> Some (Some ec, [], [])
         | (None, cc_file) \<Rightarrow>
             (case native_create_posix calls (output_h fl) (posix_file_new (pf_system cc_file)) of
                (Some ec, h_file) \<Rightarrow> Some (Some ec, [], [])
              | (None, h_file) \<Rightarrow>
                  map_option (\<lambda>(ec, t, k').
                      (ec, header_text fl, source_start fl escape files @ t @ (if ec = None then source_rest fl files else [])))
                    (content_arrays calls (pf_system h_file) 0 files)))"

lemma content_arrays_loaded:
  "(\<And>name. name \<in> set names \<Longrightarrow> load_file calls k name = Some (Inr (bytes_of name), k)) \<Longrightarrow>
   content_arrays calls k i names = Some (None, concat (map (\<lambda>(j, name). array_text j (bytes_of name)) (enumerate i names)), k)"
  by (induction names arbitrary: i) simp_all

lemma content_arrays_failed:
  "(\<And>name. name \<in> set names \<Longrightarrow> load_file calls k name = Some (Inr (bytes_of name), k)) \<Longrightarrow>
   load_file calls k name = Some (Inl ec, k') \<Longrightarrow>
   \<exists>t. content_arrays calls k i (names @ name # rest) = Some (Some ec, t, k')"
  by (induction names arbitrary: i) (fastforce simp del: Suc_eq_plus1)+

text \<open>The source that the tool generates when the files can be loaded: the names, the array of each file in the order of the names, and
  the list of the arrays.\<close>

theorem generate_embed_data_source:
  assumes "native_create_posix calls (output_cc fl) (posix_file_new k) = (None, cc_file)"
    and "native_create_posix calls (output_h fl) (posix_file_new (pf_system cc_file)) = (None, h_file)"
    and "\<And>name. name \<in> set files \<Longrightarrow> load_file calls (pf_system h_file) name = Some (Inr (bytes_of name), pf_system h_file)"
  shows "generate_embed_data fl escape calls k (program # files) =
    Some (None, header_text fl,
      source_start fl escape (ed_names (generated bytes_of (program # files))) @
      concat (map (\<lambda>(j, data). array_text j data) (enumerate 0 (ed_contents (generated bytes_of (program # files))))) @
      source_rest fl (ed_names (generated bytes_of (program # files))))"
proof -
  let ?names = "embedded_files (program # files)"
  have "set ?names = set files" by (auto simp: embedded_files_def)
  then have "content_arrays calls (pf_system h_file) 0 ?names =
      Some (None, concat (map (\<lambda>(j, name). array_text j (bytes_of name)) (enumerate 0 ?names)), pf_system h_file)"
    using assms(3) by (intro content_arrays_loaded) simp
  moreover have "map (\<lambda>(j, name). array_text j (bytes_of name)) (enumerate 0 ?names) =
      map (\<lambda>(j, data). array_text j data) (enumerate 0 (map bytes_of ?names))"
    by (simp add: enumerate_eq_zip zip_map2 case_prod_beta)
  ultimately show ?thesis using assms(1,2) by (simp add: generate_embed_data_def generated_def Let_def)
qed

section \<open>Reading the initialisers back\<close>

definition is_hex_digit :: "char \<Rightarrow> bool" where
  "is_hex_digit c \<longleftrightarrow> c \<in> hex_digit ` {0 ..< 16}"

definition hex_digit_value :: "char \<Rightarrow> nat" where
  "hex_digit_value c = (if of_char c < (58 :: nat) then of_char c - 48 else of_char c - 87)"

definition hex_value :: "string \<Rightarrow> nat" where
  "hex_value s = foldl (\<lambda>v c. 16 * v + hex_digit_value c) 0 s"

text \<open>The values of the hexadecimal literals in a text, as the compiler reads them.\<close>

function literals :: "string \<Rightarrow> nat list" where
  "literals s =
     (case s of
        a # b # t \<Rightarrow>
          if a = CHR ''0'' \<and> b = CHR ''x'' then hex_value (takeWhile is_hex_digit t) # literals (dropWhile is_hex_digit t)
          else literals (b # t)
      | _ \<Rightarrow> [])"
  by pat_completeness auto
termination
  by (relation "measure length") (auto intro: le_imp_less_Suc le_SucI length_dropWhile_le)

declare literals.simps [simp del]

lemma of_hex_digit: "n < 16 \<Longrightarrow> of_char (hex_digit n) = (if n < 10 then 48 + n else 87 + n)"
  by (simp add: hex_digit_def)

lemma hex_digit_props: "n < 16 \<Longrightarrow> is_hex_digit (hex_digit n)" "n < 16 \<Longrightarrow> hex_digit_value (hex_digit n) = n"
  by (auto simp: is_hex_digit_def hex_digit_value_def of_hex_digit)

lemma not_hex_digit: "\<not> is_hex_digit (CHR '','')"
proof
  assume "is_hex_digit (CHR '','')"
  then obtain n where n: "n < 16" "CHR '','' = hex_digit n" by (auto simp: is_hex_digit_def)
  then have "of_char (CHR '','') = (if n < 10 then 48 + n else 87 + n)" using of_hex_digit by metis
  then show False by (simp split: if_splits)
qed

lemma hex_number_props: "list_all is_hex_digit (hex_number n)" "hex_value (hex_number n) = n"
proof (induction n rule: hex_number.induct)
  case (1 n)
  { case 1 show ?case using "1.IH" hex_digit_props(1) [of n] hex_digit_props(1) [of "n mod 16"] by (simp add: hex_number.simps [of n]) }
  { case 2 show ?case using "1.IH" hex_digit_props(2) [of n] hex_digit_props(2) [of "n mod 16"] by (simp add: hex_number.simps [of n] hex_value_def) }
qed

lemma literals_Nil [simp]: "literals [] = []"
  by (simp add: literals.simps)

lemma literals_skip [simp]:
  assumes "c \<noteq> CHR ''0''"
  shows "literals (c # t) = literals t"
proof (cases t)
  case Nil
  then show ?thesis by (simp add: literals.simps [of "[c]"])
next
  case (Cons b u)
  then show ?thesis using assms literals.simps [of "c # b # u"] by simp
qed

lemma literals_byte: "\<not> is_hex_digit c \<Longrightarrow> literals (byte_literal b @ c # t) = unat b # literals (c # t)"
proof -
  assume c: "\<not> is_hex_digit c"
  have d: "\<And>x. x \<in> set (hex_number (unat b)) \<Longrightarrow> is_hex_digit x" using hex_number_props(1) [of "unat b"] by (simp add: list_all_iff)
  then have "takeWhile is_hex_digit (hex_number (unat b) @ c # t) = hex_number (unat b)"
    "dropWhile is_hex_digit (hex_number (unat b) @ c # t) = c # t" using c by simp_all
  then show ?thesis by (simp add: byte_literal_def literals.simps [of "CHR ''0'' # _"] hex_number_props(2))
qed

lemma literals_separated:
  "\<not> is_hex_digit c \<Longrightarrow> literals (separated (map byte_literal bs) @ c # t) = map unat bs @ literals (c # t)"
proof (induction bs rule: induct_list012)
  case (3 b b' bs)
  then show ?case using not_hex_digit by (simp add: literals_byte)
qed (simp_all add: literals_byte)

text \<open>The initialiser of the array of a file denotes the bytes of the file: the hexadecimal literals in the generated lines are
  the values of the bytes, in order.\<close>

theorem generated_array_bytes: "map of_nat (literals (item_lines 8 (map byte_literal data))) = data"
proof -
  have "literals (item_lines 8 (map byte_literal data)) = map unat data"
  proof (induction "length data" arbitrary: data rule: less_induct)
    case less
    show ?case
    proof (cases "data = []")
      case False
      then have ih: "literals (item_lines 8 (map byte_literal (drop 8 data))) = map unat (drop 8 data)" by (intro less.hyps) simp
      have "literals (separated (map byte_literal (take 8 data)) @ CHR '','' # newline @ item_lines 8 (map byte_literal (drop 8 data))) =
          map unat (take 8 data) @ map unat (drop 8 data)"
        using not_hex_digit ih by (simp add: literals_separated newline_def)
      also have "\<dots> = map unat data" by (metis append_take_drop_id map_append)
      finally show ?thesis
        using False by (simp add: item_lines.simps [of 8 "map byte_literal data"] take_map drop_map)
    qed (simp add: item_lines.simps)
  qed
  then show ?thesis by (simp add: comp_def)
qed

end
