(* ===== verification/Native_Table.thy ===== *)
theory Native_Table
  imports SSTable_Reader Native_File
begin

text \<open>
  Tables of \<^verbatim>\<open>db/sstable\<close> in POSIX files of \<^verbatim>\<open>io/posix\<close>. The builder and the reader call \<^verbatim>\<open>File::write\<close> and
  \<^verbatim>\<open>File::pread\<close> once and take the transfer for complete. On a disk whose calls are complete, as for a regular
  file with space left and no signals, the tables are as good as in memory; on one with short transfers, which POSIX
  allows, the builder reports success for a table that cannot be opened.
\<close>

section \<open>Complete transfers\<close>

definition posix_complete :: "'k posix_calls \<Rightarrow> int \<Rightarrow> ('k \<Rightarrow> bytes) \<Rightarrow> ('k \<Rightarrow> nat) \<Rightarrow> bool" where
  "posix_complete calls fd contents pos \<longleftrightarrow>
     (\<forall>k n. \<exists>k'. sys_read calls k fd n = (Inr (take n (drop (pos k) (contents k))), k')) \<and>
     (\<forall>k xs. \<exists>k'. sys_write calls k fd xs = (Inr (length xs), k') \<and> (xs = [] \<longrightarrow> contents k' = contents k \<and> pos k' = pos k)) \<and>
     (\<forall>k n p. \<exists>k'. sys_pread calls k fd n (int p) = (Inr (take n (drop p (contents k))), k') \<and> contents k' = contents k \<and> pos k' = pos k) \<and>
     (\<forall>k. \<exists>k'. sys_fstat_size calls k fd = (Inr (int (length (contents k))), k') \<and> contents k' = contents k \<and> pos k' = pos k)"

lemma posix_full_file:
  assumes laws: "posix_laws calls fd contents pos" and complete: "posix_complete calls fd contents pos"
  shows "full_file (posix_ops calls fd) contents pos"
proof (intro full_file.intro full_file_axioms.intro)
  show "file_contract (posix_ops calls fd) contents pos" by (rule posix_file_contract [OF laws])
  note c = complete [unfolded posix_complete_def]
  show "\<exists>k'. read_op (posix_ops calls fd) k n = (Inr (take n (drop (pos k) (contents k))), k')" for k n
    using c by (simp add: posix_ops_def px_read_def sys_result_Inr)
  show "\<exists>k'. write_op (posix_ops calls fd) k xs = (Inr (length xs), k')" for k xs
    using c by (simp add: posix_ops_def px_write_def sys_result_Inr) blast
  show "\<exists>k'. pread_op (posix_ops calls fd) k (int p) n = (Inr (take n (drop p (contents k))), k') \<and> contents k' = contents k \<and> pos k' = pos k" for k p n
    using c by (simp add: posix_ops_def px_pread_def sys_result_Inr)
  show "\<exists>k'. size_op (posix_ops calls fd) k = (Inr (int (length (contents k))), k') \<and> contents k' = contents k \<and> pos k' = pos k" for k
    using c by (simp add: posix_ops_def px_size_def sys_result_Inr)
  show "contents k' = contents k \<and> pos k' = pos k" if "write_op (posix_ops calls fd) k [] = (r, k')" for k r k'
  proof -
    from c obtain k1 where "sys_write calls k fd [] = (Inr 0, k1)" "contents k1 = contents k \<and> pos k1 = pos k" by (metis list.size(3))
    with that show ?thesis by (simp add: posix_ops_def px_write_def sys_result_def)
  qed
qed

text \<open>End to end over the system calls: build a table in an empty file, open it, and look up any key or iterate.\<close>

theorem sstable_posix_built:
  assumes "posix_laws calls fd contents pos" and "posix_complete calls fd contents pos" and "contents k = []" and "pos k = 0"
    and "entries_fit es" and "sorted (map fst es)" and "block_size \<le> max_block_size"
  shows "\<exists>k1 st k2 k3. build_table (posix_ops calls fd) k block_size flush_size es = Some (None, k1) \<and>
      sstable_init (posix_ops calls fd) k1 = Some (Inr st, k2) \<and>
      sstable_lookup (posix_ops calls fd) st k2 key =
        Some (case map_of es key of Some v \<Rightarrow> Inr v | None \<Rightarrow> Inl No_message_available, k3)"
    and "\<exists>k1 st k2 k3. build_table (posix_ops calls fd) k block_size flush_size es = Some (None, k1) \<and>
      sstable_init (posix_ops calls fd) k1 = Some (Inr st, k2) \<and>
      scan_table (posix_ops calls fd) st k2 = Some (es, No_message_available, k3)"
  by (rule full_file.lookup_built [OF posix_full_file]; fact) (rule full_file.scan_built [OF posix_full_file]; fact)

text \<open>A disk with one file and complete transfers.\<close>

definition whole_disk :: "(bytes \<times> nat) posix_calls" where
  "whole_disk = slow_disk\<lparr>
     sys_read := \<lambda>(c, p) fd n. let xs = take n (drop p c) in (Inr xs, (c, p + length xs)),
     sys_write := \<lambda>(c, p) fd xs. (Inr (length xs), if xs = [] then (c, p) else (put_bytes p xs c, p + length xs)),
     sys_pread := \<lambda>(c, p) fd n offset. (Inr (take n (drop (nat offset) c)), (c, p))\<rparr>"

lemma whole_disk_laws: "posix_laws whole_disk fd fst snd" "posix_complete whole_disk fd fst snd"
  by (auto simp: posix_laws_def posix_complete_def whole_disk_def slow_disk_def Let_def min_def split: if_splits)

interpretation disk: full_file "posix_ops whole_disk fd" fst snd for fd
  by (rule posix_full_file [OF whole_disk_laws])

section \<open>Short transfers\<close>

text \<open>On a disk that takes three bytes at a time the builder writes its buffer with one call, drops the rest and reports
  success; what is left of the table cannot be opened.\<close>

theorem sstable_short_write_lost:
  "build_table (posix_ops slow_disk 3) ([], 0) 4096 64 [([97], [1])] = Some (None, ([1, 0, 0], 3))"
  "sstable_init (posix_ops slow_disk 3) ([1, 0, 0], 3) = Some (Inl No_message, ([1, 0, 0], 3))"
  by code_simp+

end
