(* ===== verification/Flatbuffers_Reflection.thy ===== *)
theory Flatbuffers_Reflection
  imports Trunk_Prelude
begin

text \<open>
  \<^verbatim>\<open>util/flatbuffers-reflection.cc\<close>: text to a FlatBuffers buffer and back, by a schema that is known at run time. The
  \<^verbatim>\<open>flatbuffers::Parser\<close> is a parameter: a state \<open>'p\<close> with the buffer of its builder, and the operations of the
  library. \<open>pr_parse\<close> puts the parsed data into the builder, \<open>pr_serialize\<close> the schema; \<open>pr_verify\<close> checks a buffer
  against a serialised schema; \<open>pr_gen_text\<close> is \<^verbatim>\<open>GenText\<close>, which returns an error message or null, and the
  text. \<open>reflection_laws\<close>, for data of one schema, is what the library promises: neither operation changes the schema,
  what was parsed is a valid buffer of the schema, and its text is the one that the schema gives to the value.
\<close>

record 'p parser_ops =
  pr_parse :: "'p \<Rightarrow> string \<Rightarrow> bool \<times> 'p"
  pr_serialize :: "'p \<Rightarrow> 'p"
  pr_buffer :: "'p \<Rightarrow> bytes"
  pr_verify :: "bytes \<Rightarrow> bytes \<Rightarrow> bool"
  pr_gen_text :: "'p \<Rightarrow> bytes \<Rightarrow> string option \<times> string"

text \<open>\<^verbatim>\<open>pack(parser, in, out)\<close>: the result, the parser and the new \<open>out\<close>.\<close>

definition reflect_pack :: "'p parser_ops \<Rightarrow> 'p \<Rightarrow> string \<Rightarrow> bytes \<Rightarrow> bool \<times> 'p \<times> bytes" where
  "reflect_pack ops parser s out =
     (case pr_parse ops parser s of (ok, parser') \<Rightarrow>
        if \<not> ok then (False, parser', out) else (True, parser', pr_buffer ops parser'))"

definition reflect_unpack :: "'p parser_ops \<Rightarrow> 'p \<Rightarrow> bytes \<Rightarrow> string \<Rightarrow> bool \<times> 'p \<times> string" where
  "reflect_unpack ops parser b out =
     (let parser = pr_serialize ops parser;
          schema = pr_buffer ops parser
      in if \<not> pr_verify ops schema b then (False, parser, out)
         else case pr_gen_text ops parser b of (err, text) \<Rightarrow> (err = None, parser, text))"

definition reflection_laws :: "'p parser_ops \<Rightarrow> ('p \<Rightarrow> 'k) \<Rightarrow> ('k \<Rightarrow> string \<Rightarrow> string option) \<Rightarrow> bool" where
  "reflection_laws ops schema_of canonical \<longleftrightarrow>
     (\<forall>p s. schema_of (snd (pr_parse ops p s)) = schema_of p \<and> schema_of (pr_serialize ops p) = schema_of p) \<and>
     (\<forall>p s. fst (pr_parse ops p s) \<longleftrightarrow> canonical (schema_of p) s \<noteq> None) \<and>
     (\<forall>p q s t. canonical (schema_of p) s = Some t \<longrightarrow> schema_of q = schema_of p \<longrightarrow>
        pr_verify ops (pr_buffer ops (pr_serialize ops q)) (pr_buffer ops (snd (pr_parse ops p s))) \<and>
        pr_gen_text ops (pr_serialize ops q) (pr_buffer ops (snd (pr_parse ops p s))) = (None, t))"

text \<open>Text that the schema accepts survives as its canonical form, also when buffer and parser have been used in between; text
  that it does not accept is refused and leaves the output alone.\<close>

theorem reflection_roundtrip:
  assumes laws: "reflection_laws ops schema_of canonical" and pack: "reflect_pack ops p s out = (ok, p', b)"
  shows "(ok \<longleftrightarrow> canonical (schema_of p) s \<noteq> None) \<and> (\<not> ok \<longrightarrow> b = out) \<and>
    (ok \<longrightarrow> (\<exists>q. reflect_unpack ops p' b txt = (True, q, the (canonical (schema_of p) s)) \<and> schema_of q = schema_of p))"
proof -
  have L: "schema_of (snd (pr_parse ops p s)) = schema_of p" "fst (pr_parse ops p s) \<longleftrightarrow> canonical (schema_of p) s \<noteq> None"
      "schema_of (pr_serialize ops q) = schema_of q" for q
    using laws unfolding reflection_laws_def by blast+
  have R: "pr_verify ops (pr_buffer ops (pr_serialize ops q)) (pr_buffer ops (snd (pr_parse ops p s)))"
      "pr_gen_text ops (pr_serialize ops q) (pr_buffer ops (snd (pr_parse ops p s))) = (None, t)"
    if "canonical (schema_of p) s = Some t" and "schema_of q = schema_of p" for q t
    using laws that unfolding reflection_laws_def by blast+
  obtain ok' q where q: "pr_parse ops p s = (ok', q)" by fastforce
  show ?thesis using pack L(1,2) R [of _ q] L(3) [of q]
    by (cases ok'; cases "canonical (schema_of p) s") (auto simp: reflect_pack_def reflect_unpack_def q Let_def)
qed

text \<open>The laws can hold: a parser of the empty table.\<close>

definition sample_parser :: "bytes parser_ops" where
  "sample_parser =
     \<lparr>pr_parse = \<lambda>p s. if s = ''{ }'' then (True, [1]) else (False, p), pr_serialize = \<lambda>p. [], pr_buffer = \<lambda>p. p,
      pr_verify = \<lambda>schema b. b = [1], pr_gen_text = \<lambda>p b. (None, ''{}'')\<rparr>"

lemma sample_parser_laws: "reflection_laws sample_parser (\<lambda>_. ()) (\<lambda>_ s. if s = ''{ }'' then Some ''{}'' else None)"
  by (simp add: reflection_laws_def sample_parser_def)

lemma reflection_roundtrip_sample: "reflect_pack sample_parser [] ''{ }'' [] = (True, [1], [1]) \<and>
    reflect_unpack sample_parser [1] [1] [] = (True, [], ''{}'')"
  using reflection_roundtrip [OF sample_parser_laws, of "[]" "''{ }''" "[]"] by (auto simp: sample_parser_def reflect_pack_def reflect_unpack_def)

end
