(* ===== verification/Base_Flags.thy ===== *)
theory Base_Flags
  imports Trunk_Prelude
begin

text \<open>
  \<^verbatim>\<open>base/flags\<close> and the format of \<^verbatim>\<open>base/logging\<close>. \<^verbatim>\<open>DEFINE_FLAG\<close> declares a flag of Abseil and a variable of the same
  name, and registers a setter that copies the one to the other; \<^verbatim>\<open>parse_flags\<close> runs the setters. Abseil is a
  parameter: \<open>parse\<close> is \<^verbatim>\<open>absl::ParseCommandLine\<close>, which gives the flags their values and returns the positional
  arguments. Flags are named; \<open>zero\<close> is the value of a variable before it is set.

  A log record has its severity, its time as text, the place in the source and the message.
\<close>

section \<open>Flags\<close>

record 'v flag_state =
  fs_setters :: "string list"
  fs_absl :: "string \<Rightarrow> 'v"
  fs_vars :: "string \<Rightarrow> 'v"

definition flags_new :: "'v \<Rightarrow> 'v flag_state" where
  "flags_new zero = \<lparr>fs_setters = [], fs_absl = \<lambda>_. zero, fs_vars = \<lambda>_. zero\<rparr>"

definition register_flag :: "string \<Rightarrow> 'v flag_state \<Rightarrow> 'v flag_state" where
  "register_flag setter s = s\<lparr>fs_setters := fs_setters s @ [setter]\<rparr>"

text \<open>The static initialisation that \<^verbatim>\<open>DEFINE_FLAG\<close> expands to.\<close>

definition define_flag :: "string \<Rightarrow> 'v \<Rightarrow> 'v flag_state \<Rightarrow> 'v flag_state" where
  "define_flag name default_value s = register_flag name (s\<lparr>fs_absl := (fs_absl s)(name := default_value)\<rparr>)"

text \<open>One setter: \<^verbatim>\<open>flags::_name = absl::GetFlag(FLAGS_name)\<close>.\<close>

definition run_setter :: "string \<Rightarrow> 'v flag_state \<Rightarrow> 'v flag_state" where
  "run_setter name s = s\<lparr>fs_vars := (fs_vars s)(name := fs_absl s name)\<rparr>"

definition parse_flags ::
    "(string list \<Rightarrow> (string \<Rightarrow> 'v) \<Rightarrow> string list \<times> (string \<Rightarrow> 'v)) \<Rightarrow> string list \<Rightarrow> 'v flag_state \<Rightarrow> string list \<times> 'v flag_state" where
  "parse_flags parse argv s =
     (case parse argv (fs_absl s) of (positional_args, values) \<Rightarrow>
        let s = s\<lparr>fs_absl := values\<rparr> in (positional_args, fold run_setter (fs_setters s) s))"

lemma run_setters:
  "fs_absl (fold run_setter ns s) = fs_absl s"
  "fs_vars (fold run_setter ns s) = (\<lambda>n. if n \<in> set ns then fs_absl s n else fs_vars s n)"
  by (induction ns arbitrary: s) (auto simp: run_setter_def fun_eq_iff)

text \<open>After \<^verbatim>\<open>parse_flags\<close> every defined flag's variable has the value that the command line or the default gives it, whatever
  the order of the definitions and however often a flag was defined; no other variable has changed.\<close>

theorem parsed_flags_set:
  assumes "parse_flags parse argv (fold (\<lambda>(n, v). define_flag n v) defs (flags_new zero)) = (rest, s)"
  shows "fs_vars s = (\<lambda>n. if n \<in> fst ` set defs then fs_absl s n else zero) \<and>
    (rest, fs_absl s) = parse argv (fs_absl (fold (\<lambda>(n, v). define_flag n v) defs (flags_new zero)))"
proof -
  have defs: "fs_setters (fold (\<lambda>(n, v). define_flag n v) defs t) = fs_setters t @ map fst defs \<and>
      fs_vars (fold (\<lambda>(n, v). define_flag n v) defs t) = fs_vars t" for t :: "'a flag_state"
    by (induction defs arbitrary: t) (auto simp: define_flag_def register_flag_def)
  obtain vals where v: "parse argv (fs_absl (fold (\<lambda>(n, v). define_flag n v) defs (flags_new zero))) = (rest, vals)"
    and s: "s = fold run_setter (map fst defs) (fold (\<lambda>(n, v). define_flag n v) defs (flags_new zero)\<lparr>fs_absl := vals\<rparr>)"
    using assms defs [of "flags_new zero"] by (auto simp: parse_flags_def Let_def flags_new_def split: prod.splits)
  show ?thesis unfolding v s by (auto simp: run_setters defs flags_new_def fun_eq_iff)
qed

section \<open>Log lines\<close>

datatype severity_level = Trace | Debug | Info | Warning_level | Error_level | Fatal

record log_record =
  lr_severity :: severity_level
  lr_time :: string
  lr_file :: string
  lr_line :: nat
  lr_message :: string

definition escape :: "string \<Rightarrow> string" where
  "escape code = CHR 0x1B # CHR ''['' # code @ ''m''"

fun severity_text :: "severity_level \<Rightarrow> string" where
  "severity_text Trace = escape ''37'' @ ''T''"
| "severity_text Debug = escape ''34'' @ ''D''"
| "severity_text Info = escape ''32'' @ ''I''"
| "severity_text Warning_level = escape ''33'' @ ''W''"
| "severity_text Error_level = escape ''31'' @ ''E''"
| "severity_text Fatal = escape ''30;41'' @ ''F''"

text \<open>\<open>decimal\<close> prints a number.\<close>

definition console_log_formatter :: "(nat \<Rightarrow> string) \<Rightarrow> log_record \<Rightarrow> string" where
  "console_log_formatter decimal r =
     severity_text (lr_severity r) @ lr_time r @ '' '' @ lr_file r @ '':'' @ decimal (lr_line r) @ escape ''0'' @ '' '' @ lr_message r"

text \<open>The severity can be read off a line.\<close>

lemma severity_of_line:
  assumes "console_log_formatter decimal r = console_log_formatter decimal r'"
  shows "lr_severity r = lr_severity r'"
  using assms by (cases "lr_severity r"; cases "lr_severity r'") (simp_all add: console_log_formatter_def escape_def)

end
