(* ===== verification/Spec2Isabelle.thy ===== *)
theory Spec2Isabelle
  imports Varint Consume_Int Utf Rope Filter_Stats Line_Reader SSTable_Reader Rpc_Typed Timed_Run Rate_Limiter Net_Values Net_System
    Http_Client Http_Server Icmp_Client Hex_Dumper Ostream Embed_Generator Native_Table
    Flatbuffers_Reflection Base_Flags
begin

text \<open>
  A verification development for the C++ libraries of this repository, the directories \<^verbatim>\<open>util\<close>, \<^verbatim>\<open>io\<close>, \<^verbatim>\<open>db\<close>, \<^verbatim>\<open>security\<close>,
  \<^verbatim>\<open>net\<close>, \<^verbatim>\<open>base\<close> and \<^verbatim>\<open>tools/embed\<close> under \<^verbatim>\<open>src/\<close>.

  \<^bold>\<open>The program.\<close> \<^verbatim>\<open>util\<close> holds codecs (variable-length integers, UTF-16 and UTF-8, decimal integers), a rope for
  text, a cuckoo filter, a hex dumper and a table of files embedded into a binary. \<^verbatim>\<open>io\<close> is an abstract file
  (\<^verbatim>\<open>io::File\<close>) with implementations in memory, on POSIX and on Windows, and clients of it: loops that complete short
  transfers, a line reader, an output stream. \<^verbatim>\<open>db\<close> is a sorted string table over a file. \<^verbatim>\<open>security\<close> has symmetric
  keys and a store of them. \<^verbatim>\<open>net\<close> is asynchronous: a remote procedure call protocol over sealed UDP datagrams, a list
  of timers of one duration, a token bucket, an HTTP client and server, an ICMP client, and the text form of
  addresses. \<^verbatim>\<open>base\<close> has command line flags and logging. \<^verbatim>\<open>tools/embed\<close> generates the tables that \<^verbatim>\<open>util/embed-data\<close> searches.

  \<^bold>\<open>How a component is modelled.\<close> One theory per component, in the order of the code. A class is a record of its
  data members, an enumeration or a variant a datatype, each member function one function that takes the record and
  returns it updated. Machine integers are words where their wrap-around can be observed (\<^verbatim>\<open>u8\<close> to \<^verbatim>\<open>u64\<close> of
  Trunk\_Prelude), integers with a check of the range (\<open>checked_int32\<close>, \<open>checked_int64\<close>) where signed arithmetic
  can overflow, natural numbers where the sources measure memory. The conventions for failure are the same everywhere.

    \<^item> \<open>errc + 'a\<close> is a result of a function that reports a \<^verbatim>\<open>std::error_code\<close>; the constructors of \<open>errc\<close> are the
      codes that the sources name, and \<open>System n\<close> is an error number of the operating system.

    \<^item> \<open>None\<close> is a call that has no defined result: undefined behaviour of C++ (a dereferenced null pointer, a
      signed overflow, an access out of bounds, the use of a destroyed object, a moved-from callback), an uncaught
      exception, or a loop that does not end.

    \<^item> A loop that ends on every input is a \<open>function\<close> with its termination proof; a loop that may not end is a
      \<open>partial_function\<close> into options, and its properties state that it returns. No definition is limited by fuel.

  An asynchronous operation is split at its suspension points: what the code does up to the start of the operation is
  one function, its completion handler another. The events of the environment (a datagram arrives, a timer expires, a
  write fails) are the rules of an inductive step relation, or the elements of an explicit sequence, so that a
  property quantifies over every order of events. Object lifetimes that the code keeps by reference counts are
  explicit: who holds an object, and that it is destroyed when nobody does. Loops that call user code are cut at
  the call, so that the user may call back into the object.

  \<^bold>\<open>Parameters.\<close> Code that is not in the repository is an argument of the definitions that use it, with the behaviour
  that the code relies on as a predicate or a locale.

    \<^item> \<open>crypto\<close> (Security): sealing and opening of BoringSSL, with \<open>aead_laws\<close>. Opening is given the old contents of the
      output buffer; nothing is assumed of the buffer after a failure.

    \<^item> \<open>interval_ops\<close> (Rpc\_Wire): \<^verbatim>\<open>boost::icl::interval_set\<close>, with \<open>interval_laws\<close>.

    \<^item> \<open>address_ops\<close> (Net\_Types): the addresses of Boost.Asio, with \<open>address_laws\<close>.

    \<^item> \<open>posix_calls\<close> and \<open>win32_calls\<close> (Native\_File): system calls over a state of the system, with \<open>posix_laws\<close> for regular
      files and \<open>posix_complete\<close> for those without short transfers, and \<open>socket_calls\<close> (Net\_System): the sockets of Boost.Asio, with \<open>socket_laws\<close>.

    \<^item> \<open>flatbuffers\<close> (Rpc\_Typed): the code that FlatBuffers generates for a table, with \<open>flatbuffers_laws\<close>; \<open>parser_ops\<close>
      (Flatbuffers\_Reflection): its parser of schemas, with \<open>reflection_laws\<close>.

    \<^item> the HTTP messages of Boost.Beast (Http\_Client, Http\_Server): any types, with a test of responses in the server; what the user
      code in a callback of the HTTP client does is the datatype \<open>react\<close>, a tree of further requests.

    \<^item> the random generators of Rope, Hash\_Filter and Rpc\_Client: a function from a generator state to a number and the
      next state, about which nothing is assumed.

  Each of the laws is shown to be satisfiable by an instance (\<open>plain_crypto\<close>, \<open>list_intervals\<close> and others) that the
  witnesses of the properties use.

  \<^bold>\<open>Theories and sources.\<close>

    \<^item> Trunk\_Prelude: words, bytes, error codes, little-endian numbers, block moves, and the simplification
      collections \<open>word_bit_simps\<close> and \<open>buffer_simps\<close>.

    \<^item> Varint (\<^verbatim>\<open>util/varint.h\<close>), Consume\_Int (\<^verbatim>\<open>util/strings.cc\<close>), Utf (\<^verbatim>\<open>util/utf.cc\<close>): the codecs. Round trips; the exact
      range in which the varint round trip holds; exact results of the decimal readers, which wrap.

    \<^item> Rope (\<^verbatim>\<open>util/rope.cc\<close>): the tree \<open>rep\<close> with \<open>insert_rep\<close>, \<open>erase_rep\<close>, \<open>merge\<close> and the copy of a range, and the
      abstract text. The locale \<open>text_store\<close> states that edits on the representation implement edits on a plain string.

    \<^item> Hash\_Filter (\<^verbatim>\<open>util/hash-filter.cc\<close>): buckets, the kick loop, the four vectorised searches. The locale
      \<open>approximate_set\<close> states what a filter promises. Filter\_Stats (\<^verbatim>\<open>util/hash-filter_stats.cc\<close>): what the counts of the statistics
      program mean.

    \<^item> File\_Interface (\<^verbatim>\<open>io/file.h\<close>) with the locales \<open>file_contract\<close> and \<open>full_file\<close>; Memory\_File (\<^verbatim>\<open>io/memory-file.cc\<close>), which
      interprets both; File\_Utils (\<^verbatim>\<open>io/file-utils.cc\<close>), Line\_Reader (\<^verbatim>\<open>io/line-reader.cc\<close>), Ostream (\<^verbatim>\<open>io/stream.cc\<close>) and
      Hex\_Dumper (\<^verbatim>\<open>util/hex-dumper.cc\<close>), whose lemmas are proved over any file that keeps the contract and then stated
      for memory files; Native\_File (\<^verbatim>\<open>io/posix\<close>, \<^verbatim>\<open>io/win32\<close>, \<^verbatim>\<open>io/native-file\<close>) with the locale \<open>owned_handle\<close> for the
      ownership of handles. A POSIX file keeps \<open>file_contract\<close> under \<open>posix_laws\<close> (\<open>posix_file_contract\<close>), and
      \<open>full_file\<close> if its transfers are complete (Native\_Table).

    \<^item> Lower\_Bound (\<^verbatim>\<open>std::lower_bound\<close>), SSTable (\<^verbatim>\<open>db/sstable.cc\<close>), SSTable\_Builder (the bytes the builder writes, as a
      function of the entries) and SSTable\_Reader (that the reader recovers the entries, over any \<open>full_file\<close>); Native\_Table, tables in
      POSIX files, and what a short write does to one; Embed\_Data
      (\<^verbatim>\<open>util/embed-data.cc\<close>) and Embed\_Generator (\<^verbatim>\<open>tools/embed/generate-embed-data.cc\<close>: loading the files and the texts it
      writes, whose array initialisers denote the files).

    \<^item> Security (\<^verbatim>\<open>security/key.cc\<close>, \<^verbatim>\<open>security/keystore.cc\<close>), Rpc\_Wire (\<^verbatim>\<open>net/rpc/wire-structs.h\<close> and the loop that cuts a
      message into datagrams), Rpc\_Client (\<^verbatim>\<open>net/rpc/client.cc\<close>, \<^verbatim>\<open>util/fibonacci-sequence.h\<close>), Rpc\_Server
      (\<^verbatim>\<open>net/rpc/server.cc\<close>); Rpc\_Correct, one operation of each end together; Rpc\_World, a whole client and a whole server
      with their options and receive loops among other traffic, and their destructors; Rpc\_Typed, the typed layer of
      \<^verbatim>\<open>net/rpc/flatbuffers-handler.h\<close> and \<^verbatim>\<open>net/rpc/flatbuffers-request.h\<close>. What happens to an operation depends only on the
      datagrams that carry its key, which lifts the properties of single operations to the tables.

    \<^item> Timer\_List (\<^verbatim>\<open>net/timer-list.h\<close>), Rate\_Limiter (\<^verbatim>\<open>net/rate-limiter.cc\<close>): step relations with an explicit clock and the
      waitable timer as part of the state; Timer\_Spec, the specification of independent timers that the list refines;
      Timed\_Run, the coroutine \<^verbatim>\<open>run\<close> of the timer list.

    \<^item> Callback\_Ledger: the locale \<open>callback_system\<close>, the promise of an asynchronous client that a callback is called
      exactly once; Http\_Client (\<^verbatim>\<open>net/http/client.cc\<close>) and Icmp\_Client (\<^verbatim>\<open>net/icmp-client.cc\<close>) interpret it. The HTTP client
      has the timers of its connections with a clock, and its invariant is relative to the connections whose handlers are in the
      middle of their work, because callbacks may call back into the client. Http\_Server (\<^verbatim>\<open>net/http/server.cc\<close>) is the
      life of a connection, with its request and response objects, and the accept loop.

    \<^item> Net\_Types (\<^verbatim>\<open>net/types\<close>, \<^verbatim>\<open>net/ip-encoding.cc\<close>): addresses and names with ports. The locale \<open>text_form\<close> states that a
      printed form is read back; the three classes and the flags of Asio\_Flags (\<^verbatim>\<open>net/asio-flags.cc\<close>) interpret it.
      Net\_Values: the classes as values, with their conversions and the exceptions of their accessors.

    \<^item> Net\_System: the interfaces of \<^verbatim>\<open>net/types\<close> (streams, datagrams, connectors, resolvers) with the locale
      \<open>connector_contract\<close>, \<^verbatim>\<open>net/system\<close>, which keeps it (what a returned connection is and what its peer receives), and
      \<^verbatim>\<open>net/blocking-result.h\<close>.

    \<^item> Base\_Flags (\<^verbatim>\<open>base/flags\<close>, the line format of \<^verbatim>\<open>base/logging.cc\<close>) and Flatbuffers\_Reflection
      (\<^verbatim>\<open>util/flatbuffers-reflection.cc\<close>).

  \<^bold>\<open>What is shown.\<close> The central properties put components together: a remote call over a network that reorders and
  repeats datagrams calls its handler once and returns its answer; a table that was built is read back by lookup and
  by iteration; the rope holds what the same edits make of a string; a filter has no false negatives and a failed
  insertion loses at most one fingerprint; lines, streams and dumps transfer every byte over files with short
  transfers. The asynchronous parts have invariants over all interleavings: callbacks once and within the timeout, timers
  that are what independent timers would be and whose wake-ups are not lost, tokens never overdrawn, responses in
  step with requests. Where the code does not do what it means to, the property states exactly when:
  a varint above \<^verbatim>\<open>2 ^ 31\<close>, a message above 64 KiB, a timeout of more than 1836311902 first pauses, an entry above 16 MiB, a connection taken
  from the pool after it was destroyed, a handler slower than the connection timeout, a second ICMP reply, a
  buffer of 4 GiB on Windows.

  \<^bold>\<open>Bounds.\<close> Sizes and indices of objects in memory are natural numbers: they cannot reach \<^verbatim>\<open>2 ^ 63\<close>. Durations of the rate
  limiter and of the RPC client are 64-bit counts of nanoseconds, and the sequence of the pauses of the RPC client has 32
  bits: what overflows has no result, and the theorems say when that happens. The clock of the timer list is an integer. The 16-bit
  fragment offset, the 32-bit counts of Windows, the varint shifts, ports, sequence numbers, fingerprints and
  checksums are words. The limit of 64 KiB in the RPC properties is that of the fragment offset, and what happens above it
  is a property of its own; a datagram is cut to the receive buffer, whose default has room for a datagram of default size.

  \<^bold>\<open>Not modelled.\<close> \<^verbatim>\<open>net/asio.h\<close>, \<^verbatim>\<open>net/http/beast.h\<close> and \<^verbatim>\<open>base/packed.h\<close> (declarations and macros), \<^verbatim>\<open>base/types.h\<close> (views of
  bytes, here byte lists), \<^verbatim>\<open>net/asio-hash.h\<close> and the other hash functions (which feed the parts of a value to a hash of
  Abseil and only have to respect equality), \<^verbatim>\<open>util/pod.h\<close> (placement new, which nothing uses), the set-up of Boost.Log, the
  contents of HTTP messages (Boost.Beast), moments beyond the range of the clock in the timer list, and
  tests and benchmarks.
\<close>

end
